(* ===== verification/Zul_Prelude.thy ===== *)
theory Zul_Prelude
  imports Main "HOL-Library.Word" "HOL-Library.Monad_Syntax"
begin

text \<open>
  Shared vocabulary of the development: the machine integers and byte strings of the Rust
  sources, little- and big-endian encodings, the saturating and checked arithmetic of the
  standard library, slices, and the generic list and map lemmas the components use.

  A fixed-size array \<^verbatim>\<open>[u8; N]\<close> is a list of bytes; that it has length N is a
  hypothesis where it matters. Unchecked arithmetic on a word wraps, as it does in the chain's
  release profile.
\<close>

unbundle bit_operations_syntax

type_synonym u8 = "8 word"
type_synonym u16 = "16 word"
type_synonym u32 = "32 word"
type_synonym u64 = "64 word"
type_synonym bytes = "u8 list"
type_synonym h256 = bytes
type_synonym pubkey = bytes
type_synonym sigbytes = bytes

named_theorems arith_unat \<open>readings of word arithmetic as arithmetic on natural numbers\<close>
named_theorems layout \<open>facts on byte layouts: lengths, slices, splices\<close>


section \<open>Integers as bytes\<close>

fun le_digits :: "nat \<Rightarrow> nat \<Rightarrow> bytes" where
  "le_digits 0 v = []"
| "le_digits (Suc n) v = of_nat (v mod 256) # le_digits n (v div 256)"

fun le_val :: "bytes \<Rightarrow> nat" where
  "le_val [] = 0"
| "le_val (b # bs) = unat b + 256 * le_val bs"

definition u64_le :: "u64 \<Rightarrow> bytes" where
  "u64_le w = le_digits 8 (unat w)"

definition u32_le :: "u32 \<Rightarrow> bytes" where
  "u32_le w = le_digits 4 (unat w)"

definition u64_of_le :: "bytes \<Rightarrow> u64" where
  "u64_of_le bs = of_nat (le_val bs)"

definition u32_of_le :: "bytes \<Rightarrow> u32" where
  "u32_of_le bs = of_nat (le_val bs)"

definition u64_be :: "u64 \<Rightarrow> bytes" where
  "u64_be w = rev (le_digits 8 (unat w))"

definition u32_be :: "u32 \<Rightarrow> bytes" where
  "u32_be w = rev (le_digits 4 (unat w))"

definition u16_be :: "u16 \<Rightarrow> bytes" where
  "u16_be w = rev (le_digits 2 (unat w))"

definition u64_of_be :: "bytes \<Rightarrow> u64" where
  "u64_of_be bs = of_nat (le_val (rev bs))"

definition u32_of_be :: "bytes \<Rightarrow> u32" where
  "u32_of_be bs = of_nat (le_val (rev bs))"

definition u16_of_be :: "bytes \<Rightarrow> u16" where
  "u16_of_be bs = of_nat (le_val (rev bs))"


section \<open>Arithmetic of the standard library\<close>

definition saturating_add :: "'a::len word \<Rightarrow> 'a word \<Rightarrow> 'a word" where
  "saturating_add a b = (if unat a + unat b < 2 ^ LENGTH('a) then a + b else - 1)"

definition saturating_sub :: "'a::len word \<Rightarrow> 'a word \<Rightarrow> 'a word" where
  "saturating_sub a b = (if b \<le> a then a - b else 0)"

definition saturating_mul :: "'a::len word \<Rightarrow> 'a word \<Rightarrow> 'a word" where
  "saturating_mul a b = (if unat a * unat b < 2 ^ LENGTH('a) then a * b else - 1)"

definition checked_add :: "'a::len word \<Rightarrow> 'a word \<Rightarrow> 'a word option" where
  "checked_add a b = (if unat a + unat b < 2 ^ LENGTH('a) then Some (a + b) else None)"

definition checked_sub :: "'a::len word \<Rightarrow> 'a word \<Rightarrow> 'a word option" where
  "checked_sub a b = (if b \<le> a then Some (a - b) else None)"


section \<open>Slices\<close>

text \<open>
  \<open>get_range bs i j\<close> is \<^verbatim>\<open>bs.get(i..j)\<close>; \<open>splice i xs bs\<close> is
  \<^verbatim>\<open>bs[i..i + xs.len()].copy_from_slice(xs)\<close> where the range is inside \<open>bs\<close>, and
  \<open>put_range\<close> the same with the panic of an index out of range as \<open>None\<close>.
\<close>

definition get_range :: "'a list \<Rightarrow> nat \<Rightarrow> nat \<Rightarrow> 'a list option" where
  "get_range bs i j = (if i \<le> j \<and> j \<le> length bs then Some (take (j - i) (drop i bs)) else None)"

definition get_at :: "'a list \<Rightarrow> nat \<Rightarrow> 'a option" where
  "get_at bs i = (if i < length bs then Some (bs ! i) else None)"

definition splice :: "nat \<Rightarrow> 'a list \<Rightarrow> 'a list \<Rightarrow> 'a list" where
  "splice i xs bs = take i bs @ xs @ drop (i + length xs) bs"

definition put_range :: "nat \<Rightarrow> 'a list \<Rightarrow> 'a list \<Rightarrow> 'a list option" where
  "put_range i xs bs = (if i + length xs \<le> length bs then Some (splice i xs bs) else None)"


section \<open>Lemmas: encodings\<close>

lemma unat_bound: "unat (w :: 'a::len word) < 2 ^ LENGTH('a)"
  by (rule unsigned_less)

lemma unat_inj: "unat a = unat b \<longleftrightarrow> a = (b :: 'a::len word)"
  by (metis unsigned_word_eqI)

lemma unat_of_nat_lt: "n < 2 ^ LENGTH('a) \<Longrightarrow> unat (of_nat n :: 'a::len word) = n"
  by (simp add: unat_of_nat)

lemma length_le_digits [simp, layout]: "length (le_digits n v) = n"
  by (induction n arbitrary: v) auto

lemma le_val_le_digits: "le_val (le_digits n v) = v mod 256 ^ n"
proof (induction n arbitrary: v)
  case 0
  then show ?case by simp
next
  case (Suc n)
  have "unat (of_nat (v mod 256) :: u8) = v mod 256"
    by (simp add: unat_of_nat)
  then show ?case
    by (simp add: Suc.IH mod_mult2_eq)
qed

lemma le_val_bound: "le_val bs < 256 ^ length bs"
proof (induction bs)
  case Nil
  then show ?case by simp
next
  case (Cons b bs)
  have "unat b < 256"
    using unat_bound [of b] by simp
  with Cons.IH show ?case by simp
qed

lemma le_digits_le_val: "le_digits (length bs) (le_val bs) = bs"
proof (induction bs)
  case Nil
  then show ?case by simp
next
  case (Cons b bs)
  have b: "unat b < 256"
    using unat_bound [of b] by simp
  then have "(unat b + 256 * le_val bs) mod 256 = unat b" and
      "(unat b + 256 * le_val bs) div 256 = le_val bs"
    by simp_all
  with Cons.IH show ?case by simp
qed

lemma le_val_inj: "length xs = length ys \<Longrightarrow> le_val xs = le_val ys \<Longrightarrow> xs = ys"
  by (metis le_digits_le_val)

lemma length_ints [simp, layout]:
  "length (u64_le w) = 8" "length (u32_le x) = 4" "length (u64_be w) = 8" "length (u32_be x) = 4"
  "length (u16_be z) = 2"
  by (simp_all add: u64_le_def u32_le_def u64_be_def u32_be_def u16_be_def)

lemma u64_le_roundtrip [simp]: "u64_of_le (u64_le w) = w"
proof -
  have "unat w mod 256 ^ 8 = unat w"
    using unat_bound [of w] by simp
  then show ?thesis
    by (simp add: u64_of_le_def u64_le_def le_val_le_digits)
qed

lemma u32_le_roundtrip [simp]: "u32_of_le (u32_le w) = w"
proof -
  have "unat w mod 256 ^ 4 = unat w"
    using unat_bound [of w] by simp
  then show ?thesis
    by (simp add: u32_of_le_def u32_le_def le_val_le_digits)
qed

lemma u64_be_roundtrip [simp]: "u64_of_be (u64_be w) = w"
proof -
  have "unat w mod 256 ^ 8 = unat w"
    using unat_bound [of w] by simp
  then show ?thesis
    by (simp add: u64_of_be_def u64_be_def le_val_le_digits)
qed

lemma u32_be_roundtrip [simp]: "u32_of_be (u32_be w) = w"
proof -
  have "unat w mod 256 ^ 4 = unat w"
    using unat_bound [of w] by simp
  then show ?thesis
    by (simp add: u32_of_be_def u32_be_def le_val_le_digits)
qed

lemma u16_be_roundtrip [simp]: "u16_of_be (u16_be w) = w"
proof -
  have "unat w mod 256 ^ 2 = unat w"
    using unat_bound [of w] by simp
  then show ?thesis
    by (simp add: u16_of_be_def u16_be_def le_val_le_digits)
qed

lemma u64_le_inj [simp]: "u64_le v = u64_le w \<longleftrightarrow> v = w"
  by (metis u64_le_roundtrip)

lemma u32_le_inj [simp]: "u32_le v = u32_le w \<longleftrightarrow> v = w"
  by (metis u32_le_roundtrip)

lemma u64_be_inj [simp]: "u64_be v = u64_be w \<longleftrightarrow> v = w"
  by (metis u64_be_roundtrip)

lemma u32_be_inj [simp]: "u32_be v = u32_be w \<longleftrightarrow> v = w"
  by (metis u32_be_roundtrip)


section \<open>Lemmas: arithmetic\<close>

lemma unat_saturating_add [arith_unat]:
  "unat (saturating_add a b :: 'a::len word) = min (unat a + unat b) (2 ^ LENGTH('a) - 1)"
  by (auto simp: saturating_add_def unat_word_ariths unsigned_minus_1_eq_mask mask_eq_exp_minus_1)

lemma unat_saturating_sub [arith_unat]: "unat (saturating_sub a b) = unat a - unat b"
  by (auto simp: saturating_sub_def unat_sub word_le_nat_alt)

lemma checked_add_Some [arith_unat]:
  "checked_add a b = Some (c :: 'a::len word)
    \<longleftrightarrow> c = a + b \<and> unat c = unat a + unat b"
proof
  assume "checked_add a b = Some c"
  then show "c = a + b \<and> unat c = unat a + unat b"
    by (auto simp: checked_add_def unat_word_ariths split: if_splits)
next
  assume c: "c = a + b \<and> unat c = unat a + unat b"
  then have "unat a + unat b < 2 ^ LENGTH('a)"
    by (metis unat_bound)
  with c show "checked_add a b = Some c"
    by (simp add: checked_add_def)
qed

lemma checked_add_None [arith_unat]:
  "checked_add a b = (None :: 'a::len word option) \<longleftrightarrow> 2 ^ LENGTH('a) \<le> unat a + unat b"
  by (auto simp: checked_add_def)

lemma unat_plus_one: "w \<noteq> (- 1 :: 'a::len word) \<Longrightarrow> unat (w + 1) = unat w + 1"
proof -
  assume "w \<noteq> - 1"
  then have "w + 1 \<noteq> 0"
    by (metis add.commute eq_neg_iff_add_eq_0)
  then show ?thesis
    by (metis Suc_eq_plus1 add.commute unatSuc)
qed


section \<open>Lemmas: slices and lists\<close>

lemma length_splice [simp, layout]:
  "i + length xs \<le> length bs \<Longrightarrow> length (splice i xs bs) = length bs"
  by (simp add: splice_def)

lemma get_range_splice_same [layout]:
  "i + length xs \<le> length bs \<Longrightarrow> get_range (splice i xs bs) i (i + length xs) = Some xs"
  by (simp add: get_range_def splice_def)

lemma nth_splice_other [layout]:
  assumes "i + length xs \<le> length bs" and "k < length bs" and "k < i \<or> i + length xs \<le> k"
  shows "splice i xs bs ! k = bs ! k"
  using assms by (auto simp: splice_def nth_append min_def)

lemma Suc_le_obtain:
  assumes "Suc n \<le> m"
  obtains d where "m = Suc (d + n)"
  using le_Suc_ex [OF assms] by (auto simp: add.commute)

lemma distinct_map_drop: "distinct (map f xs) \<Longrightarrow> distinct (map f (drop k xs))"
  by (simp add: drop_map [symmetric])

lemma append_eq_lengths:
  "length xs = length ys \<Longrightarrow> xs @ us = ys @ vs \<longleftrightarrow> xs = ys \<and> us = vs"
  by simp

end
