(* ===== verification/Sparse_Merkle.thy ===== *)
theory Sparse_Merkle
  imports Zul_Prelude
begin

text \<open>
  Sparse Merkle trees in general: what the three copies of the walk in the sources (the state
  tree of the store, the withdrawals tree of the node, the proof check of the settlement
  program) have in common. A tree is a map from node keys to hashes in which an absent node
  stands for an empty subtree. Its meaning is a complete binary tree over bit prefixes,
  \<open>ref_hash\<close>, and a map \<^emph>\<open>represents\<close> a leaf assignment when every node reads as the hash of
  the reference tree. The locale \<open>sparse_tree\<close> states what a node key, a path bit and the
  table of empty hashes must satisfy; under it, setting a leaf refines an update of the leaf
  assignment, and a proof is accepted exactly for the leaf it was made for, up to an explicit
  collision of the node hash.
\<close>

unbundle bit_operations_syntax

section \<open>The reference tree and the walks\<close>

fun ref_hash :: "('h \<Rightarrow> 'h \<Rightarrow> 'h) \<Rightarrow> (bool list \<Rightarrow> 'h) \<Rightarrow> nat \<Rightarrow> bool list \<Rightarrow> 'h" where
  "ref_hash node L 0 bs = L bs"
| "ref_hash node L (Suc n) bs =
    node (ref_hash node L n (bs @ [False])) (ref_hash node L n (bs @ [True]))"

definition path_prefix :: "('p \<Rightarrow> nat \<Rightarrow> bool) \<Rightarrow> nat \<Rightarrow> 'p \<Rightarrow> bool list" where
  "path_prefix bitf d p = map (bitf p) [0..<d]"

definition node_at ::
  "(nat \<Rightarrow> 'p \<Rightarrow> 'k) \<Rightarrow> (nat \<Rightarrow> 'h) \<Rightarrow> ('k \<rightharpoonup> 'h) \<Rightarrow> nat \<Rightarrow> 'p \<Rightarrow> 'h" where
  "node_at key empt m d p = (case m (key d p) of Some h \<Rightarrow> h | None \<Rightarrow> empt d)"

definition join :: "('h \<Rightarrow> 'h \<Rightarrow> 'h) \<Rightarrow> bool \<Rightarrow> 'h \<Rightarrow> 'h \<Rightarrow> 'h" where
  "join node b current sibling = (if b then node sibling current else node current sibling)"

definition represents ::
  "nat \<Rightarrow> ('h \<Rightarrow> 'h \<Rightarrow> 'h) \<Rightarrow> (nat \<Rightarrow> 'p \<Rightarrow> 'k) \<Rightarrow> ('p \<Rightarrow> nat \<Rightarrow> bool) \<Rightarrow> (nat \<Rightarrow> 'h) \<Rightarrow> ('p \<Rightarrow> bool)
    \<Rightarrow> ('k \<rightharpoonup> 'h) \<Rightarrow> (bool list \<Rightarrow> 'h) \<Rightarrow> bool" where
  "represents N node key bitf empt valid m L \<longleftrightarrow>
    (\<forall>d\<le>N. \<forall>p. valid p \<longrightarrow>
      node_at key empt m d p = ref_hash node L (N - d) (path_prefix bitf d p))"

fun climb ::
  "('h \<Rightarrow> 'h \<Rightarrow> 'h) \<Rightarrow> (nat \<Rightarrow> 'p \<Rightarrow> 'k) \<Rightarrow> ('p \<Rightarrow> nat \<Rightarrow> bool) \<Rightarrow> ('p \<Rightarrow> nat \<Rightarrow> 'p) \<Rightarrow> (nat \<Rightarrow> 'h)
    \<Rightarrow> ('k \<rightharpoonup> 'h) \<Rightarrow> 'p \<Rightarrow> nat \<Rightarrow> 'h \<Rightarrow> ('k \<rightharpoonup> 'h)" where
  "climb node key bitf flip empt m p 0 current = m"
| "climb node key bitf flip empt m p (Suc d) current =
    (let sibling = node_at key empt m (Suc d) (flip p d);
         current' = join node (bitf p d) current sibling
     in climb node key bitf flip empt (m(key d p \<mapsto> current')) p d current')"

fun path_val ::
  "('h \<Rightarrow> 'h \<Rightarrow> 'h) \<Rightarrow> ('p \<Rightarrow> nat \<Rightarrow> bool) \<Rightarrow> (nat \<Rightarrow> 'h) \<Rightarrow> 'p \<Rightarrow> nat \<Rightarrow> nat \<Rightarrow> 'h \<Rightarrow> 'h" where
  "path_val node bitf s p d 0 current = current"
| "path_val node bitf s p 0 (Suc n) current = current"
| "path_val node bitf s p (Suc d) (Suc n) current =
    path_val node bitf s p d n (join node (bitf p d) current (s (Suc d)))"

text \<open>
  The two hashes joined at depth \<open>e\<close>: by a walk that starts from \<open>leaf\<close> at depth \<open>N\<close> with the
  siblings \<open>s\<close>, and in the reference tree.
\<close>

definition walk_pair ::
  "nat \<Rightarrow> ('h \<Rightarrow> 'h \<Rightarrow> 'h) \<Rightarrow> ('p \<Rightarrow> nat \<Rightarrow> bool) \<Rightarrow> (nat \<Rightarrow> 'h) \<Rightarrow> 'p \<Rightarrow> 'h \<Rightarrow> nat \<Rightarrow> 'h \<times> 'h" where
  "walk_pair N node bitf s p leaf e =
    (let v = path_val node bitf s p N (N - Suc e) leaf
     in if bitf p e then (s (Suc e), v) else (v, s (Suc e)))"

definition tree_pair ::
  "nat \<Rightarrow> ('h \<Rightarrow> 'h \<Rightarrow> 'h) \<Rightarrow> ('p \<Rightarrow> nat \<Rightarrow> bool) \<Rightarrow> (bool list \<Rightarrow> 'h) \<Rightarrow> 'p \<Rightarrow> nat \<Rightarrow> 'h \<times> 'h" where
  "tree_pair N node bitf L p e =
    (ref_hash node L (N - Suc e) (path_prefix bitf e p @ [False]),
     ref_hash node L (N - Suc e) (path_prefix bitf e p @ [True]))"


section \<open>Compact proofs\<close>

text \<open>
  The bitmap of a compact proof: bit \<open>i\<close>, most significant first, is set when the sibling at
  depth \<open>N - i\<close> is in the list of siblings; a clear bit stands for the empty hash.
\<close>

definition bitmap_get :: "bytes \<Rightarrow> nat \<Rightarrow> bool" where
  "bitmap_get bm i \<longleftrightarrow> drop_bit (7 - i mod 8) (bm ! (i div 8)) AND 1 = 1"

definition bitmap_set :: "bytes \<Rightarrow> nat \<Rightarrow> bytes" where
  "bitmap_set bm i = bm[i div 8 := bm ! (i div 8) OR push_bit (7 - i mod 8) 1]"

fun prove_walk ::
  "nat \<Rightarrow> (nat \<Rightarrow> 'h) \<Rightarrow> (nat \<Rightarrow> 'h) \<Rightarrow> nat \<Rightarrow> bytes \<Rightarrow> 'h list \<Rightarrow> bytes \<times> 'h list" where
  "prove_walk N s empt 0 bm sibs = (bm, sibs)"
| "prove_walk N s empt (Suc d) bm sibs =
    (if s (Suc d) \<noteq> empt (Suc d)
     then prove_walk N s empt d (bitmap_set bm (N - Suc d)) (sibs @ [s (Suc d)])
     else prove_walk N s empt d bm sibs)"

fun verify_walk ::
  "nat \<Rightarrow> ('h \<Rightarrow> 'h \<Rightarrow> 'h) \<Rightarrow> ('p \<Rightarrow> nat \<Rightarrow> bool) \<Rightarrow> (nat \<Rightarrow> 'h) \<Rightarrow> bytes \<Rightarrow> 'h list \<Rightarrow> 'p
    \<Rightarrow> nat \<Rightarrow> nat \<Rightarrow> 'h \<Rightarrow> (nat \<times> 'h) option" where
  "verify_walk N node bitf empt bm sibs p 0 cursor current = Some (cursor, current)"
| "verify_walk N node bitf empt bm sibs p (Suc d) cursor current =
    (if bitmap_get bm (N - Suc d) then
       (if cursor < length sibs
        then verify_walk N node bitf empt bm sibs p d (Suc cursor)
               (join node (bitf p d) current (sibs ! cursor))
        else None)
     else verify_walk N node bitf empt bm sibs p d cursor
            (join node (bitf p d) current (empt (Suc d))))"

text \<open>The sibling a compact proof stands for at depth \<open>d\<close>.\<close>

definition proof_sibling :: "nat \<Rightarrow> (nat \<Rightarrow> 'h) \<Rightarrow> bytes \<Rightarrow> 'h list \<Rightarrow> nat \<Rightarrow> 'h" where
  "proof_sibling N empt bm sibs d =
    (if bitmap_get bm (N - d)
     then sibs ! length (List.filter (bitmap_get bm) [0..<N - d]) else empt d)"


section \<open>Lemmas on the reference tree and the walks\<close>

lemma length_path_prefix [simp]: "length (path_prefix bitf d p) = d"
  by (simp add: path_prefix_def)

lemma path_prefix_Suc: "path_prefix bitf (Suc d) p = path_prefix bitf d p @ [bitf p d]"
  by (simp add: path_prefix_def)

lemma path_prefix_0 [simp]: "path_prefix bitf 0 p = []"
  by (simp add: path_prefix_def)

lemma path_prefix_eq_iff:
  "path_prefix bitf d p = path_prefix bitf d q \<longleftrightarrow> (\<forall>i<d. bitf p i = bitf q i)"
  by (auto simp: path_prefix_def list_eq_iff_nth_eq)

lemma take_path_prefix: "d \<le> n \<Longrightarrow> take d (path_prefix bitf n p) = path_prefix bitf d p"
  by (simp add: path_prefix_def take_map)

lemma ref_hash_cong:
  assumes "\<And>x. length x = length bs + n \<Longrightarrow> take (length bs) x = bs \<Longrightarrow> L x = L' x"
  shows "ref_hash node L n bs = ref_hash node L' n bs"
  using assms
proof (induction n arbitrary: bs)
  case 0
  then show ?case by simp
next
  case (Suc n)
  have "ref_hash node L n (bs @ [b]) = ref_hash node L' n (bs @ [b])" for b
  proof (rule Suc.IH)
    fix x
    assume x: "length x = length (bs @ [b]) + n" "take (length (bs @ [b])) x = bs @ [b]"
    then have "take (length bs) x = bs"
      by (metis append_eq_conv_conj append_take_drop_id append.assoc length_append)
    with x show "L x = L' x"
      by (intro Suc.prems) simp_all
  qed
  then show ?case by simp
qed

lemma ref_hash_update_other:
  assumes "length bs \<le> length x" and "take (length bs) x \<noteq> bs"
  shows "ref_hash node (L(x := v)) n bs = ref_hash node L n bs"
  by (rule ref_hash_cong) (use assms in auto)

lemma ref_hash_join:
  "ref_hash node L (Suc n) (path_prefix bitf d p) =
    join node (bitf p d) (ref_hash node L n (path_prefix bitf (Suc d) p))
      (ref_hash node L n (path_prefix bitf d p @ [\<not> bitf p d]))"
  by (cases "bitf p d") (simp_all add: join_def path_prefix_Suc)

lemma node_at_update:
  "node_at key empt (m(k \<mapsto> v)) d p = (if key d p = k then v else node_at key empt m d p)"
  by (simp add: node_at_def)

lemma path_val_step:
  "n < d \<Longrightarrow> path_val node bitf s p d (Suc n) current =
    join node (bitf p (d - Suc n)) (path_val node bitf s p d n current) (s (d - n))"
proof (induction n arbitrary: d current)
  case 0
  then show ?case by (cases d) simp_all
next
  case (Suc n)
  then obtain d' where d: "d = Suc d'" and "n < d'"
    by (cases d) auto
  then show ?case
    using Suc.IH [of d'] by simp
qed

lemma walk_pair_node:
  assumes "e < N"
  shows "(case walk_pair N node bitf s p leaf e of (l, r) \<Rightarrow> node l r)
    = path_val node bitf s p N (N - e) leaf"
proof -
  have "N - e = Suc (N - Suc e)" and "N - (N - Suc e) = Suc e" and "N - Suc (N - Suc e) = e"
    using assms by simp_all
  then show ?thesis
    using path_val_step [of "N - Suc e" N node bitf s p leaf] assms
    by (simp add: walk_pair_def join_def Let_def)
qed

lemma tree_pair_node:
  "e < N \<Longrightarrow> (case tree_pair N node bitf L p e of (l, r) \<Rightarrow> node l r)
    = ref_hash node L (N - e) (path_prefix bitf e p)"
  by (simp add: tree_pair_def Suc_diff_Suc [symmetric])

lemma pair_eq_values:
  assumes "walk_pair N node bitf s p leaf e = tree_pair N node bitf L p e"
  shows "path_val node bitf s p N (N - Suc e) leaf
    = ref_hash node L (N - Suc e) (path_prefix bitf (Suc e) p)"
  using assms by (auto simp: walk_pair_def tree_pair_def path_prefix_Suc Let_def split: if_splits)

text \<open>
  A walk that arrives at the root of the reference tree started at its leaf, or there is a
  depth at which it joined another pair of hashes than the tree and got the same node hash.
\<close>

lemma path_val_sound:
  assumes root: "path_val node bitf s p N N leaf = ref_hash node L N []"
    and no_coll: "\<And>e. e < N \<Longrightarrow>
      (case walk_pair N node bitf s p leaf e of (l, r) \<Rightarrow> node l r) =
      (case tree_pair N node bitf L p e of (l, r) \<Rightarrow> node l r) \<Longrightarrow>
      walk_pair N node bitf s p leaf e = tree_pair N node bitf L p e"
  shows "leaf = L (path_prefix bitf N p)"
proof -
  have "e \<le> N \<Longrightarrow> path_val node bitf s p N (N - e) leaf
    = ref_hash node L (N - e) (path_prefix bitf e p)" for e
  proof (induction e)
    case 0
    then show ?case using root by simp
  next
    case (Suc e)
    then have "walk_pair N node bitf s p leaf e = tree_pair N node bitf L p e"
      by (intro no_coll) (simp_all add: walk_pair_node tree_pair_node)
    then show ?case by (rule pair_eq_values)
  qed
  from this [of N] show ?thesis by simp
qed

text \<open>Two walks that arrive at the same root started at the same leaf, up to a collision.\<close>

lemma path_val_agree:
  assumes root: "path_val node bitf s p N N leaf = path_val node bitf s' p N N leaf'"
    and no_coll: "\<And>e. e < N \<Longrightarrow>
      case_prod node (walk_pair N node bitf s p leaf e)
        = case_prod node (walk_pair N node bitf s' p leaf' e) \<Longrightarrow>
      walk_pair N node bitf s p leaf e = walk_pair N node bitf s' p leaf' e"
  shows "leaf = leaf'"
proof -
  have "e \<le> N \<Longrightarrow> path_val node bitf s p N (N - e) leaf = path_val node bitf s' p N (N - e) leaf'" for e
  proof (induction e)
    case 0
    then show ?case using root by simp
  next
    case (Suc e)
    then have "walk_pair N node bitf s p leaf e = walk_pair N node bitf s' p leaf' e"
      by (intro no_coll) (simp_all add: walk_pair_node)
    then show ?case by (auto simp: walk_pair_def Let_def split: if_splits)
  qed
  from this [of N] show ?thesis by simp
qed


section \<open>Lemmas on compact proofs\<close>

lemma and_one_bit: "(w :: u8) AND 1 = 1 \<longleftrightarrow> bit w 0"
  by (simp add: and_one_eq odd_iff_mod_2_eq_one bit_0)

lemma bitmap_get_bit: "bitmap_get bm i \<longleftrightarrow> bit (bm ! (i div 8)) (7 - i mod 8)"
  by (simp add: bitmap_get_def and_one_bit bit_drop_bit_eq)

lemma same_byte_bit:
  "i div 8 = j div 8 \<Longrightarrow> 7 - i mod 8 = 7 - j mod 8 \<Longrightarrow> i = (j::nat)"
proof -
  assume a: "i div 8 = j div 8" and b: "7 - i mod 8 = 7 - j mod 8"
  have "i mod 8 < 8" "j mod 8 < 8" by simp_all
  with b have "i mod 8 = j mod 8" by linarith
  with a show "i = j" by (metis mult_div_mod_eq)
qed

lemma bitmap_get_set:
  assumes "i div 8 < length bm"
  shows "bitmap_get (bitmap_set bm i) j \<longleftrightarrow> j = i \<or> bitmap_get bm j"
proof (cases "j div 8 = i div 8")
  case True
  then have "bitmap_get (bitmap_set bm i) j \<longleftrightarrow>
      bit (bm ! (i div 8)) (7 - j mod 8) \<or> bit (push_bit (7 - i mod 8) 1 :: u8) (7 - j mod 8)"
    using assms by (simp add: bitmap_get_bit bitmap_set_def bit_or_iff)
  also have "bit (push_bit (7 - i mod 8) 1 :: u8) (7 - j mod 8) \<longleftrightarrow> 7 - i mod 8 = 7 - j mod 8"
    by (auto simp: bit_exp_iff)
  finally show ?thesis
    using True same_byte_bit [of i j] by (auto simp: bitmap_get_bit)
next
  case False
  then show ?thesis
    by (auto simp: bitmap_get_bit bitmap_set_def)
qed

lemma length_bitmap_set [simp]: "length (bitmap_set bm i) = length bm"
  by (simp add: bitmap_set_def)

lemma bitmap_get_zero [simp]: "i < 8 * n \<Longrightarrow> \<not> bitmap_get (replicate n 0) i"
  by (simp add: bitmap_get_bit less_mult_imp_div_less mult.commute)

text \<open>
  What \<open>prove_walk\<close> adds from depth \<open>d\<close> on: bits from \<open>N - d\<close> on, and siblings at the end of the
  list.
\<close>

lemma prove_walk_bits_before:
  "d \<le> N \<Longrightarrow> N \<le> 8 * length bm \<Longrightarrow> prove_walk N s empt d bm sibs = (bm', sibs') \<Longrightarrow>
    i < N - d \<Longrightarrow> bitmap_get bm' i = bitmap_get bm i"
  by (induction N s empt d bm sibs rule: prove_walk.induct)
    (auto simp: bitmap_get_set split: if_splits)

lemma prove_walk_siblings_before:
  "prove_walk N s empt d bm sibs = (bm', sibs') \<Longrightarrow> \<exists>zs. sibs' = sibs @ zs"
  by (induction N s empt d bm sibs rule: prove_walk.induct) (auto split: if_splits)

lemma prove_walk_length_bitmap:
  "prove_walk N s empt d bm sibs = (bm', sibs') \<Longrightarrow> length bm' = length bm"
  by (induction N s empt d bm sibs rule: prove_walk.induct) (auto split: if_splits)

lemma prove_walk_verify_walk:
  assumes "d \<le> N" and "N \<le> 8 * length bm" and "\<And>i. N - d \<le> i \<Longrightarrow> i < N \<Longrightarrow> \<not> bitmap_get bm i"
    and "prove_walk N s empt d bm sibs = (bm', sibs')"
  shows "verify_walk N node bitf empt bm' sibs' p d (length sibs) current
    = Some (length sibs', path_val node bitf s p d d current)"
  using assms
proof (induction d arbitrary: bm sibs current)
  case 0
  then show ?case by simp
next
  case (Suc d)
  let ?i = "N - Suc d"
  have i: "?i div 8 < length bm" and i_lt: "?i < N - d"
    using Suc.prems by auto
  show ?case
  proof (cases "s (Suc d) = empt (Suc d)")
    case True
    with Suc.prems have w: "prove_walk N s empt d bm sibs = (bm', sibs')" by simp
    have "bitmap_get bm' ?i = bitmap_get bm ?i"
      by (rule prove_walk_bits_before [OF _ _ w i_lt]) (use Suc.prems in auto)
    moreover have "\<not> bitmap_get bm ?i" using Suc.prems by auto
    moreover have "verify_walk N node bitf empt bm' sibs' p d (length sibs)
        (join node (bitf p d) current (empt (Suc d)))
      = Some (length sibs', path_val node bitf s p d d (join node (bitf p d) current (empt (Suc d))))"
      by (rule Suc.IH [OF _ _ _ w]) (use Suc.prems in auto)
    ultimately show ?thesis by (simp add: True)
  next
    case False
    let ?bm = "bitmap_set bm ?i" and ?sibs = "sibs @ [s (Suc d)]"
    from False Suc.prems have w: "prove_walk N s empt d ?bm ?sibs = (bm', sibs')" by simp
    have "bitmap_get bm' ?i = bitmap_get ?bm ?i"
      by (rule prove_walk_bits_before [OF _ _ w i_lt]) (use Suc.prems in auto)
    then have set_i: "bitmap_get bm' ?i" by (simp add: bitmap_get_set i)
    obtain zs where zs: "sibs' = ?sibs @ zs"
      using prove_walk_siblings_before [OF w] by auto
    have "verify_walk N node bitf empt bm' sibs' p d (length ?sibs)
        (join node (bitf p d) current (s (Suc d)))
      = Some (length sibs', path_val node bitf s p d d (join node (bitf p d) current (s (Suc d))))"
      by (rule Suc.IH [OF _ _ _ w]) (use Suc.prems i in \<open>auto simp: bitmap_get_set\<close>)
    with set_i zs show ?thesis by (simp add: nth_append)
  qed
qed

lemma filter_upt_Suc:
  "length (List.filter P [0..<Suc i]) = length (List.filter P [0..<i]) + (if P i then 1 else 0)"
  by simp

lemma verify_walk_path_val:
  assumes "d \<le> N" and "verify_walk N node bitf empt bm sibs p d cursor current = Some (c, r)"
    and "cursor = length (List.filter (bitmap_get bm) [0..<N - d])"
  shows "r = path_val node bitf (proof_sibling N empt bm sibs) p d d current"
  using assms
proof (induction d arbitrary: cursor current)
  case 0
  then show ?case by simp
next
  case (Suc d)
  have next_i: "N - d = Suc (N - Suc d)"
    using Suc.prems by simp
  have count: "length (List.filter (bitmap_get bm) [0..<N - d])
      = cursor + (if bitmap_get bm (N - Suc d) then 1 else 0)"
    unfolding next_i filter_upt_Suc using Suc.prems by simp
  show ?case
  proof (cases "bitmap_get bm (N - Suc d)")
    case True
    with Suc.prems have "cursor < length sibs" and
      w: "verify_walk N node bitf empt bm sibs p d (Suc cursor)
            (join node (bitf p d) current (sibs ! cursor)) = Some (c, r)"
      by (auto split: if_splits)
    moreover have "proof_sibling N empt bm sibs (Suc d) = sibs ! cursor"
      using True Suc.prems by (simp add: proof_sibling_def)
    ultimately show ?thesis
      using Suc.IH [OF _ w] Suc.prems count True by simp
  next
    case False
    with Suc.prems have
      w: "verify_walk N node bitf empt bm sibs p d cursor
            (join node (bitf p d) current (empt (Suc d))) = Some (c, r)"
      by auto
    moreover have "proof_sibling N empt bm sibs (Suc d) = empt (Suc d)"
      using False by (simp add: proof_sibling_def)
    ultimately show ?thesis
      using Suc.IH [OF _ w] Suc.prems count False by simp
  qed
qed


section \<open>The interface of a sparse tree\<close>

locale sparse_tree =
  fixes N :: nat
    and node :: "'h \<Rightarrow> 'h \<Rightarrow> 'h"
    and key :: "nat \<Rightarrow> 'p \<Rightarrow> 'k"
    and bitf :: "'p \<Rightarrow> nat \<Rightarrow> bool"
    and flip :: "'p \<Rightarrow> nat \<Rightarrow> 'p"
    and empt :: "nat \<Rightarrow> 'h"
    and valid :: "'p \<Rightarrow> bool"
  assumes key_eq: "\<lbrakk> valid p; valid q; d \<le> N; e \<le> N \<rbrakk> \<Longrightarrow>
      key d p = key e q \<longleftrightarrow> d = e \<and> path_prefix bitf d p = path_prefix bitf d q"
    and bit_flip: "\<lbrakk> valid p; i < N; j < N \<rbrakk> \<Longrightarrow> bitf (flip p i) j = (bitf p j \<noteq> (i = j))"
    and valid_flip: "\<lbrakk> valid p; i < N \<rbrakk> \<Longrightarrow> valid (flip p i)"
    and empt_node: "d < N \<Longrightarrow> empt d = node (empt (Suc d)) (empt (Suc d))"
begin

abbreviation rep :: "('k \<rightharpoonup> 'h) \<Rightarrow> (bool list \<Rightarrow> 'h) \<Rightarrow> bool" where
  "rep \<equiv> represents N node key bitf empt valid"

lemma repD:
  "rep m L \<Longrightarrow> d \<le> N \<Longrightarrow> valid p \<Longrightarrow>
    node_at key empt m d p = ref_hash node L (N - d) (path_prefix bitf d p)"
  by (simp add: represents_def)

lemma ref_empty: "n \<le> N \<Longrightarrow> ref_hash node (\<lambda>_. empt N) n bs = empt (N - n)"
proof (induction n arbitrary: bs)
  case 0
  then show ?case by simp
next
  case (Suc n)
  obtain d where d: "N = Suc (d + n)"
    using Suc.prems by (rule Suc_le_obtain)
  have "ref_hash node (\<lambda>_. empt N) n bs = empt (Suc d)" for bs
    using Suc.IH [of bs] by (simp add: d)
  then show ?case
    using empt_node [of d] by (simp add: d)
qed

lemma rep_empty: "rep Map.empty (\<lambda>_. empt N)"
  by (simp add: represents_def node_at_def ref_empty)

lemma prefix_flip:
  "valid p \<Longrightarrow> d < N \<Longrightarrow> path_prefix bitf (Suc d) (flip p d) = path_prefix bitf d p @ [\<not> bitf p d]"
  by (auto simp: path_prefix_def bit_flip)

lemma sibling_value:
  assumes "rep m L" and "valid p" and "d < N"
  shows "node_at key empt m (Suc d) (flip p d)
    = ref_hash node L (N - Suc d) (path_prefix bitf d p @ [\<not> bitf p d])"
  using assms repD [of m L "Suc d" "flip p d"] by (simp add: prefix_flip valid_flip)

text \<open>
  While the walk is at depth \<open>d\<close>, the nodes from \<open>d\<close> on already read as in the tree with the
  new leaf and the nodes above as in the old tree.
\<close>

lemma climb_rep_aux:
  assumes "valid p" and "d \<le> N" and "L' = L(path_prefix bitf N p := v)"
    and "\<And>e q. e \<le> N \<Longrightarrow> valid q \<Longrightarrow>
      node_at key empt m e q
        = ref_hash node (if d \<le> e then L' else L) (N - e) (path_prefix bitf e q)"
    and "current = ref_hash node L' (N - d) (path_prefix bitf d p)"
  shows "rep (climb node key bitf flip empt m p d current) L'"
  using assms
proof (induction d arbitrary: m current)
  case 0
  then show ?case by (simp add: represents_def)
next
  case (Suc d)
  have sib: "node_at key empt m (Suc d) (flip p d)
      = ref_hash node L' (N - Suc d) (path_prefix bitf d p @ [\<not> bitf p d])"
    using Suc.prems by (simp add: prefix_flip valid_flip)
  have d: "N - d = Suc (N - Suc d)"
    using Suc.prems by simp
  let ?cur = "join node (bitf p d) current (node_at key empt m (Suc d) (flip p d))"
  have cur: "?cur = ref_hash node L' (N - d) (path_prefix bitf d p)"
    unfolding d ref_hash_join sib using Suc.prems by simp
  have "rep (climb node key bitf flip empt (m(key d p \<mapsto> ?cur)) p d ?cur) L'"
  proof (rule Suc.IH [OF _ _ _ _ cur])
    fix e q
    assume e: "e \<le> N" and q: "valid q"
    have keq: "key e q = key d p \<longleftrightarrow> e = d \<and> path_prefix bitf d q = path_prefix bitf d p"
      using key_eq [of q p e d] e q Suc.prems by auto
    have other: "ref_hash node L' (N - d) (path_prefix bitf d q)
        = ref_hash node L (N - d) (path_prefix bitf d q)"
      if "path_prefix bitf d q \<noteq> path_prefix bitf d p"
      unfolding Suc.prems(3)
      by (rule ref_hash_update_other) (use that Suc.prems(2) in \<open>auto simp: take_path_prefix\<close>)
    show "node_at key empt (m(key d p \<mapsto> ?cur)) e q
        = ref_hash node (if d \<le> e then L' else L) (N - e) (path_prefix bitf e q)"
    proof (cases "key e q = key d p")
      case True
      then show ?thesis using cur keq by (simp add: node_at_update)
    next
      case False
      with e q Suc.prems(4) have "node_at key empt (m(key d p \<mapsto> ?cur)) e q
          = ref_hash node (if Suc d \<le> e then L' else L) (N - e) (path_prefix bitf e q)"
        by (simp add: node_at_update)
      with False keq other show ?thesis
        by (cases "e = d") (auto simp: not_less_eq_eq)
    qed
  qed (use Suc.prems in simp_all)
  then show ?case by (simp add: Let_def)
qed

theorem climb_rep:
  assumes "rep m L" and "valid p"
  shows "rep (climb node key bitf flip empt (m(key N p \<mapsto> v)) p N v)
    (L(path_prefix bitf N p := v))"
proof (rule climb_rep_aux [where L = L and v = v])
  fix e q
  assume e: "e \<le> N" and q: "valid q"
  show "node_at key empt (m(key N p \<mapsto> v)) e q
      = ref_hash node (if N \<le> e then L(path_prefix bitf N p := v) else L) (N - e)
          (path_prefix bitf e q)"
    using e q assms key_eq [of q p e N] repD [OF assms(1) e q]
    by (auto simp: node_at_update)
qed (use assms in simp_all)

theorem rep_root: "rep m L \<Longrightarrow> valid p \<Longrightarrow> node_at key empt m 0 p = ref_hash node L N []"
  using repD [of m L 0 p] by simp

text \<open>
  Only the values the nodes read as matter, so a store that drops the nodes holding the empty
  hash of their depth still represents the same leaves.
\<close>

lemma rep_cong:
  assumes "\<And>d p. d \<le> N \<Longrightarrow> valid p \<Longrightarrow> node_at key empt m d p = node_at key empt m' d p"
  shows "rep m L \<longleftrightarrow> rep m' L"
  using assms by (simp add: represents_def)

lemma path_val_tree:
  assumes "rep m L" and "valid p" and "n \<le> N"
  shows "path_val node bitf (\<lambda>d. node_at key empt m d (flip p (d - 1))) p N n
      (L (path_prefix bitf N p))
    = ref_hash node L n (path_prefix bitf (N - n) p)"
    (is "path_val _ _ ?s _ _ _ ?leaf = _")
  using assms(3)
proof (induction n)
  case 0
  then show ?case by simp
next
  case (Suc n)
  obtain d where d: "N = Suc (d + n)"
    using Suc.prems by (rule Suc_le_obtain)
  have "path_val node bitf ?s p N (Suc n) ?leaf
      = join node (bitf p d) (path_val node bitf ?s p N n ?leaf)
          (node_at key empt m (Suc d) (flip p d))"
    using path_val_step [of n N node bitf ?s p ?leaf] by (simp add: d)
  also have "node_at key empt m (Suc d) (flip p d)
      = ref_hash node L n (path_prefix bitf d p @ [\<not> bitf p d])"
    using sibling_value [OF assms(1,2), of d] by (simp add: d)
  also have "path_val node bitf ?s p N n ?leaf = ref_hash node L n (path_prefix bitf (Suc d) p)"
    using Suc.IH by (simp add: d)
  also have "join node (bitf p d) (ref_hash node L n (path_prefix bitf (Suc d) p))
      (ref_hash node L n (path_prefix bitf d p @ [\<not> bitf p d]))
    = ref_hash node L (Suc n) (path_prefix bitf d p)"
    by (rule ref_hash_join [symmetric])
  finally show ?case by (simp add: d)
qed

theorem prove_complete:
  assumes "rep m L" and "valid p" and "N \<le> 256"
    and "prove_walk N (\<lambda>d. node_at key empt m d (flip p (d - 1))) empt N (replicate 32 0) []
      = (bm, sibs)"
  shows "verify_walk N node bitf empt bm sibs p N 0 (L (path_prefix bitf N p))
    = Some (length sibs, ref_hash node L N [])"
proof -
  let ?s = "\<lambda>d. node_at key empt m d (flip p (d - 1))"
  have "verify_walk N node bitf empt bm sibs p N (length ([] :: 'h list)) (L (path_prefix bitf N p))
      = Some (length sibs, path_val node bitf ?s p N N (L (path_prefix bitf N p)))"
    by (rule prove_walk_verify_walk [OF _ _ _ assms(4)]) (use assms(3) in auto)
  then show ?thesis
    using path_val_tree [OF assms(1,2), of N] by simp
qed

theorem verify_sound:
  assumes "verify_walk N node bitf empt bm sibs p N 0 leaf = Some (c, ref_hash node L N [])"
    and "\<And>e. e < N \<Longrightarrow>
      (case walk_pair N node bitf (proof_sibling N empt bm sibs) p leaf e of (l, r) \<Rightarrow> node l r) =
      (case tree_pair N node bitf L p e of (l, r) \<Rightarrow> node l r) \<Longrightarrow>
      walk_pair N node bitf (proof_sibling N empt bm sibs) p leaf e = tree_pair N node bitf L p e"
  shows "leaf = L (path_prefix bitf N p)"
proof (rule path_val_sound [OF _ assms(2)])
  show "path_val node bitf (proof_sibling N empt bm sibs) p N N leaf = ref_hash node L N []"
    using verify_walk_path_val [OF _ assms(1)] by simp
qed

end

end
