(* ===== verification/Hashing.thy ===== *)
theory Hashing
  imports Zul_Prelude
begin

text \<open>
  Hashing helpers and the per-block Merkle tree of the \<^verbatim>\<open>zul-primitives\<close> crate
  (\<^verbatim>\<open>hash.rs\<close>, \<^verbatim>\<open>merkle.rs\<close>). The blake3 function itself is a parameter \<open>b3\<close>, from the bytes
  fed to the hasher to the digest; the theorems rely on its digests having 32 bytes
  (\<open>digest32\<close>) and, where binding is claimed, on its being injective on the finitely many
  inputs that the two computations at hand feed to it.
\<close>

type_synonym hasher = "bytes \<Rightarrow> h256"

definition digest32 :: "hasher \<Rightarrow> bool" where
  "digest32 b3 \<longleftrightarrow> (\<forall>x. length (b3 x) = 32)"

definition ascii :: "string \<Rightarrow> bytes" where
  "ascii s = map of_char s"

text \<open>A function with 32-byte results, at which the witnesses evaluate the model.\<close>

definition pad_hash :: hasher where
  "pad_hash x = take 32 (x @ replicate 32 0)"

section \<open>hash.rs\<close>

definition ZERO_HASH :: h256 where
  "ZERO_HASH = replicate 32 0"

definition blake3_32 :: "hasher \<Rightarrow> bytes \<Rightarrow> bytes \<Rightarrow> h256" where
  "blake3_32 b3 domain data = b3 (domain @ data)"

definition blake3_concat :: "hasher \<Rightarrow> bytes \<Rightarrow> bytes list \<Rightarrow> h256" where
  "blake3_concat b3 domain segments = b3 (domain @ concat segments)"


section \<open>merkle.rs\<close>

definition MERKLE_LEAF_DOMAIN :: bytes where
  "MERKLE_LEAF_DOMAIN = ascii ''PL2:merkle:leaf''"

definition MERKLE_NODE_DOMAIN :: bytes where
  "MERKLE_NODE_DOMAIN = ascii ''PL2:merkle:node''"

definition MERKLE_EMPTY_DOMAIN :: bytes where
  "MERKLE_EMPTY_DOMAIN = ascii ''PL2:merkle:empty''"

definition merkle_leaf_hash :: "hasher \<Rightarrow> bytes \<Rightarrow> h256" where
  "merkle_leaf_hash b3 data = blake3_32 b3 MERKLE_LEAF_DOMAIN data"

definition merkle_empty_root :: "hasher \<Rightarrow> h256" where
  "merkle_empty_root b3 = blake3_32 b3 MERKLE_EMPTY_DOMAIN []"

text \<open>One pass of the loop over \<^verbatim>\<open>level.chunks(2)\<close>.\<close>

fun next_level :: "hasher \<Rightarrow> h256 list \<Rightarrow> h256 list" where
  "next_level b3 (a # b # rest) = blake3_concat b3 MERKLE_NODE_DOMAIN [a, b] # next_level b3 rest"
| "next_level b3 [a] = [a]"
| "next_level b3 [] = []"

lemma length_next_level: "length (next_level b3 xs) = (length xs + 1) div 2"
  by (induction b3 xs rule: next_level.induct) auto

function reduce_levels :: "hasher \<Rightarrow> h256 list \<Rightarrow> h256" where
  "reduce_levels b3 level =
    (if 1 < length level then reduce_levels b3 (next_level b3 level) else level ! 0)"
  by auto
termination
  by (relation "measure (\<lambda>(b3, level). length level)") (auto simp: length_next_level)

declare reduce_levels.simps [simp del]

definition root_from_leaves :: "hasher \<Rightarrow> h256 list \<Rightarrow> h256" where
  "root_from_leaves b3 leaves =
    (if leaves = [] then merkle_empty_root b3 else reduce_levels b3 leaves)"

definition root_from_data :: "hasher \<Rightarrow> bytes list \<Rightarrow> h256" where
  "root_from_data b3 items = root_from_leaves b3 (map (merkle_leaf_hash b3) items)"


section \<open>The inputs a root computation hashes\<close>

fun pair_inputs :: "h256 list \<Rightarrow> bytes list" where
  "pair_inputs (a # b # rest) = (MERKLE_NODE_DOMAIN @ a @ b) # pair_inputs rest"
| "pair_inputs [a] = []"
| "pair_inputs [] = []"

function level_inputs :: "hasher \<Rightarrow> h256 list \<Rightarrow> bytes list" where
  "level_inputs b3 level =
    (if 1 < length level then pair_inputs level @ level_inputs b3 (next_level b3 level) else [])"
  by auto
termination
  by (relation "measure (\<lambda>(b3, level). length level)") (auto simp: length_next_level)

declare level_inputs.simps [simp del]

definition data_inputs :: "hasher \<Rightarrow> bytes list \<Rightarrow> bytes list" where
  "data_inputs b3 items =
    map (\<lambda>d. MERKLE_LEAF_DOMAIN @ d) items @ level_inputs b3 (map (merkle_leaf_hash b3) items)"


section \<open>Lemmas\<close>

lemma digest32D [simp]: "digest32 b3 \<Longrightarrow> length (b3 x) = 32"
  by (simp add: digest32_def)

lemma digest32_pad_hash [simp]: "digest32 pad_hash"
  by (auto simp: digest32_def pad_hash_def min_def)

lemma length_blake3 [simp]:
  assumes "digest32 b3"
  shows "length (blake3_32 b3 d x) = 32" and "length (blake3_concat b3 d xs) = 32"
  using assms by (simp_all add: blake3_32_def blake3_concat_def)

lemma next_level_lengths:
  "digest32 b3 \<Longrightarrow> \<forall>x\<in>set xs. length x = 32 \<Longrightarrow> \<forall>x\<in>set (next_level b3 xs). length x = 32"
  by (induction b3 xs rule: next_level.induct) auto

text \<open>One level determines the level below it.\<close>

lemma next_level_binding:
  assumes "length xs = length ys"
    and "\<forall>x\<in>set xs. length x = 32" and "\<forall>y\<in>set ys. length y = 32"
    and "inj_on b3 (set (pair_inputs xs) \<union> set (pair_inputs ys))"
    and "next_level b3 xs = next_level b3 ys"
  shows "xs = ys"
  using assms
proof (induction xs arbitrary: ys rule: pair_inputs.induct)
  case (1 a b rest)
  then obtain c d rest' where ys: "ys = c # d # rest'"
    by (metis (no_types) Suc_length_conv length_Cons)
  let ?n = "\<lambda>u v. MERKLE_NODE_DOMAIN @ u @ v"
  have "b3 (?n a b) = b3 (?n c d)"
    using "1.prems" by (simp add: ys blake3_concat_def)
  then have "?n a b = ?n c d"
    by (rule inj_onD [OF "1.prems"(4)]) (simp_all add: ys)
  with "1.prems"(2,3) have "a = c" "b = d"
    by (simp_all add: ys)
  moreover have "rest = rest'"
  proof (rule "1.IH")
    show "inj_on b3 (set (pair_inputs rest) \<union> set (pair_inputs rest'))"
      by (rule inj_on_subset [OF "1.prems"(4)]) (auto simp: ys)
  qed (use "1.prems"(1-3,5) in \<open>simp_all add: ys\<close>)
  ultimately show ?case by (simp add: ys)
next
  case (2 a)
  then show ?case by (cases ys) auto
next
  case 3
  then show ?case by simp
qed

lemma reduce_levels_binding:
  assumes "digest32 b3" and "length xs = length ys"
    and "\<forall>x\<in>set xs. length x = 32" and "\<forall>y\<in>set ys. length y = 32"
    and "inj_on b3 (set (level_inputs b3 xs) \<union> set (level_inputs b3 ys))"
    and "reduce_levels b3 xs = reduce_levels b3 ys"
  shows "xs = ys"
  using assms
proof (induction b3 xs arbitrary: ys rule: reduce_levels.induct)
  case (1 b3 xs)
  show ?case
  proof (cases "1 < length xs")
    case True
    then have "1 < length ys" using "1.prems" by simp
    note unf = level_inputs.simps [of b3 xs] level_inputs.simps [of b3 ys]
      reduce_levels.simps [of b3 xs] reduce_levels.simps [of b3 ys]
    have inj: "inj_on b3 ((set (pair_inputs xs) \<union> set (pair_inputs ys)) \<union>
        (set (level_inputs b3 (next_level b3 xs)) \<union> set (level_inputs b3 (next_level b3 ys))))"
      using "1.prems"(5) True \<open>1 < length ys\<close> by (simp add: unf Un_ac)
    have "next_level b3 xs = next_level b3 ys"
    proof (rule "1.IH" [OF True])
      show "reduce_levels b3 (next_level b3 xs) = reduce_levels b3 (next_level b3 ys)"
        using "1.prems"(6) True \<open>1 < length ys\<close> by (simp add: unf)
    qed (use "1.prems"(1-4) in \<open>simp_all add: length_next_level next_level_lengths
        inj_on_subset [OF inj Un_upper2]\<close>)
    then show ?thesis
      by (rule next_level_binding [OF "1.prems"(2-4) inj_on_subset [OF inj Un_upper1]])
  next
    case False
    with "1.prems" show ?thesis
      by (cases xs; cases ys) (auto simp: reduce_levels.simps)
  qed
qed

lemma root_from_data_binding:
  assumes "digest32 b3" and len: "length xs = length ys"
    and inj: "inj_on b3 (set (data_inputs b3 xs) \<union> set (data_inputs b3 ys))"
    and "root_from_data b3 xs = root_from_data b3 ys"
  shows "xs = ys"
proof (cases "xs = []")
  case True
  then show ?thesis using len by simp
next
  case False
  then have "ys \<noteq> []" using len by auto
  let ?l = "map (merkle_leaf_hash b3)"
  have lens: "\<forall>h\<in>set (?l zs). length h = 32" for zs
    using assms(1) by (simp add: merkle_leaf_hash_def)
  have root: "reduce_levels b3 (?l xs) = reduce_levels b3 (?l ys)"
    using assms(4) False \<open>ys \<noteq> []\<close> by (simp add: root_from_data_def root_from_leaves_def)
  have "inj_on b3 (set (level_inputs b3 (?l xs)) \<union> set (level_inputs b3 (?l ys)))"
    by (rule inj_on_subset [OF inj]) (auto simp: data_inputs_def)
  from reduce_levels_binding [OF assms(1) _ lens lens this root] have "?l xs = ?l ys"
    using len by simp
  moreover have "inj_on (merkle_leaf_hash b3) (set xs \<union> set ys)"
  proof (rule inj_onI)
    fix x y
    assume "x \<in> set xs \<union> set ys" and "y \<in> set xs \<union> set ys"
      and "merkle_leaf_hash b3 x = merkle_leaf_hash b3 y"
    then have "MERKLE_LEAF_DOMAIN @ x = MERKLE_LEAF_DOMAIN @ y"
      by - (rule inj_onD [OF inj], auto simp: data_inputs_def merkle_leaf_hash_def blake3_32_def)
    then show "x = y" by simp
  qed
  ultimately show ?thesis by (rule map_inj_on)
qed

end
