(* ===== verification/State_Smt.thy ===== *)
theory State_Smt
  imports Sparse_Merkle Hashing
begin

text \<open>
  The state tree of the store, \<^verbatim>\<open>chain/zul-store/src/smt.rs\<close>: a sparse Merkle tree of depth
  256 over all accounts, addressed by the bits of a hash of the public key. A node source is
  a map from node keys to hashes; an update returns the dirty nodes and the new root without
  writing anything. The node writes come out of a hash map in no particular order, so they
  are a map here as well.
\<close>

unbundle bit_operations_syntax

definition SMT_DEPTH :: nat where
  "SMT_DEPTH = 256"

definition SMT_LEAF_DOMAIN :: bytes where
  "SMT_LEAF_DOMAIN = ascii ''PL2:smt:leaf''"

definition SMT_NODE_DOMAIN :: bytes where
  "SMT_NODE_DOMAIN = ascii ''PL2:smt:node''"

definition SMT_EMPTY_DOMAIN :: bytes where
  "SMT_EMPTY_DOMAIN = ascii ''PL2:smt:empty''"

definition SMT_KEY_DOMAIN :: bytes where
  "SMT_KEY_DOMAIN = ascii ''PL2:smt:key''"

definition smt_node_hash :: "hasher \<Rightarrow> h256 \<Rightarrow> h256 \<Rightarrow> h256" where
  "smt_node_hash b3 left right = blake3_concat b3 SMT_NODE_DOMAIN [left, right]"

text \<open>
  The table of empty hashes is filled from its last index down; \<open>fill_empties\<close> has the
  entries from the current index on, and each step puts the next one in front.
\<close>

fun fill_empties :: "(h256 \<Rightarrow> h256 \<Rightarrow> h256) \<Rightarrow> nat \<Rightarrow> h256 list \<Rightarrow> h256 list" where
  "fill_empties node 0 e = e"
| "fill_empties node (Suc d) e = fill_empties node d (node (e ! 0) (e ! 0) # e)"

definition smt_empty_hashes :: "hasher \<Rightarrow> h256 list" where
  "smt_empty_hashes b3 = fill_empties (smt_node_hash b3) SMT_DEPTH [blake3_32 b3 SMT_EMPTY_DOMAIN []]"

definition smt_empty_root :: "hasher \<Rightarrow> h256" where
  "smt_empty_root b3 = smt_empty_hashes b3 ! 0"

definition key_path :: "hasher \<Rightarrow> pubkey \<Rightarrow> h256" where
  "key_path b3 pubkey = blake3_32 b3 SMT_KEY_DOMAIN pubkey"

definition smt_leaf_hash :: "hasher \<Rightarrow> pubkey \<Rightarrow> h256 \<Rightarrow> h256" where
  "smt_leaf_hash b3 pubkey account_hash = blake3_concat b3 SMT_LEAF_DOMAIN [pubkey, account_hash]"

definition path_bit :: "h256 \<Rightarrow> nat \<Rightarrow> bool" where
  "path_bit path i \<longleftrightarrow> drop_bit (7 - i mod 8) (path ! (i div 8)) AND 1 = 1"

definition flip_bit_at :: "h256 \<Rightarrow> nat \<Rightarrow> h256" where
  "flip_bit_at path i = path[i div 8 := path ! (i div 8) XOR push_bit (7 - i mod 8) 1]"

definition node_key :: "nat \<Rightarrow> h256 \<Rightarrow> bytes" where
  "node_key depth path =
    (let key = splice 0 (u16_be (of_nat depth)) (replicate 34 0);
         full = depth div 8;
         key = splice 2 (take full path) key;
         rem = depth mod 8
     in if rem > 0 then key[2 + full := path ! full AND push_bit (8 - rem) 0xff] else key)"

type_synonym node_source = "bytes \<rightharpoonup> h256"
type_synonym leaf_update = "pubkey \<times> h256 option"

record state_update =
  new_root :: h256
  node_writes :: node_source


section \<open>Applying updates\<close>

definition smt_read :: "hasher \<Rightarrow> node_source \<Rightarrow> node_source \<Rightarrow> nat \<Rightarrow> h256 \<Rightarrow> h256" where
  "smt_read b3 source overlay depth path =
    (let k = node_key depth path
     in case overlay k of Some h \<Rightarrow> h
        | None \<Rightarrow> (case source k of Some h \<Rightarrow> h | None \<Rightarrow> smt_empty_hashes b3 ! depth))"

text \<open>The inner loop, at \<^verbatim>\<open>depth = bit + 1\<close>.\<close>

fun smt_update_path ::
  "hasher \<Rightarrow> node_source \<Rightarrow> h256 \<Rightarrow> nat \<Rightarrow> h256 \<Rightarrow> node_source \<Rightarrow> node_source" where
  "smt_update_path b3 source path 0 current overlay = overlay"
| "smt_update_path b3 source path (Suc i) current overlay =
    (let sibling = smt_read b3 source overlay (Suc i) (flip_bit_at path i);
         current' = (if path_bit path i then smt_node_hash b3 sibling current
                     else smt_node_hash b3 current sibling)
     in smt_update_path b3 source path i current' (overlay(node_key i path \<mapsto> current')))"

definition leaf_value :: "hasher \<Rightarrow> leaf_update \<Rightarrow> h256" where
  "leaf_value b3 u = (case u of (pubkey, leaf) \<Rightarrow>
    (case leaf of Some account_hash \<Rightarrow> smt_leaf_hash b3 pubkey account_hash
     | None \<Rightarrow> smt_empty_hashes b3 ! SMT_DEPTH))"

definition smt_update_one :: "hasher \<Rightarrow> node_source \<Rightarrow> leaf_update \<Rightarrow> node_source \<Rightarrow> node_source" where
  "smt_update_one b3 source u overlay =
    (let path = key_path b3 (fst u);
         current = leaf_value b3 u
     in smt_update_path b3 source path SMT_DEPTH current
          (overlay(node_key SMT_DEPTH path \<mapsto> current)))"

definition apply_updates :: "hasher \<Rightarrow> node_source \<Rightarrow> leaf_update list \<Rightarrow> state_update" where
  "apply_updates b3 source updates =
    (let overlay = fold (smt_update_one b3 source) updates Map.empty;
         root_key = node_key 0 (replicate 32 0)
     in \<lparr> new_root = (case overlay root_key of Some h \<Rightarrow> h
            | None \<Rightarrow> (case source root_key of Some h \<Rightarrow> h | None \<Rightarrow> smt_empty_hashes b3 ! 0)),
          node_writes = overlay \<rparr>)"


section \<open>Proofs\<close>

record smt_proof =
  bitmap :: bytes
  siblings :: "h256 list"

fun smt_prove_loop ::
  "hasher \<Rightarrow> node_source \<Rightarrow> h256 \<Rightarrow> nat \<Rightarrow> bytes \<Rightarrow> h256 list \<Rightarrow> bytes \<times> h256 list" where
  "smt_prove_loop b3 source path 0 bm sibs = (bm, sibs)"
| "smt_prove_loop b3 source path (Suc k) bm sibs =
    (let depth = Suc k;
         i = SMT_DEPTH - depth;
         sibling = (case source (node_key depth (flip_bit_at path k)) of Some h \<Rightarrow> h
                    | None \<Rightarrow> smt_empty_hashes b3 ! depth)
     in if sibling \<noteq> smt_empty_hashes b3 ! depth
        then smt_prove_loop b3 source path k
               (bm[i div 8 := bm ! (i div 8) OR push_bit (7 - i mod 8) 1]) (sibs @ [sibling])
        else smt_prove_loop b3 source path k bm sibs)"

definition smt_prove :: "hasher \<Rightarrow> node_source \<Rightarrow> pubkey \<Rightarrow> smt_proof" where
  "smt_prove b3 source pubkey =
    (let path = key_path b3 pubkey;
         r = smt_prove_loop b3 source path SMT_DEPTH (replicate 32 0) []
     in \<lparr> bitmap = fst r, siblings = snd r \<rparr>)"

text \<open>\<open>None\<close> is the early \<^verbatim>\<open>return false\<close> of a proof that is short of siblings.\<close>

fun smt_verify_loop ::
  "hasher \<Rightarrow> h256 \<Rightarrow> smt_proof \<Rightarrow> nat \<Rightarrow> nat \<Rightarrow> h256 \<Rightarrow> (nat \<times> h256) option" where
  "smt_verify_loop b3 path prf 0 cursor current = Some (cursor, current)"
| "smt_verify_loop b3 path prf (Suc k) cursor current =
    (let depth = Suc k;
         i = SMT_DEPTH - depth;
         step = (\<lambda>cursor sibling.
           smt_verify_loop b3 path prf k cursor
             (if path_bit path k then smt_node_hash b3 sibling current
              else smt_node_hash b3 current sibling))
     in if drop_bit (7 - i mod 8) (bitmap prf ! (i div 8)) AND 1 = 1
        then (if cursor < length (siblings prf)
              then step (cursor + 1) (siblings prf ! cursor) else None)
        else step cursor (smt_empty_hashes b3 ! depth))"

definition smt_verify :: "hasher \<Rightarrow> h256 \<Rightarrow> pubkey \<Rightarrow> h256 option \<Rightarrow> smt_proof \<Rightarrow> bool" where
  "smt_verify b3 root pubkey account_hash prf =
    (case smt_verify_loop b3 (key_path b3 pubkey) prf SMT_DEPTH 0 (leaf_value b3 (pubkey, account_hash))
     of None \<Rightarrow> False
     | Some (cursor, current) \<Rightarrow> cursor = length (siblings prf) \<and> current = root)"


section \<open>The leaf assignment a node source stands for\<close>

definition path_bits :: "hasher \<Rightarrow> pubkey \<Rightarrow> bool list" where
  "path_bits b3 pubkey = path_prefix path_bit SMT_DEPTH (key_path b3 pubkey)"

definition state_rep :: "hasher \<Rightarrow> node_source \<Rightarrow> (bool list \<Rightarrow> h256) \<Rightarrow> bool" where
  "state_rep b3 = represents SMT_DEPTH (smt_node_hash b3) node_key path_bit
    (\<lambda>d. smt_empty_hashes b3 ! d) (\<lambda>p. length p = 32)"

definition tree_root :: "hasher \<Rightarrow> (bool list \<Rightarrow> h256) \<Rightarrow> h256" where
  "tree_root b3 L = ref_hash (smt_node_hash b3) L SMT_DEPTH []"

definition empty_leaves :: "hasher \<Rightarrow> bool list \<Rightarrow> h256" where
  "empty_leaves b3 = (\<lambda>_. smt_empty_hashes b3 ! SMT_DEPTH)"

definition set_leaf :: "hasher \<Rightarrow> leaf_update \<Rightarrow> (bool list \<Rightarrow> h256) \<Rightarrow> bool list \<Rightarrow> h256" where
  "set_leaf b3 u L = L(path_bits b3 (fst u) := leaf_value b3 u)"

definition set_leaves ::
  "hasher \<Rightarrow> leaf_update list \<Rightarrow> (bool list \<Rightarrow> h256) \<Rightarrow> bool list \<Rightarrow> h256" where
  "set_leaves b3 updates = fold (set_leaf b3) updates"

text \<open>The path part of a node key: the path with the bits from \<open>d\<close> on cleared.\<close>

definition masked :: "nat \<Rightarrow> h256 \<Rightarrow> bytes" where
  "masked d p = map (\<lambda>i. if i < d div 8 then p ! i
     else if i = d div 8 \<and> 0 < d mod 8 then p ! i AND push_bit (8 - d mod 8) 0xff else 0) [0..<32]"

text \<open>
  The pair of hashes a verification joins at depth \<open>e\<close>, and the pair the tree has there.
\<close>

definition verify_pair :: "hasher \<Rightarrow> pubkey \<Rightarrow> h256 option \<Rightarrow> smt_proof \<Rightarrow> nat \<Rightarrow> h256 \<times> h256" where
  "verify_pair b3 pk ah prf = walk_pair SMT_DEPTH (smt_node_hash b3) path_bit
    (proof_sibling SMT_DEPTH (\<lambda>d. smt_empty_hashes b3 ! d) (bitmap prf) (siblings prf))
    (key_path b3 pk) (leaf_value b3 (pk, ah))"

definition state_pair :: "hasher \<Rightarrow> (bool list \<Rightarrow> h256) \<Rightarrow> pubkey \<Rightarrow> nat \<Rightarrow> h256 \<times> h256" where
  "state_pair b3 L pk = tree_pair SMT_DEPTH (smt_node_hash b3) path_bit L (key_path b3 pk)"


section \<open>Path bits and node keys\<close>

lemma path_bit_bit: "path_bit p i \<longleftrightarrow> bit (p ! (i div 8)) (7 - i mod 8)"
  by (simp add: path_bit_def and_one_bit bit_drop_bit_eq)

lemma length_flip_bit_at [simp]: "length (flip_bit_at p i) = length p"
  by (simp add: flip_bit_at_def)

lemma path_bit_flip:
  assumes "length p = 32" and "i < 256" and "j < 256"
  shows "path_bit (flip_bit_at p i) j = (path_bit p j \<noteq> (i = j))"
proof (cases "i div 8 = j div 8")
  case True
  have "bit (push_bit (7 - i mod 8) 1 :: u8) (7 - j mod 8) \<longleftrightarrow> 7 - i mod 8 = 7 - j mod 8"
    by (auto simp: bit_exp_iff)
  moreover have "i div 8 < length p" using assms by auto
  ultimately show ?thesis
    using True same_byte_bit [of i j]
    by (auto simp: path_bit_bit flip_bit_at_def bit_xor_iff)
next
  case False
  then show ?thesis
    by (auto simp: path_bit_bit flip_bit_at_def)
qed

lemma length_masked [simp]: "length (masked d p) = 32"
  by (simp add: masked_def)

lemma node_key_masked:
  assumes "length p = 32" and "d \<le> 256"
  shows "node_key d p = u16_be (of_nat d) @ masked d p"
proof -
  have full: "d div 8 \<le> 32" and rem: "0 < d mod 8 \<Longrightarrow> d div 8 < 32"
    using assms(2) by presburger+
  let ?k = "splice 2 (take (d div 8) p) (splice 0 (u16_be (of_nat d)) (replicate 34 0))"
  have k: "?k = u16_be (of_nat d) @ take (d div 8) p @ replicate (32 - d div 8) 0"
    using assms full by (simp add: splice_def)
  show ?thesis
  proof (cases "0 < d mod 8")
    case True
    then have "node_key d p = u16_be (of_nat d) @
        (take (d div 8) p @ replicate (32 - d div 8) 0)
          [d div 8 := p ! (d div 8) AND push_bit (8 - d mod 8) 0xff]"
      by (simp add: node_key_def Let_def k list_update_append)
    also have "(take (d div 8) p @ replicate (32 - d div 8) 0)
          [d div 8 := p ! (d div 8) AND push_bit (8 - d mod 8) 0xff] = masked d p"
      using assms full rem True
      by (intro nth_equalityI) (auto simp: masked_def nth_append nth_list_update)
    finally show ?thesis .
  next
    case False
    then have "node_key d p = u16_be (of_nat d) @ take (d div 8) p @ replicate (32 - d div 8) 0"
      by (simp add: node_key_def Let_def k)
    also have "take (d div 8) p @ replicate (32 - d div 8) 0 = masked d p"
      using assms full False
      by (intro nth_equalityI) (auto simp: masked_def nth_append)
    finally show ?thesis .
  qed
qed

lemma bit_mask_byte: "j < 8 \<Longrightarrow> bit (push_bit n 0xff :: u8) j \<longleftrightarrow> n \<le> j"
proof -
  assume "j < 8"
  moreover have "(0xff :: u8) = - 1" by simp
  ultimately show ?thesis by (simp only: bit_push_bit_iff) (auto simp: bit_minus_1_iff)
qed

lemma bit_masked:
  assumes "i < 32" and "j < 8"
  shows "bit (masked d p ! i) j \<longleftrightarrow> 8 * i + (7 - j) < d \<and> bit (p ! i) j"
proof -
  have d: "d = 8 * (d div 8) + d mod 8" and r: "d mod 8 < 8" by simp_all
  consider "i < d div 8" | "i = d div 8" | "d div 8 < i" by linarith
  then show ?thesis
  proof cases
    case 1
    then have "8 * i + (7 - j) < d" using d by linarith
    with 1 assms show ?thesis by (simp add: masked_def)
  next
    case 2
    have "8 * i + (7 - j) < d \<longleftrightarrow> 7 - j < d mod 8" using d 2 by linarith
    also have "\<dots> \<longleftrightarrow> 0 < d mod 8 \<and> 8 - d mod 8 \<le> j" using assms(2) r by linarith
    finally show ?thesis
      using 2 assms by (auto simp: masked_def bit_and_iff bit_mask_byte)
  next
    case 3
    then have "\<not> 8 * i + (7 - j) < d" using d r by linarith
    with 3 assms show ?thesis by (simp add: masked_def)
  qed
qed

lemma masked_eq_iff:
  assumes "d \<le> 256"
  shows "masked d p = masked d q \<longleftrightarrow> (\<forall>i<d. path_bit p i = path_bit q i)"
proof
  assume eq: "masked d p = masked d q"
  show "\<forall>i<d. path_bit p i = path_bit q i"
  proof (intro allI impI)
    fix i assume i: "i < d"
    have "7 - (7 - i mod 8) = i mod 8" by (simp add: le_simps)
    then have idx: "8 * (i div 8) + (7 - (7 - i mod 8)) = i" by simp
    have "i div 8 < 32" using i assms by linarith
    then have "bit (masked d x ! (i div 8)) (7 - i mod 8) = path_bit x i" for x
      using bit_masked [of "i div 8" "7 - i mod 8" d x] i idx by (simp add: path_bit_bit)
    with eq show "path_bit p i = path_bit q i" by metis
  qed
next
  assume eq: "\<forall>i<d. path_bit p i = path_bit q i"
  show "masked d p = masked d q"
  proof (rule nth_equalityI)
    fix i assume "i < length (masked d p)"
    then have i: "i < 32" by simp
    show "masked d p ! i = masked d q ! i"
    proof (rule bit_word_eqI)
      fix j assume "j < LENGTH(8)"
      then have j: "j < 8" by simp
      have k1: "(8 * i + (7 - j)) div 8 = i"
        using div_mult_self4 [of 8 i "7 - j"] by simp
      have k2: "7 - (8 * i + (7 - j)) mod 8 = j"
        using j by (simp only: mod_mult_self4) simp
      have "path_bit x (8 * i + (7 - j)) = bit (x ! i) j" for x
        unfolding path_bit_bit k1 k2 ..
      with eq show "bit (masked d p ! i) j = bit (masked d q ! i) j"
        unfolding bit_masked [OF i j] by blast
    qed
  qed simp
qed

lemma u16_be_depth: "d \<le> 256 \<Longrightarrow> e \<le> 256 \<Longrightarrow> u16_be (of_nat d) = u16_be (of_nat e) \<longleftrightarrow> d = e"
proof
  assume d: "d \<le> 256" "e \<le> 256" and "u16_be (of_nat d) = u16_be (of_nat e)"
  then have "unat (of_nat d :: u16) = unat (of_nat e :: u16)"
    by (metis u16_be_roundtrip)
  with d show "d = e" by (simp add: unat_of_nat)
qed simp

lemma node_key_eq_iff:
  assumes "length p = 32" and "length q = 32" and "d \<le> 256" and "e \<le> 256"
  shows "node_key d p = node_key e q
    \<longleftrightarrow> d = e \<and> path_prefix path_bit d p = path_prefix path_bit d q"
proof -
  have "node_key d p = node_key e q
      \<longleftrightarrow> u16_be (of_nat d) = u16_be (of_nat e) \<and> masked d p = masked e q"
    using assms by (simp add: node_key_masked)
  then show ?thesis
    using assms by (auto simp: u16_be_depth masked_eq_iff path_prefix_eq_iff)
qed


section \<open>The table of empty hashes\<close>

lemma fill_empties_append:
  "\<exists>pre. length pre = n \<and> fill_empties node n (x # es) = pre @ x # es \<and>
    (\<forall>d<n. (pre @ x # es) ! d = node ((pre @ x # es) ! Suc d) ((pre @ x # es) ! Suc d))"
proof (induction n arbitrary: x es)
  case 0
  then show ?case by simp
next
  case (Suc n)
  let ?y = "node x x"
  obtain pre where pre: "length pre = n" "fill_empties node n (?y # x # es) = pre @ ?y # x # es"
    "\<forall>d<n. (pre @ ?y # x # es) ! d
      = node ((pre @ ?y # x # es) ! Suc d) ((pre @ ?y # x # es) ! Suc d)"
    using Suc.IH [of ?y "x # es"] by blast
  have "(pre @ ?y # x # es) ! n = ?y" "(pre @ ?y # x # es) ! Suc n = x"
    using pre(1) by (simp_all add: nth_append)
  with pre show ?case
    by (intro exI [of _ "pre @ [?y]"]) (auto simp: less_Suc_eq)
qed

lemma fill_empties_node:
  assumes "d < n"
  shows "fill_empties node n [x] ! d
    = node (fill_empties node n [x] ! Suc d) (fill_empties node n [x] ! Suc d)"
  using fill_empties_append [of n node x "[]"] assms by metis

lemma fill_empties_last: "fill_empties node n [x] ! n = x"
  using fill_empties_append [of n node x "[]"] by (metis nth_append_length)

lemma length_fill_empties: "length (fill_empties node n es) = n + length es"
  by (induction node n es rule: fill_empties.induct) auto


section \<open>The state tree is a sparse tree\<close>

interpretation state_tree: sparse_tree SMT_DEPTH "smt_node_hash b3" node_key path_bit flip_bit_at
  "\<lambda>d. smt_empty_hashes b3 ! d" "\<lambda>p. length p = 32" for b3
proof unfold_locales
  show "length p = 32 \<Longrightarrow> length q = 32 \<Longrightarrow> d \<le> SMT_DEPTH \<Longrightarrow> e \<le> SMT_DEPTH \<Longrightarrow>
    (node_key d p = node_key e q) = (d = e \<and> path_prefix path_bit d p = path_prefix path_bit d q)"
    for p q d e by (rule node_key_eq_iff) (simp_all add: SMT_DEPTH_def)
  show "length p = 32 \<Longrightarrow> i < SMT_DEPTH \<Longrightarrow> j < SMT_DEPTH \<Longrightarrow>
    path_bit (flip_bit_at p i) j = (path_bit p j \<noteq> (i = j))" for p i j
    by (rule path_bit_flip) (simp_all add: SMT_DEPTH_def)
  show "d < SMT_DEPTH \<Longrightarrow> smt_empty_hashes b3 ! d
    = smt_node_hash b3 (smt_empty_hashes b3 ! Suc d) (smt_empty_hashes b3 ! Suc d)" for d
    unfolding smt_empty_hashes_def by (rule fill_empties_node)
qed simp

lemma length_key_path [simp]: "digest32 b3 \<Longrightarrow> length (key_path b3 pk) = 32"
  by (simp add: key_path_def)

lemma smt_update_path_climb:
  "source ++ smt_update_path b3 source path d current overlay =
    climb (smt_node_hash b3) node_key path_bit flip_bit_at (\<lambda>d. smt_empty_hashes b3 ! d)
      (source ++ overlay) path d current"
proof (induction d arbitrary: current overlay)
  case (Suc i)
  have "smt_read b3 source overlay (Suc i) (flip_bit_at path i)
    = node_at node_key (\<lambda>d. smt_empty_hashes b3 ! d) (source ++ overlay) (Suc i) (flip_bit_at path i)"
    by (simp add: smt_read_def node_at_def map_add_def Let_def split: option.splits)
  then show ?case
    by (simp add: Let_def join_def Suc.IH del: fun_upd_apply)
qed simp

lemma smt_update_one_rep:
  assumes "digest32 b3" and "state_rep b3 (source ++ overlay) L"
  shows "state_rep b3 (source ++ smt_update_one b3 source u overlay) (set_leaf b3 u L)"
  using state_tree.climb_rep [of b3 "source ++ overlay" L "key_path b3 (fst u)" "leaf_value b3 u"] assms
  by (simp add: smt_update_one_def smt_update_path_climb state_rep_def set_leaf_def path_bits_def Let_def)

lemma fold_update_rep:
  assumes "digest32 b3" and "state_rep b3 (source ++ overlay) L"
  shows "state_rep b3 (source ++ fold (smt_update_one b3 source) us overlay) (set_leaves b3 us L)"
  using assms(2)
  by (induction us arbitrary: overlay L)
    (simp_all add: set_leaves_def smt_update_one_rep assms(1))

lemma state_rep_root:
  assumes "state_rep b3 m L"
  shows "(case m (node_key 0 (replicate 32 0)) of Some h \<Rightarrow> h | None \<Rightarrow> smt_empty_hashes b3 ! 0)
    = tree_root b3 L"
  using state_tree.rep_root [of b3 m L "replicate 32 0"] assms
  by (simp add: state_rep_def tree_root_def node_at_def)

lemma state_rep_empty: "state_rep b3 Map.empty (empty_leaves b3)"
  unfolding state_rep_def empty_leaves_def by (rule state_tree.rep_empty)

lemma apply_updates_refine:
  assumes "digest32 b3" and "state_rep b3 source L"
  shows "state_rep b3 (source ++ node_writes (apply_updates b3 source us)) (set_leaves b3 us L)"
    and "new_root (apply_updates b3 source us) = tree_root b3 (set_leaves b3 us L)"
proof -
  let ?ov = "fold (smt_update_one b3 source) us Map.empty"
  have rep: "state_rep b3 (source ++ ?ov) (set_leaves b3 us L)"
    using fold_update_rep [of b3 source Map.empty L us] assms by simp
  then show "state_rep b3 (source ++ node_writes (apply_updates b3 source us)) (set_leaves b3 us L)"
    by (simp add: apply_updates_def Let_def)
  show "new_root (apply_updates b3 source us) = tree_root b3 (set_leaves b3 us L)"
    using state_rep_root [OF rep]
    by (simp add: apply_updates_def Let_def map_add_def split: option.splits)
qed


section \<open>Proofs of inclusion and of absence\<close>

lemma smt_prove_loop_walk:
  "smt_prove_loop b3 source path d bm sibs =
    prove_walk SMT_DEPTH
      (\<lambda>d. node_at node_key (\<lambda>d. smt_empty_hashes b3 ! d) source d (flip_bit_at path (d - 1)))
      (\<lambda>d. smt_empty_hashes b3 ! d) d bm sibs"
  by (induction d arbitrary: bm sibs) (simp_all add: Let_def node_at_def bitmap_set_def)

lemma smt_verify_loop_walk:
  "smt_verify_loop b3 path prf d cursor current =
    verify_walk SMT_DEPTH (smt_node_hash b3) path_bit (\<lambda>d. smt_empty_hashes b3 ! d)
      (bitmap prf) (siblings prf) path d cursor current"
  by (induction d arbitrary: cursor current) (simp_all add: Let_def bitmap_get_def join_def)

lemma smt_prove_verifies:
  assumes "digest32 b3" and "state_rep b3 source L"
    and "L (path_bits b3 pk) = leaf_value b3 (pk, ah)"
  shows "smt_verify b3 (tree_root b3 L) pk ah (smt_prove b3 source pk)"
proof -
  let ?p = "key_path b3 pk"
  let ?e = "\<lambda>d. smt_empty_hashes b3 ! d"
  let ?w = "prove_walk SMT_DEPTH (\<lambda>d. node_at node_key ?e source d (flip_bit_at ?p (d - 1)))
    ?e SMT_DEPTH (replicate 32 0) []"
  have "verify_walk SMT_DEPTH (smt_node_hash b3) path_bit ?e (fst ?w) (snd ?w) ?p SMT_DEPTH 0
      (L (path_prefix path_bit SMT_DEPTH ?p))
    = Some (length (snd ?w), ref_hash (smt_node_hash b3) L SMT_DEPTH [])"
    by (rule state_tree.prove_complete)
      (use assms in \<open>simp_all add: state_rep_def SMT_DEPTH_def\<close>)
  then show ?thesis
    using assms(3)
    by (simp add: smt_verify_def smt_prove_def smt_verify_loop_walk smt_prove_loop_walk
        tree_root_def path_bits_def Let_def)
qed

lemma smt_verify_leaf:
  assumes "smt_verify b3 (tree_root b3 L) pk ah prf"
    and "\<And>e. e < SMT_DEPTH \<Longrightarrow>
      case_prod (smt_node_hash b3) (verify_pair b3 pk ah prf e)
        = case_prod (smt_node_hash b3) (state_pair b3 L pk e) \<Longrightarrow>
      verify_pair b3 pk ah prf e = state_pair b3 L pk e"
  shows "leaf_value b3 (pk, ah) = L (path_bits b3 pk)"
proof -
  let ?e = "\<lambda>d. smt_empty_hashes b3 ! d"
  obtain c where c: "verify_walk SMT_DEPTH (smt_node_hash b3) path_bit ?e (bitmap prf) (siblings prf)
      (key_path b3 pk) SMT_DEPTH 0 (leaf_value b3 (pk, ah))
    = Some (c, ref_hash (smt_node_hash b3) L SMT_DEPTH [])"
    using assms(1)
    by (auto simp: smt_verify_def smt_verify_loop_walk tree_root_def split: option.splits)
  show ?thesis
    unfolding path_bits_def
    by (rule state_tree.verify_sound [OF c])
      (use assms(2) in \<open>simp add: verify_pair_def state_pair_def\<close>)
qed


section \<open>Properties\<close>

text \<open>
  C3: Applying a batch of leaf updates to a node source that represents a leaf assignment
  refines the update of that assignment: overlaid with the returned node writes, the source
  represents the leaves after all updates in order, and the returned root is the root of the
  complete depth-256 tree over them.
\<close>

theorem apply_updates_correct:
  assumes "digest32 b3" and "state_rep b3 source L"
  shows "state_rep b3 (source ++ node_writes (apply_updates b3 source us)) (set_leaves b3 us L)
    \<and> new_root (apply_updates b3 source us) = tree_root b3 (set_leaves b3 us L)"
  using apply_updates_refine [OF assms] by blast

theorem apply_updates_correct_witness:
  "state_rep pad_hash (Map.empty ++ node_writes (apply_updates pad_hash Map.empty
      [([1], Some (replicate 32 7)), ([2], None)]))
      (set_leaves pad_hash [([1], Some (replicate 32 7)), ([2], None)] (empty_leaves pad_hash))
    \<and> new_root (apply_updates pad_hash Map.empty [([1], Some (replicate 32 7)), ([2], None)])
      = tree_root pad_hash
          (set_leaves pad_hash [([1], Some (replicate 32 7)), ([2], None)] (empty_leaves pad_hash))"
  by (rule apply_updates_correct [OF digest32_pad_hash state_rep_empty])

text \<open>
  A proof made from a node source verifies against the root of the tree it represents,
  for exactly the account hash (or the absence) that the tree has at the key's position.
\<close>

theorem smt_prove_complete:
  assumes "digest32 b3" and "state_rep b3 source L"
    and "L (path_bits b3 pk) = leaf_value b3 (pk, ah)"
  shows "smt_verify b3 (tree_root b3 L) pk ah (smt_prove b3 source pk)"
  using assms by (rule smt_prove_verifies)

theorem smt_prove_complete_witness:
  "smt_verify pad_hash (tree_root pad_hash (empty_leaves pad_hash)) [9] None
    (smt_prove pad_hash Map.empty [9])"
  by (rule smt_prove_complete [OF digest32_pad_hash state_rep_empty])
    (simp add: empty_leaves_def leaf_value_def)

text \<open>
  C38: An accepted proof is sound: if \<open>smt_verify\<close> accepts a proof for a key against the root of
  a tree, then the claimed account hash (or absence) is what the tree has at the key's
  position, or at some depth the verifier joined two hashes that differ from the tree's own
  two children there and have the same node hash, which is a collision of blake3.
\<close>

theorem smt_verify_sound:
  assumes "smt_verify b3 (tree_root b3 L) pk ah prf"
  shows "leaf_value b3 (pk, ah) = L (path_bits b3 pk)
    \<or> (\<exists>e<SMT_DEPTH. verify_pair b3 pk ah prf e \<noteq> state_pair b3 L pk e
         \<and> case_prod (smt_node_hash b3) (verify_pair b3 pk ah prf e)
           = case_prod (smt_node_hash b3) (state_pair b3 L pk e))"
  using smt_verify_leaf [OF assms] by blast

theorem smt_verify_sound_witness:
  "leaf_value pad_hash ([9], None) = empty_leaves pad_hash (path_bits pad_hash [9])
    \<or> (\<exists>e<SMT_DEPTH. verify_pair pad_hash [9] None (smt_prove pad_hash Map.empty [9]) e
           \<noteq> state_pair pad_hash (empty_leaves pad_hash) [9] e
         \<and> case_prod (smt_node_hash pad_hash)
             (verify_pair pad_hash [9] None (smt_prove pad_hash Map.empty [9]) e)
           = case_prod (smt_node_hash pad_hash)
             (state_pair pad_hash (empty_leaves pad_hash) [9] e))"
  by (rule smt_verify_sound, rule smt_prove_verifies [OF digest32_pad_hash state_rep_empty])
    (simp add: empty_leaves_def leaf_value_def)

text \<open>
  The storage key of a node is canonical: two keys are equal exactly when the depths are
  equal and the two paths agree on their first \<open>depth\<close> bits, so distinct nodes of the tree never
  share a row of the node table.
\<close>

theorem node_key_canonical:
  assumes "length p = 32" and "length q = 32" and "d \<le> SMT_DEPTH" and "e \<le> SMT_DEPTH"
  shows "node_key d p = node_key e q \<longleftrightarrow> d = e \<and> (\<forall>i<d. path_bit p i = path_bit q i)"
  using node_key_eq_iff [of p q d e] assms by (simp add: SMT_DEPTH_def path_prefix_eq_iff)

theorem node_key_canonical_witness:
  "node_key 3 (replicate 32 0xff) = node_key 3 (replicate 32 0xe0)
    \<longleftrightarrow> (3::nat) = 3 \<and> (\<forall>i<3. path_bit (replicate 32 0xff) i = path_bit (replicate 32 0xe0) i)"
  by (rule node_key_canonical) (simp_all add: SMT_DEPTH_def)

end
