(* ===== verification/Block.thy ===== *)
theory Block
  imports Hashing
begin

text \<open>
  Blocks and headers (\<^verbatim>\<open>zul-primitives/src/block.rs\<close>) and the execution metadata stored
  beside a transaction (\<^verbatim>\<open>meta.rs\<close>). Parameters: the bincode encodings of a header and of a
  transaction (\<open>ser_hdr\<close>, \<open>ser_tx\<close>) and the ed25519 signature scheme (\<open>sign\<close>, \<open>sig_ok\<close>).
\<close>

record block_header =
  slot :: u64
  parent_hash :: h256
  state_root :: h256
  transactions_root :: h256
  timestamp_ms :: u64
  transaction_count :: u32

definition HEADER_DOMAIN :: bytes where
  "HEADER_DOMAIN = ascii ''PL2:block:header:v1''"

definition header_hash :: "hasher \<Rightarrow> (block_header \<Rightarrow> bytes) \<Rightarrow> block_header \<Rightarrow> h256" where
  "header_hash b3 ser_hdr h = blake3_32 b3 HEADER_DOMAIN (ser_hdr h)"

text \<open>
  A versioned transaction, as far as the program looks into it: its signatures, the static
  account keys (the first is the fee payer), the recent blockhash and the compiled
  instructions; the rest of the message is opaque.
\<close>

record compiled_instruction =
  program_id_index :: u8
  ix_accounts :: "u8 list"
  ix_data :: bytes

record transaction =
  signatures :: "sigbytes list"
  account_keys :: "pubkey list"
  recent_blockhash :: h256
  instructions :: "compiled_instruction list"
  message_rest :: bytes

text \<open>\<^verbatim>\<open>first()\<close> of a slice.\<close>

definition first :: "'a list \<Rightarrow> 'a option" where
  "first xs = (case xs of [] \<Rightarrow> None | x # _ \<Rightarrow> Some x)"

record block =
  header :: block_header
  transactions :: "transaction list"
  sequencer_signature :: sigbytes

definition compute_transactions_root :: "hasher \<Rightarrow> (transaction \<Rightarrow> bytes) \<Rightarrow> transaction list \<Rightarrow> h256" where
  "compute_transactions_root b3 ser_tx txs = root_from_data b3 (map ser_tx txs)"

definition seal ::
  "hasher \<Rightarrow> (block_header \<Rightarrow> bytes) \<Rightarrow> ('key \<Rightarrow> bytes \<Rightarrow> sigbytes)
    \<Rightarrow> block_header \<Rightarrow> transaction list \<Rightarrow> 'key \<Rightarrow> block" where
  "seal b3 ser_hdr sign hdr txs sequencer =
    \<lparr> header = hdr, transactions = txs,
      sequencer_signature = sign sequencer (header_hash b3 ser_hdr hdr) \<rparr>"

definition block_verify ::
  "hasher \<Rightarrow> (block_header \<Rightarrow> bytes) \<Rightarrow> (transaction \<Rightarrow> bytes) \<Rightarrow> (pubkey \<Rightarrow> bytes \<Rightarrow> sigbytes \<Rightarrow> bool)
    \<Rightarrow> block \<Rightarrow> pubkey \<Rightarrow> bool" where
  "block_verify b3 ser_hdr ser_tx sig_ok b sequencer =
    (if unat (transaction_count (header b)) \<noteq> length (transactions b) then False
     else if transactions_root (header b) \<noteq> compute_transactions_root b3 ser_tx (transactions b)
     then False
     else sig_ok sequencer (header_hash b3 ser_hdr (header b)) (sequencer_signature b))"

record 'err executed_meta =
  status :: "'err option"
  fee :: u64
  compute_units_consumed :: u64
  log_messages :: "string list"
  pre_balances :: "u64 list"
  post_balances :: "u64 list"

definition is_success :: "'err executed_meta \<Rightarrow> bool" where
  "is_success m = (status m = None)"


section \<open>Lemmas\<close>

lemma first_simps [simp]: "first [] = None" "first (x # xs) = Some x"
  by (simp_all add: first_def)

lemma first_None [simp]: "first xs = None \<longleftrightarrow> xs = []"
  by (cases xs) simp_all

lemma first_Some: "first xs = Some x \<longleftrightarrow> (\<exists>ys. xs = x # ys)"
  by (cases xs) auto

lemma length_header_hash [simp]: "digest32 b3 \<Longrightarrow> length (header_hash b3 ser_hdr h) = 32"
  by (simp add: header_hash_def)

lemma seal_fields [simp]:
  "header (seal b3 ser_hdr sign h txs k) = h"
  "transactions (seal b3 ser_hdr sign h txs k) = txs"
  by (simp_all add: seal_def)

text \<open>
  A block sealed over a header that commits to its body, as the node builds it, verifies under
  the sequencer's key.
\<close>

lemma seal_verifies:
  assumes "sig_ok pk (header_hash b3 ser_hdr h) (sign k (header_hash b3 ser_hdr h))"
    and "unat (transaction_count h) = length txs"
    and "transactions_root h = compute_transactions_root b3 ser_tx txs"
  shows "block_verify b3 ser_hdr ser_tx sig_ok (seal b3 ser_hdr sign h txs k) pk"
  using assms by (simp add: block_verify_def seal_def)



section \<open>Properties\<close>


definition sample_tx :: transaction where
  "sample_tx = \<lparr> signatures = [[1]], account_keys = [[2]], recent_blockhash = ZERO_HASH,
    instructions = [], message_rest = [] \<rparr>"

definition sample_header :: block_header where
  "sample_header = \<lparr> slot = 1, parent_hash = ZERO_HASH, state_root = ZERO_HASH,
    transactions_root = compute_transactions_root pad_hash message_rest [sample_tx],
    timestamp_ms = 0, transaction_count = 1 \<rparr>"


text \<open>
  A block sealed over a header that commits to its body verifies under the sequencer's
  key, whenever the signature scheme accepts the signature it makes for that header.
\<close>

theorem sealed_block_verifies:
  assumes "sig_ok pk (header_hash b3 ser_hdr h) (sign k (header_hash b3 ser_hdr h))"
    and "unat (transaction_count h) = length txs"
    and "transactions_root h = compute_transactions_root b3 ser_tx txs"
  shows "block_verify b3 ser_hdr ser_tx sig_ok (seal b3 ser_hdr sign h txs k) pk"
  using assms by (rule seal_verifies)

theorem sealed_block_verifies_witness:
  "block_verify pad_hash (\<lambda>_. []) message_rest (\<lambda>pk m s. s = pk @ m)
    (seal pad_hash (\<lambda>_. []) (\<lambda>k m. k @ m) sample_header [sample_tx] [7]) [7]"
  by (rule sealed_block_verifies) (simp_all add: sample_header_def)

end
