(* ===== verification/Blockhash_Queue.thy ===== *)
theory Blockhash_Queue
  imports Hashing
begin

text \<open>
  The queue of recent block hashes, \<^verbatim>\<open>chain/zul-store/src/queue.rs\<close>: a bounded FIFO of
  \<open>(slot, hash)\<close> entries with an index from hash to slot. The persisted form leaves the index
  out; \<open>from_bytes\<close> rebuilds it. The bincode codec is a parameter. The locale
  \<open>recent_window\<close> is what the node relies on: a queue is a window over the last registered
  entries, and exactly the hashes in the window are valid.
\<close>

definition BLOCKHASH_QUEUE_CAPACITY :: nat where
  "BLOCKHASH_QUEUE_CAPACITY = 150"

record blockhash_queue =
  capacity :: nat
  entries :: "(u64 \<times> h256) list"
  index :: "h256 \<rightharpoonup> u64"

text \<open>\<open>None\<close> is the failed assertion.\<close>

definition with_capacity :: "nat \<Rightarrow> blockhash_queue option" where
  "with_capacity cap =
    (if cap > 0 then Some \<lparr> capacity = cap, entries = [], index = Map.empty \<rparr> else None)"

fun evict :: "nat \<Rightarrow> (u64 \<times> h256) list \<Rightarrow> (h256 \<rightharpoonup> u64) \<Rightarrow> (u64 \<times> h256) list \<times> (h256 \<rightharpoonup> u64)" where
  "evict cap [] idx = ([], idx)"
| "evict cap ((s, evicted) # rest) idx =
    (if length ((s, evicted) # rest) > cap then evict cap rest (idx(evicted := None))
     else ((s, evicted) # rest, idx))"

definition register :: "blockhash_queue \<Rightarrow> u64 \<Rightarrow> h256 \<Rightarrow> blockhash_queue" where
  "register q slot hash =
    (let (es, idx) = evict (capacity q) (entries q @ [(slot, hash)]) ((index q)(hash \<mapsto> slot))
     in q\<lparr> entries := es, index := idx \<rparr>)"

definition is_valid :: "blockhash_queue \<Rightarrow> h256 \<Rightarrow> bool" where
  "is_valid q hash \<longleftrightarrow> index q hash \<noteq> None"

definition latest :: "blockhash_queue \<Rightarrow> (u64 \<times> h256) option" where
  "latest q = (if entries q = [] then None else Some (last (entries q)))"

definition queue_len :: "blockhash_queue \<Rightarrow> nat" where
  "queue_len q = length (entries q)"

definition queue_to_bytes :: "(nat \<times> (u64 \<times> h256) list \<Rightarrow> bytes) \<Rightarrow> blockhash_queue \<Rightarrow> bytes" where
  "queue_to_bytes ser q = ser (capacity q, entries q)"

text \<open>Collecting into a hash map: a later entry with the same hash overwrites an earlier one.\<close>

definition rebuild_index :: "(u64 \<times> h256) list \<Rightarrow> h256 \<rightharpoonup> u64" where
  "rebuild_index es = fold (\<lambda>(s, h) m. m(h \<mapsto> s)) es Map.empty"

definition queue_from_bytes ::
  "(bytes \<Rightarrow> (nat \<times> (u64 \<times> h256) list) option) \<Rightarrow> bytes \<Rightarrow> blockhash_queue option" where
  "queue_from_bytes de bs =
    map_option (\<lambda>(cap, es). \<lparr> capacity = cap, entries = es, index = rebuild_index es \<rparr>) (de bs)"

text \<open>The index agrees with the entries, the hashes are distinct and there are at most \<open>capacity\<close>.\<close>

definition queue_inv :: "blockhash_queue \<Rightarrow> bool" where
  "queue_inv q \<longleftrightarrow> 0 < capacity q \<and> length (entries q) \<le> capacity q
    \<and> distinct (map snd (entries q)) \<and> index q = rebuild_index (entries q)"

definition register_all :: "(u64 \<times> h256) list \<Rightarrow> blockhash_queue \<Rightarrow> blockhash_queue" where
  "register_all hs q = fold (\<lambda>(s, h) q. register q s h) hs q"


section \<open>The interface: a window over the registered hashes\<close>

locale recent_window =
  fixes reg :: "'q \<Rightarrow> u64 \<Rightarrow> h256 \<Rightarrow> 'q"
    and valid :: "'q \<Rightarrow> h256 \<Rightarrow> bool"
    and window :: "'q \<Rightarrow> (u64 \<times> h256) list"
    and cap :: "'q \<Rightarrow> nat"
    and inv :: "'q \<Rightarrow> bool"
  assumes window_reg: "inv q \<Longrightarrow>
      window (reg q s h) = drop (Suc (length (window q)) - cap q) (window q @ [(s, h)])"
    and cap_reg: "cap (reg q s h) = cap q"
    and inv_reg: "inv q \<Longrightarrow> h \<notin> snd ` set (window q) \<Longrightarrow> inv (reg q s h)"
    and valid_window: "inv q \<Longrightarrow> valid q h \<longleftrightarrow> h \<in> snd ` set (window q)"
    and window_bound: "inv q \<Longrightarrow> length (window q) \<le> cap q"
begin

lemma window_reg_all:
  assumes "inv q" and "distinct (map snd (window q @ hs))"
  shows "window (fold (\<lambda>(s, h) q. reg q s h) hs q)
      = drop (length (window q) + length hs - cap q) (window q @ hs)
    \<and> inv (fold (\<lambda>(s, h) q. reg q s h) hs q) \<and> cap (fold (\<lambda>(s, h) q. reg q s h) hs q) = cap q"
  using assms
proof (induction hs arbitrary: q)
  case Nil
  then show ?case using window_bound by simp
next
  case (Cons x hs)
  obtain s h where x: "x = (s, h)" by (cases x)
  let ?q = "reg q s h" and ?w = "window q"
  have inv: "inv ?q"
    using Cons.prems by (intro inv_reg) (auto simp: x)
  let ?k = "Suc (length ?w) - cap q"
  have w: "window ?q @ hs = drop ?k (?w @ x # hs)"
    using window_reg [OF Cons.prems(1)] by (cases "cap q") (simp_all add: x)
  then have "distinct (map snd (window ?q @ hs))"
    using distinct_map_drop [OF Cons.prems(2)] by (simp only:)
  note IH = Cons.IH [OF inv this]
  have "length (window ?q) + length hs - cap ?q + ?k = length ?w + length (x # hs) - cap q"
    using window_bound [OF Cons.prems(1)] window_reg [OF Cons.prems(1), of s h]
    by (simp add: cap_reg)
  then have "drop (length (window ?q) + length hs - cap ?q) (window ?q @ hs)
      = drop (length ?w + length (x # hs) - cap q) (?w @ x # hs)"
    unfolding w by (simp del: drop_append)
  with IH show ?case
    by (simp add: x cap_reg del: drop_append)
qed

end


section \<open>The queue implements the window\<close>

lemma rebuild_index_snoc: "rebuild_index (es @ [(s, h)]) = (rebuild_index es)(h \<mapsto> s)"
  by (simp add: rebuild_index_def)

lemma rebuild_index_Nil [simp]: "rebuild_index [] = Map.empty"
  by (simp add: rebuild_index_def)

lemma map_of_swap_None: "map_of (map prod.swap es) h = None \<longleftrightarrow> h \<notin> snd ` set es"
  by (auto simp: map_of_eq_None_iff image_iff)

lemma rebuild_index_map_of:
  "distinct (map snd es) \<Longrightarrow> rebuild_index es = map_of (map prod.swap es)"
proof (induction es rule: rev_induct)
  case (snoc x es)
  obtain s h where x: "x = (s, h)" by (cases x)
  have "map_of (map prod.swap es) h = None"
    using snoc.prems by (auto simp: x map_of_swap_None)
  with snoc show ?case
    by (auto simp: x rebuild_index_snoc map_add_def fun_eq_iff split: option.splits)
qed simp

lemma rebuild_index_Cons:
  assumes "distinct (map snd ((s, h) # es))"
  shows "(rebuild_index ((s, h) # es))(h := None) = rebuild_index es"
proof -
  have "map_of (map prod.swap es) h = None"
    using assms by (auto simp: map_of_swap_None)
  then show ?thesis
    using assms by (auto simp: rebuild_index_map_of fun_eq_iff)
qed

lemma dom_rebuild_index: "dom (rebuild_index es) = snd ` set es"
proof (induction es rule: rev_induct)
  case (snoc x es)
  then show ?case by (cases x) (simp add: rebuild_index_snoc del: fun_upd_apply)
qed simp

lemma evict_rebuild:
  "distinct (map snd es) \<Longrightarrow> evict cap es (rebuild_index es)
    = (drop (length es - cap) es, rebuild_index (drop (length es - cap) es))"
proof (induction es)
  case (Cons x es)
  obtain s h where x: "x = (s, h)" by (cases x)
  show ?case
  proof (cases "cap \<le> length es")
    case True
    then have "Suc (length es) - cap = Suc (length es - cap)" by simp
    with True Cons show ?thesis
      using rebuild_index_Cons [of s h es] by (simp add: x)
  next
    case False
    then show ?thesis by (simp add: x)
  qed
qed simp

lemma register_entries:
  assumes "queue_inv q" and "hash \<notin> snd ` set (entries q)"
  shows "register q slot hash =
    (let es = drop (Suc (length (entries q)) - capacity q) (entries q @ [(slot, hash)])
     in \<lparr> capacity = capacity q, entries = es, index = rebuild_index es \<rparr>)"
proof -
  let ?es = "entries q @ [(slot, hash)]"
  have "distinct (map snd ?es)"
    using assms by (auto simp: queue_inv_def)
  from evict_rebuild [OF this, of "capacity q"] show ?thesis
    using assms by (simp add: register_def queue_inv_def rebuild_index_snoc Let_def del: drop_append)
qed

lemma evict_fst: "fst (evict cap es idx) = drop (length es - cap) es"
proof (induction es arbitrary: idx)
  case (Cons x es)
  then show ?case by (cases x) (simp add: Suc_diff_le)
qed simp

lemma register_window:
  "entries (register q s h) = drop (Suc (length (entries q)) - capacity q) (entries q @ [(s, h)])"
  using evict_fst [of "capacity q" "entries q @ [(s, h)]" "(index q)(h \<mapsto> s)"]
  by (simp add: register_def case_prod_unfold Let_def del: drop_append)

lemma register_capacity [simp]: "capacity (register q s h) = capacity q"
  by (simp add: register_def case_prod_unfold Let_def)

lemma queue_inv_register:
  assumes "queue_inv q" and "h \<notin> snd ` set (entries q)"
  shows "queue_inv (register q s h)"
proof -
  have "distinct (map snd (entries q @ [(s, h)]))"
    using assms by (auto simp: queue_inv_def)
  then have "distinct (map snd (drop k (entries q @ [(s, h)])))" for k
    by (rule distinct_map_drop)
  then show ?thesis
    using assms(1)
    by (simp add: register_entries [OF assms] queue_inv_def Let_def del: drop_append)
qed

lemma queue_inv_with_capacity: "with_capacity cap = Some q \<Longrightarrow> queue_inv q"
  by (auto simp: with_capacity_def queue_inv_def rebuild_index_def split: if_splits)

lemma is_valid_entries: "queue_inv q \<Longrightarrow> is_valid q h \<longleftrightarrow> h \<in> snd ` set (entries q)"
  unfolding is_valid_def queue_inv_def dom_rebuild_index [symmetric] by (simp add: domIff)

interpretation bq: recent_window register is_valid entries capacity queue_inv
proof unfold_locales
  show "queue_inv q \<Longrightarrow> h \<notin> snd ` set (entries q) \<Longrightarrow> queue_inv (register q s h)" for q h s
    by (rule queue_inv_register)
  show "queue_inv q \<Longrightarrow> length (entries q) \<le> capacity q" for q
    by (simp add: queue_inv_def)
qed (simp_all add: register_window is_valid_entries del: drop_append)


section \<open>Properties\<close>

text \<open>
  C40: The queue is exactly a window over the chain: after registering the hashes of a sequence
  of blocks with distinct hashes in a fresh queue, its entries are the last \<open>capacity\<close> of them,
  and a blockhash is valid if and only if it is one of those.
\<close>

theorem queue_is_recent_window:
  assumes "with_capacity cap = Some q" and "distinct (map snd hs)"
  shows "entries (register_all hs q) = drop (length hs - cap) hs
    \<and> (\<forall>h. is_valid (register_all hs q) h = (h \<in> snd ` set (drop (length hs - cap) hs)))"
proof -
  have q: "queue_inv q" "entries q = []" "capacity q = cap"
    using assms(1) queue_inv_with_capacity by (auto simp: with_capacity_def split: if_splits)
  have "entries (register_all hs q) = drop (length hs - cap) hs \<and> queue_inv (register_all hs q)"
    using bq.window_reg_all [of q hs] q assms(2) by (simp add: register_all_def)
  then show ?thesis by (simp add: is_valid_entries)
qed

theorem queue_is_recent_window_witness:
  "entries (register_all [(1, [1]), (2, [2]), (3, [3])]
      \<lparr> capacity = 2, entries = [], index = Map.empty \<rparr>) = drop (3 - 2) [(1, [1]), (2, [2]), (3, [3])]
    \<and> (\<forall>h. is_valid (register_all [(1, [1]), (2, [2]), (3, [3])]
        \<lparr> capacity = 2, entries = [], index = Map.empty \<rparr>) h
      = (h \<in> snd ` set (drop (3 - 2) [(1 :: u64, [1]), (2, [2]), (3, [3])])))"
  using queue_is_recent_window
    [of 2 "\<lparr> capacity = 2, entries = [], index = Map.empty \<rparr>" "[(1, [1]), (2, [2]), (3, [3])]"]
  by (simp add: with_capacity_def)

text \<open>
  Persisting a queue and loading it back gives the same queue, index included, for every
  codec that decodes what it encoded and every queue the operations can reach.
\<close>

theorem queue_bytes_roundtrip:
  assumes "de (ser (capacity q, entries q)) = Some (capacity q, entries q)" and "queue_inv q"
  shows "queue_from_bytes de (queue_to_bytes ser q) = Some q"
  using assms by (simp add: queue_from_bytes_def queue_to_bytes_def queue_inv_def)

theorem queue_bytes_roundtrip_witness:
  "queue_from_bytes (\<lambda>bs. Some (length bs, [(2, [2])])) (queue_to_bytes (\<lambda>x. replicate (fst x) 0)
      \<lparr> capacity = 1, entries = [(2, [2])], index = [[2] \<mapsto> 2] \<rparr>)
    = Some \<lparr> capacity = 1, entries = [(2, [2])], index = [[2] \<mapsto> 2] \<rparr>"
  by (rule queue_bytes_roundtrip) (simp_all add: queue_inv_def rebuild_index_def)

end
