(* ===== verification/Genesis.thy ===== *)
theory Genesis
  imports Hashing "HOL-Library.List_Lexorder" "HOL-Library.Multiset"
begin

text \<open>
  Genesis specification and node configuration: \<^verbatim>\<open>genesis.rs\<close> and \<^verbatim>\<open>config.rs\<close> of the
  \<^verbatim>\<open>zul-primitives\<close> crate. Parsing TOML is outside the model; what is modelled is the
  validation that runs on a parsed value, the supply and the genesis hash. A name is the
  list of its UTF-8 bytes; byte strings are ordered lexicographically, as byte arrays are.
\<close>

section \<open>genesis.rs\<close>

record allocation =
  alloc_pubkey :: pubkey
  alloc_lamports :: u64

record genesis_config =
  chain_name :: bytes
  creation_time_ms :: u64
  sequencer :: pubkey
  fee_collector :: pubkey
  allocations :: "allocation list"

datatype genesis_error =
  EmptyChainName | ZeroAllocation pubkey | DuplicateAllocation pubkey | SupplyOverflow

definition GENESIS_DOMAIN :: bytes where
  "GENESIS_DOMAIN = ascii ''PL2:genesis:v1''"

fun try_sum :: "u64 \<Rightarrow> allocation list \<Rightarrow> u64 option" where
  "try_sum acc [] = Some acc"
| "try_sum acc (a # as) =
    (case checked_add acc (alloc_lamports a) of None \<Rightarrow> None | Some acc' \<Rightarrow> try_sum acc' as)"

definition total_supply :: "genesis_config \<Rightarrow> u64 option" where
  "total_supply g = try_sum 0 (allocations g)"

fun check_allocations :: "pubkey set \<Rightarrow> allocation list \<Rightarrow> genesis_error option" where
  "check_allocations seen [] = None"
| "check_allocations seen (a # as) =
    (if alloc_lamports a = 0 then Some (ZeroAllocation (alloc_pubkey a))
     else if alloc_pubkey a \<in> seen then Some (DuplicateAllocation (alloc_pubkey a))
     else check_allocations (insert (alloc_pubkey a) seen) as)"

definition genesis_validate :: "genesis_config \<Rightarrow> genesis_error + unit" where
  "genesis_validate g =
    (if chain_name g = [] then Inl EmptyChainName
     else case check_allocations {} (allocations g) of Some e \<Rightarrow> Inl e
     | None \<Rightarrow> (case total_supply g of None \<Rightarrow> Inl SupplyOverflow | Some _ \<Rightarrow> Inr ()))"

definition genesis_segments :: "genesis_config \<Rightarrow> bytes list" where
  "genesis_segments g =
    [chain_name g, u64_le (creation_time_ms g), sequencer g, fee_collector g] @
    concat (map (\<lambda>a. [alloc_pubkey a, u64_le (alloc_lamports a)]) (sort_key alloc_pubkey (allocations g)))"

definition genesis_hash :: "hasher \<Rightarrow> genesis_config \<Rightarrow> h256" where
  "genesis_hash b3 g = blake3_concat b3 GENESIS_DOMAIN (genesis_segments g)"


section \<open>config.rs\<close>

datatype network = Testnet | Mainnet

record node_section =
  network :: network
  data_dir :: string
  genesis_path :: string
  sequencer_key_path :: string
  slot_duration_ms :: u64
  heartbeat_ms :: u64
  mempool_capacity :: nat
  cfg_max_per_payer :: nat

record rpc_section =
  http_addr :: string
  ws_addr :: string
  faucet_enabled :: bool
  faucet_max_lamports :: u64
  faucet_key_path :: "string option"
  metrics_addr :: "string option"

record l1_section =
  l1_enabled :: bool
  rpc_url :: string
  settlement_program_id :: string
  da_log_program_id :: string
  bridge_authority_key_path :: string
  batch_interval_slots :: u64
  gas_mint_str :: string

record node_config =
  cfg_node :: node_section
  cfg_rpc :: rpc_section
  cfg_l1 :: l1_section

definition default_l1_section :: l1_section where
  "default_l1_section = \<lparr> l1_enabled = False, rpc_url = [], settlement_program_id = [],
    da_log_program_id = [], bridge_authority_key_path = [], batch_interval_slots = 120,
    gas_mint_str = [] \<rparr>"

datatype config_error =
  ZeroSlotDuration | FaucetWithoutKey | FaucetOnMainnet | L1WithoutUrl | L1WithoutSettlement

definition config_validate :: "node_config \<Rightarrow> config_error + unit" where
  "config_validate c =
    (if slot_duration_ms (cfg_node c) = 0 then Inl ZeroSlotDuration
     else if faucet_enabled (cfg_rpc c) \<and> faucet_key_path (cfg_rpc c) = None then Inl FaucetWithoutKey
     else if network (cfg_node c) = Mainnet \<and> faucet_enabled (cfg_rpc c) then Inl FaucetOnMainnet
     else if l1_enabled (cfg_l1 c) then
       (if rpc_url (cfg_l1 c) = [] then Inl L1WithoutUrl
        else if settlement_program_id (cfg_l1 c) = [] then Inl L1WithoutSettlement
        else Inr ())
     else Inr ())"


section \<open>Lemmas\<close>

lemma try_sum_Some:
  "try_sum acc as = Some s
    \<longleftrightarrow> unat s = unat acc + (\<Sum>a\<leftarrow>as. unat (alloc_lamports a))"
proof (induction as arbitrary: acc)
  case Nil
  show ?case by (auto simp: unat_inj)
next
  case (Cons a as)
  show ?case
  proof (cases "checked_add acc (alloc_lamports a)")
    case None
    then have "2 ^ 64 \<le> unat acc + unat (alloc_lamports a)"
      by (simp add: checked_add_None)
    moreover have "unat s < 2 ^ 64" using unat_bound [of s] by simp
    ultimately show ?thesis using None by simp
  next
    case (Some c)
    then have "unat c = unat acc + unat (alloc_lamports a)"
      by (auto simp: checked_add_Some)
    with Some Cons show ?thesis by (simp add: add.assoc)
  qed
qed

lemma try_sum_None:
  "try_sum acc as = None \<longleftrightarrow> 2 ^ 64 \<le> unat acc + (\<Sum>a\<leftarrow>as. unat (alloc_lamports a))"
proof -
  let ?n = "unat acc + (\<Sum>a\<leftarrow>as. unat (alloc_lamports a))"
  show ?thesis
  proof (cases "?n < 2 ^ 64")
    case True
    then have "unat (of_nat ?n :: u64) = ?n" by (intro unat_of_nat_lt) simp
    then have "try_sum acc as = Some (of_nat ?n)" by (simp add: try_sum_Some)
    with True show ?thesis by simp
  next
    case False
    have "try_sum acc as \<noteq> Some s" for s
      using False unat_bound [of s] by (simp add: try_sum_Some)
    then have "try_sum acc as = None" by (cases "try_sum acc as") blast+
    with False show ?thesis by simp
  qed
qed

lemma check_allocations_None:
  "check_allocations seen as = None
    \<longleftrightarrow> (\<forall>a\<in>set as. alloc_lamports a \<noteq> 0) \<and> distinct (map alloc_pubkey as)
      \<and> alloc_pubkey ` set as \<inter> seen = {}"
  by (induction as arbitrary: seen) auto

definition alloc_bytes :: "allocation list \<Rightarrow> bytes" where
  "alloc_bytes as = concat (concat (map (\<lambda>a. [alloc_pubkey a, u64_le (alloc_lamports a)]) as))"

lemma alloc_bytes_simps [simp]:
  "alloc_bytes [] = []"
  "alloc_bytes (a # as) = alloc_pubkey a @ u64_le (alloc_lamports a) @ alloc_bytes as"
  by (simp_all add: alloc_bytes_def)

lemma length_alloc_bytes:
  "\<forall>a\<in>set as. length (alloc_pubkey a) = 32 \<Longrightarrow> length (alloc_bytes as) = 40 * length as"
  by (induction as) simp_all

lemma alloc_bytes_inj:
  assumes "\<forall>a\<in>set xs. length (alloc_pubkey a) = 32" and "\<forall>a\<in>set ys. length (alloc_pubkey a) = 32"
    and "alloc_bytes xs = alloc_bytes ys"
  shows "xs = ys"
proof -
  have "length xs = length ys"
    using length_alloc_bytes [OF assms(1)] length_alloc_bytes [OF assms(2)] assms(3) by simp
  then show ?thesis
    using assms
  proof (induction xs ys rule: list_induct2)
    case (Cons a xs b ys)
    then show ?case
      using append_eq_lengths [of "alloc_pubkey a" "alloc_pubkey b"] by simp
  qed simp
qed


section \<open>Properties\<close>

text \<open>
  Genesis validation accepts exactly the configurations with a name, no zero and no
  duplicate allocation, and a total supply below \<open>2^64\<close>; the supply of an accepted one is the
  exact sum of its allocations.
\<close>

theorem genesis_validate_ok_iff:
  "genesis_validate g = Inr () \<longleftrightarrow>
    chain_name g \<noteq> [] \<and> 0 \<notin> alloc_lamports ` set (allocations g)
    \<and> distinct (map alloc_pubkey (allocations g))
    \<and> (\<exists>s. total_supply g = Some s \<and> unat s = (\<Sum>a\<leftarrow>allocations g. unat (alloc_lamports a)))
    \<and> (\<Sum>a\<leftarrow>allocations g. unat (alloc_lamports a)) < 2 ^ 64"
proof -
  let ?n = "\<Sum>a\<leftarrow>allocations g. unat (alloc_lamports a)"
  have none: "total_supply g = None \<longleftrightarrow> \<not> ?n < 2 ^ 64"
    by (simp only: total_supply_def try_sum_None unsigned_0 add_0 not_less)
  have some: "(\<exists>s. total_supply g = Some s \<and> unat s = ?n) \<longleftrightarrow> total_supply g \<noteq> None"
    by (auto simp: total_supply_def try_sum_Some)
  have "genesis_validate g = Inr ()
      \<longleftrightarrow> chain_name g \<noteq> [] \<and> check_allocations {} (allocations g) = None \<and> total_supply g \<noteq> None"
    by (auto simp: genesis_validate_def split: option.splits)
  then show ?thesis
    unfolding some check_allocations_None using none by (auto simp: image_iff)
qed

text \<open>
  The genesis hash identifies the chain: it does not depend on the order of the
  allocations, and two configurations whose names have equal length and whose keys have 32
  bytes have the same hash only if they agree in every field, up to the order of the
  allocations, or blake3 collides on their two encodings.
\<close>

theorem genesis_hash_identifies:
  assumes "length (chain_name g) = length (chain_name h)"
    and "\<forall>k\<in>{sequencer g, fee_collector g, sequencer h, fee_collector h}
      \<union> alloc_pubkey ` (set (allocations g) \<union> set (allocations h)). length k = 32"
    and "distinct (map alloc_pubkey (allocations g))" and "distinct (map alloc_pubkey (allocations h))"
    and "inj_on b3 {GENESIS_DOMAIN @ concat (genesis_segments g), GENESIS_DOMAIN @ concat (genesis_segments h)}"
  shows "genesis_hash b3 g = genesis_hash b3 h \<longleftrightarrow>
    chain_name g = chain_name h \<and> creation_time_ms g = creation_time_ms h
    \<and> sequencer g = sequencer h \<and> fee_collector g = fee_collector h
    \<and> mset (allocations g) = mset (allocations h)"
proof -
  let ?s = "\<lambda>g. sort_key alloc_pubkey (allocations g)"
  have "genesis_hash b3 g = genesis_hash b3 h \<longleftrightarrow> concat (genesis_segments g) = concat (genesis_segments h)"
    using assms(5) by (auto simp: genesis_hash_def blake3_concat_def dest: inj_onD)
  also have "\<dots> \<longleftrightarrow> chain_name g = chain_name h \<and> creation_time_ms g = creation_time_ms h
      \<and> sequencer g = sequencer h \<and> fee_collector g = fee_collector h \<and> alloc_bytes (?s g) = alloc_bytes (?s h)"
    using assms(1,2) by (simp add: genesis_segments_def alloc_bytes_def)
  also have "alloc_bytes (?s g) = alloc_bytes (?s h) \<longleftrightarrow> ?s g = ?s h"
    using alloc_bytes_inj [of "?s g" "?s h"] assms(2) by auto
  also have "?s g = ?s h \<longleftrightarrow> mset (allocations g) = mset (allocations h)"
  proof
    assume "?s g = ?s h"
    then show "mset (allocations g) = mset (allocations h)" by (metis mset_sort)
  next
    assume m: "mset (allocations g) = mset (allocations h)"
    have "inj_on alloc_pubkey (set (allocations g))"
      using assms(3) by (simp add: distinct_map)
    moreover have "mset (allocations g) = mset (?s h)" using m by simp
    ultimately show "?s g = ?s h"
      by (intro sort_key_inj_key_eq) simp_all
  qed
  finally show ?thesis .
qed

definition sample_genesis :: genesis_config where
  "sample_genesis = \<lparr> chain_name = [122], creation_time_ms = 1, sequencer = replicate 32 1,
    fee_collector = replicate 32 2, allocations = [\<lparr> alloc_pubkey = replicate 32 3, alloc_lamports = 9 \<rparr>] \<rparr>"

theorem genesis_hash_identifies_witness:
  "genesis_hash pad_hash sample_genesis = genesis_hash pad_hash sample_genesis \<longleftrightarrow>
    chain_name sample_genesis = chain_name sample_genesis
    \<and> creation_time_ms sample_genesis = creation_time_ms sample_genesis
    \<and> sequencer sample_genesis = sequencer sample_genesis
    \<and> fee_collector sample_genesis = fee_collector sample_genesis
    \<and> mset (allocations sample_genesis) = mset (allocations sample_genesis)"
  by (rule genesis_hash_identifies) (simp_all add: sample_genesis_def)

text \<open>
  A configuration that passes validation never runs a faucet on mainnet and never a
  faucet without a key, has a positive slot duration, and names an endpoint and a settlement
  program whenever the L1 side is enabled; conversely such a configuration passes.
\<close>

theorem config_validate_ok_iff:
  "config_validate c = Inr () \<longleftrightarrow>
    slot_duration_ms (cfg_node c) \<noteq> 0
    \<and> \<not> (faucet_enabled (cfg_rpc c) \<and> (network (cfg_node c) = Mainnet \<or> faucet_key_path (cfg_rpc c) = None))
    \<and> \<not> (l1_enabled (cfg_l1 c) \<and> (rpc_url (cfg_l1 c) = [] \<or> settlement_program_id (cfg_l1 c) = []))"
  by (auto simp: config_validate_def)

end
