(* ===== verification/Store.thy ===== *)
theory Store
  imports State_Smt Block Blockhash_Queue Genesis "HOL-Library.RBT"
begin


text \<open>
  Accounts and the persistent store: \<^verbatim>\<open>account.rs\<close> and \<^verbatim>\<open>store.rs\<close> of \<^verbatim>\<open>zul-store\<close>. The
  database is a record with one field per table and one per metadata key. A table whose
  order the code iterates in is an ordered map; a table the code only looks up is a map. Rows
  hold the decoded values: the bincode codec and the failures of the database are outside the
  model, so the errors left are the violated invariants the code itself detects. A write
  transaction that returns early is dropped, which leaves the store as it was; commits are
  atomic, so an operation is a function from the store to an error or a new store.
\<close>

unbundle bit_operations_syntax

section \<open>account.rs\<close>

definition ACCOUNT_DOMAIN :: bytes where
  "ACCOUNT_DOMAIN = ascii ''PL2:account:v1''"

definition RENT_EXEMPT_RENT_EPOCH :: u64 where
  "RENT_EXEMPT_RENT_EPOCH = - 1"

definition SYSTEM_PROGRAM_ID :: pubkey where
  "SYSTEM_PROGRAM_ID = replicate 32 0"

record stored_account =
  lamports :: u64
  data :: bytes
  owner :: pubkey
  executable :: bool
  rent_epoch :: u64

definition new_system :: "u64 \<Rightarrow> stored_account" where
  "new_system l = \<lparr> lamports = l, data = [], owner = SYSTEM_PROGRAM_ID, executable = False,
    rent_epoch = RENT_EXEMPT_RENT_EPOCH \<rparr>"

definition account_preimage :: "pubkey \<Rightarrow> stored_account \<Rightarrow> bytes list" where
  "account_preimage pubkey a =
    [pubkey, u64_le (lamports a), owner a, [if executable a then 1 else 0], u64_le (rent_epoch a),
     u64_le (of_nat (length (data a))), data a]"

definition account_hash :: "hasher \<Rightarrow> pubkey \<Rightarrow> stored_account \<Rightarrow> h256" where
  "account_hash b3 pubkey a = blake3_concat b3 ACCOUNT_DOMAIN (account_preimage pubkey a)"


section \<open>store.rs: tables and reads\<close>

record tx_locator =
  loc_slot :: u64
  loc_index :: u32

record 'e store =
  accounts :: "(pubkey, stored_account) rbt"
  blocks :: "(u64, block) rbt"
  tx_loc :: "sigbytes \<rightharpoonup> tx_locator"
  tx_meta :: "sigbytes \<rightharpoonup> 'e executed_meta"
  addr_sigs :: "(bytes, sigbytes) rbt"
  smt_nodes :: node_source
  nullifiers :: "bytes \<rightharpoonup> u64"
  meta_genesis_hash :: "h256 option"
  meta_state_root :: "h256 option"
  meta_latest_slot :: "u64 option"
  meta_blockhash_queue :: "(nat \<times> (u64 \<times> h256) list) option"
  meta_withdrawals_root :: "h256 option"

definition store_open :: "'e store" where
  "store_open = \<lparr> accounts = RBT.empty, blocks = RBT.empty, tx_loc = Map.empty, tx_meta = Map.empty,
    addr_sigs = RBT.empty, smt_nodes = Map.empty, nullifiers = Map.empty, meta_genesis_hash = None,
    meta_state_root = None, meta_latest_slot = None, meta_blockhash_queue = None,
    meta_withdrawals_root = None \<rparr>"

datatype store_error =
  DifferentGenesis | NoStateRoot | MetasMismatch | StateRootMismatch | NonMonotonicSlot
  | TxWithoutSignature | LocatorWithoutMeta | MissingBlock | IndexOutOfRange

definition addr_sig_key :: "pubkey \<Rightarrow> u64 \<Rightarrow> u32 \<Rightarrow> bytes" where
  "addr_sig_key pubkey sl ix =
    splice 40 (u32_be (NOT ix)) (splice 32 (u64_be (NOT sl)) (splice 0 pubkey (replicate 44 0)))"

definition is_nullifier_spent :: "'e store \<Rightarrow> bytes \<Rightarrow> bool" where
  "is_nullifier_spent s nullifier \<longleftrightarrow> nullifiers s nullifier \<noteq> None"

definition load_blockhash_queue :: "'e store \<Rightarrow> blockhash_queue option" where
  "load_blockhash_queue s = map_option
    (\<lambda>(cap, es). \<lparr> capacity = cap, entries = es, index = rebuild_index es \<rparr>) (meta_blockhash_queue s)"

definition withdrawals_root :: "'e store \<Rightarrow> h256" where
  "withdrawals_root s = (case meta_withdrawals_root s of Some r \<Rightarrow> r | None \<Rightarrow> replicate 32 0)"

definition set_withdrawals_root :: "'e store \<Rightarrow> h256 \<Rightarrow> 'e store" where
  "set_withdrawals_root s root = s\<lparr> meta_withdrawals_root := Some root \<rparr>"

definition get_account :: "'e store \<Rightarrow> pubkey \<Rightarrow> stored_account option" where
  "get_account s pubkey = RBT.lookup (accounts s) pubkey"

text \<open>
  The loops that push a row and then stop when the output has reached the limit: at least one
  row comes out when there is one.
\<close>

fun push_until :: "nat \<Rightarrow> 'a list \<Rightarrow> 'a list \<Rightarrow> 'a list" where
  "push_until limit [] out = out"
| "push_until limit (x # xs) out =
    (let out = out @ [x] in if length out \<ge> limit then out else push_until limit xs out)"

definition scan_accounts_by_owner ::
  "'e store \<Rightarrow> pubkey \<Rightarrow> nat \<Rightarrow> (pubkey \<times> stored_account) list" where
  "scan_accounts_by_owner s own limit =
    push_until limit (List.filter (\<lambda>(k, a). owner a = own) (RBT.entries (accounts s))) []"

definition prepare_state_update :: "hasher \<Rightarrow> 'e store \<Rightarrow> leaf_update list \<Rightarrow> state_update" where
  "prepare_state_update b3 s updates = apply_updates b3 (smt_nodes s) updates"

definition prove_account :: "hasher \<Rightarrow> 'e store \<Rightarrow> pubkey \<Rightarrow> stored_account option \<times> smt_proof" where
  "prove_account b3 s pubkey = (get_account s pubkey, smt_prove b3 (smt_nodes s) pubkey)"

definition get_block :: "'e store \<Rightarrow> u64 \<Rightarrow> block option" where
  "get_block s sl = RBT.lookup (blocks s) sl"

definition block_slots_in_range :: "'e store \<Rightarrow> u64 \<Rightarrow> u64 \<Rightarrow> nat \<Rightarrow> u64 list" where
  "block_slots_in_range s lo hi limit =
    push_until limit (List.filter (\<lambda>k. lo \<le> k \<and> k \<le> hi) (map fst (RBT.entries (blocks s)))) []"

definition get_transaction ::
  "'e store \<Rightarrow> sigbytes \<Rightarrow> store_error + (tx_locator \<times> transaction \<times> 'e executed_meta) option" where
  "get_transaction s sig =
    (case tx_loc s sig of None \<Rightarrow> Inr None
     | Some locator \<Rightarrow>
    (case tx_meta s sig of None \<Rightarrow> Inl LocatorWithoutMeta
     | Some m \<Rightarrow>
    (case RBT.lookup (blocks s) (loc_slot locator) of None \<Rightarrow> Inl MissingBlock
     | Some b \<Rightarrow>
    (case get_at (transactions b) (unat (loc_index locator)) of None \<Rightarrow> Inl IndexOutOfRange
     | Some tx \<Rightarrow> Inr (Some (locator, tx, m))))))"

definition signatures_for_address ::
  "'e store \<Rightarrow> pubkey \<Rightarrow> (u64 \<times> u32) option \<Rightarrow> nat \<Rightarrow> (sigbytes \<times> u64 \<times> u32) list" where
  "signatures_for_address s address before limit =
    (let start = (case before of Some (sl, ix) \<Rightarrow> addr_sig_key address sl ix
                  | None \<Rightarrow> splice 0 address (replicate 44 0));
         stop = splice 0 address (replicate 44 0xff);
         rows = List.filter (\<lambda>(k, v). start < k \<and> k \<le> stop) (RBT.entries (addr_sigs s))
     in push_until limit
          (map (\<lambda>(k, v). (v, NOT (u64_of_be (take 8 (drop 32 k))), NOT (u32_of_be (take 4 (drop 40 k))))) rows)
          [])"


section \<open>store.rs: writes\<close>

definition write_smt_nodes :: "hasher \<Rightarrow> node_source \<Rightarrow> state_update \<Rightarrow> node_source" where
  "write_smt_nodes b3 table update =
    (\<lambda>key. case node_writes update key of None \<Rightarrow> table key
       | Some value \<Rightarrow>
         (let depth = unat (u16_of_be (take 2 key))
          in if value = smt_empty_hashes b3 ! depth then None else Some value))"

type_synonym account_write = "pubkey \<times> stored_account option"

definition write_account ::
  "account_write \<Rightarrow> (pubkey, stored_account) rbt \<Rightarrow> (pubkey, stored_account) rbt" where
  "write_account w t = (case w of (pubkey, account) \<Rightarrow>
    (case account of Some acc \<Rightarrow> RBT.insert pubkey acc t | None \<Rightarrow> RBT.delete pubkey t))"

definition leaf_updates :: "hasher \<Rightarrow> account_write list \<Rightarrow> leaf_update list" where
  "leaf_updates b3 ws = map (\<lambda>(pk, a). (pk, map_option (account_hash b3 pk) a)) ws"

definition genesis_writes :: "genesis_config \<Rightarrow> (pubkey \<times> stored_account) list \<Rightarrow> account_write list" where
  "genesis_writes g extra_accounts =
    map (\<lambda>a. (alloc_pubkey a, Some (new_system (alloc_lamports a)))) (allocations g)
    @ map (\<lambda>(pk, a). (pk, Some a)) extra_accounts"

definition initialize_genesis ::
  "hasher \<Rightarrow> 'e store \<Rightarrow> genesis_config \<Rightarrow> (pubkey \<times> stored_account) list \<Rightarrow> store_error + ('e store \<times> h256)" where
  "initialize_genesis b3 s g extra_accounts =
    (let expected = genesis_hash b3 g
     in case meta_genesis_hash s of
       Some existing \<Rightarrow>
         (if existing \<noteq> expected then Inl DifferentGenesis
          else case meta_state_root s of None \<Rightarrow> Inl NoStateRoot | Some root \<Rightarrow> Inr (s, root))
     | None \<Rightarrow>
         (let account_writes = genesis_writes g extra_accounts;
              update = prepare_state_update b3 s (leaf_updates b3 account_writes)
          in Inr (s\<lparr> accounts := fold write_account account_writes (accounts s),
                     smt_nodes := write_smt_nodes b3 (smt_nodes s) update,
                     meta_genesis_hash := Some expected,
                     meta_state_root := Some (new_root update) \<rparr>,
                  new_root update)))"

text \<open>The index rows of one transaction, and the loop over the block; \<open>None\<close> is the early error.\<close>

definition index_one ::
  "u64 \<Rightarrow> nat \<Rightarrow> transaction \<Rightarrow> 'e executed_meta \<Rightarrow> sigbytes \<Rightarrow> 'e store \<Rightarrow> 'e store" where
  "index_one sl i tx m sig s =
    s\<lparr> tx_loc := (tx_loc s)(sig \<mapsto> \<lparr> loc_slot = sl, loc_index = of_nat i \<rparr>),
       tx_meta := (tx_meta s)(sig \<mapsto> m),
       addr_sigs := fold (\<lambda>address t. RBT.insert (addr_sig_key address sl (of_nat i)) sig t)
                      (account_keys tx) (addr_sigs s) \<rparr>"

fun index_transactions ::
  "u64 \<Rightarrow> nat \<Rightarrow> (transaction \<times> 'e executed_meta) list \<Rightarrow> 'e store \<Rightarrow> 'e store option" where
  "index_transactions sl i [] s = Some s"
| "index_transactions sl i ((tx, m) # rest) s =
    (case first (signatures tx) of None \<Rightarrow> None
     | Some sig \<Rightarrow> index_transactions sl (Suc i) rest (index_one sl i tx m sig s))"

definition commit_block ::
  "hasher \<Rightarrow> 'e store \<Rightarrow> block \<Rightarrow> 'e executed_meta list \<Rightarrow> account_write list \<Rightarrow> state_update
    \<Rightarrow> blockhash_queue \<Rightarrow> bytes list \<Rightarrow> store_error + 'e store" where
  "commit_block b3 s b metas account_writes update q nulls =
    (let sl = slot (header b)
     in if length metas \<noteq> length (transactions b) then Inl MetasMismatch
        else if state_root (header b) \<noteq> new_root update then Inl StateRootMismatch
        else if (case meta_latest_slot s of Some prev \<Rightarrow> sl \<le> prev | None \<Rightarrow> False)
        then Inl NonMonotonicSlot
        else
          (let s1 = s\<lparr> accounts := fold write_account account_writes (accounts s),
                       smt_nodes := write_smt_nodes b3 (smt_nodes s) update,
                       blocks := RBT.insert sl b (blocks s) \<rparr>
           in case index_transactions sl 0 (zip (transactions b) metas) s1 of
                None \<Rightarrow> Inl TxWithoutSignature
              | Some s2 \<Rightarrow>
                  Inr (s2\<lparr> nullifiers := fold (\<lambda>n t. t(n \<mapsto> sl)) nulls (nullifiers s2),
                           meta_latest_slot := Some sl,
                           meta_state_root := Some (new_root update),
                           meta_blockhash_queue := Some (capacity q, entries q) \<rparr>)))"


section \<open>Invariants and samples\<close>

text \<open>
  What the tree must say about the accounts in \<open>K\<close>: the leaf at each of their positions is the
  hash of the stored account, or empty when there is none.
\<close>

definition accounts_agree :: "hasher \<Rightarrow> pubkey set \<Rightarrow> 'e store \<Rightarrow> (bool list \<Rightarrow> h256) \<Rightarrow> bool" where
  "accounts_agree b3 K s L \<longleftrightarrow> (\<forall>pk\<in>K.
    L (path_bits b3 pk) = leaf_value b3 (pk, map_option (account_hash b3 pk) (get_account s pk)))"

text \<open>
  The stores a node can get to when all accounts it writes are in \<open>K\<close>: from an empty database,
  by initialising genesis, by committing blocks whose state update was prepared on the store,
  and by recording withdrawal roots. Account keys have 32 bytes, and a block has at most
  \<open>2^32\<close> transactions.
\<close>

definition wf_body :: "block \<Rightarrow> bool" where
  "wf_body b \<longleftrightarrow> length (transactions b) \<le> 2 ^ 32
    \<and> (\<forall>tx\<in>set (transactions b). \<forall>k\<in>set (account_keys tx). length k = 32)"

inductive reachable :: "hasher \<Rightarrow> pubkey set \<Rightarrow> 'e store \<Rightarrow> bool" for b3 K where
  opened: "reachable b3 K store_open"
| genesis: "reachable b3 K s \<Longrightarrow> fst ` set (genesis_writes g extra) \<subseteq> K \<Longrightarrow>
    initialize_genesis b3 s g extra = Inr (s', root) \<Longrightarrow> reachable b3 K s'"
| commit: "reachable b3 K s \<Longrightarrow> fst ` set ws \<subseteq> K \<Longrightarrow> wf_body b \<Longrightarrow>
    commit_block b3 s b metas ws (prepare_state_update b3 s (leaf_updates b3 ws)) q nulls = Inr s' \<Longrightarrow>
    reachable b3 K s'"
| root: "reachable b3 K s \<Longrightarrow> reachable b3 K (set_withdrawals_root s r)"

definition state_ok :: "hasher \<Rightarrow> pubkey set \<Rightarrow> 'e store \<Rightarrow> (bool list \<Rightarrow> h256) \<Rightarrow> bool" where
  "state_ok b3 K s L \<longleftrightarrow> state_rep b3 (smt_nodes s) L \<and> accounts_agree b3 K s L
    \<and> (\<forall>r. meta_state_root s = Some r \<longrightarrow> r = tree_root b3 L)"

definition loc_ok :: "'e store \<Rightarrow> bool" where
  "loc_ok s \<longleftrightarrow> (\<forall>sig loc. tx_loc s sig = Some loc \<longrightarrow>
    tx_meta s sig \<noteq> None \<and> (\<exists>b. RBT.lookup (blocks s) (loc_slot loc) = Some b
      \<and> unat (loc_index loc) < length (transactions b)
      \<and> first (signatures (transactions b ! unat (loc_index loc))) = Some sig))"

definition slots_ok :: "'e store \<Rightarrow> bool" where
  "slots_ok s \<longleftrightarrow> (\<forall>sl b. RBT.lookup (blocks s) sl = Some b \<longrightarrow>
    slot (header b) = sl \<and> (\<exists>l. meta_latest_slot s = Some l \<and> sl \<le> l))"

definition addr_keys_ok :: "'e store \<Rightarrow> bool" where
  "addr_keys_ok s \<longleftrightarrow> (\<forall>k v. RBT.lookup (addr_sigs s) k = Some v \<longrightarrow>
    (\<exists>pk sl ix. length pk = 32 \<and> k = addr_sig_key pk sl ix))"

definition older :: "(u64 \<times> u32) option \<Rightarrow> u64 \<Rightarrow> u32 \<Rightarrow> bool" where
  "older before sl ix = (case before of None \<Rightarrow> (sl, ix) \<noteq> (- 1, - 1)
    | Some (sl0, ix0) \<Rightarrow> sl < sl0 \<or> sl = sl0 \<and> ix < ix0)"

definition newer :: "sigbytes \<times> u64 \<times> u32 \<Rightarrow> sigbytes \<times> u64 \<times> u32 \<Rightarrow> bool" where
  "newer x y \<longleftrightarrow> (case x of (_, sl, ix) \<Rightarrow> case y of (_, sl', ix') \<Rightarrow> sl' < sl \<or> sl' = sl \<and> ix' < ix)"

definition sample_store :: "unit store" where
  "sample_store = fst (projr (initialize_genesis pad_hash store_open sample_genesis []))"

definition sample_meta :: "unit executed_meta" where
  "sample_meta = \<lparr> status = None, fee = 5000, compute_units_consumed = 0, log_messages = [],
    pre_balances = [], post_balances = [] \<rparr>"

definition sample_block :: block where
  "sample_block = \<lparr> header = sample_header\<lparr> state_root := new_root (prepare_state_update pad_hash
      (store_open :: unit store) []) \<rparr>, transactions = [sample_tx], sequencer_signature = [] \<rparr>"

definition sample_queue :: blockhash_queue where
  "sample_queue = \<lparr> capacity = 1, entries = [], index = Map.empty \<rparr>"

definition sample_committed :: "unit store" where
  "sample_committed = projr (commit_block pad_hash store_open sample_block [sample_meta] []
    (prepare_state_update pad_hash (store_open :: unit store) []) sample_queue [[4]])"


section \<open>Lemmas: the state tree of the store\<close>

lemma node_key_depth:
  assumes "length p = 32" and "d \<le> SMT_DEPTH"
  shows "unat (u16_of_be (take 2 (node_key d p))) = d"
proof -
  have d: "d \<le> 256" using assms(2) by (simp add: SMT_DEPTH_def)
  then have "take 2 (node_key d p) = u16_be (of_nat d)"
    using assms(1) by (simp add: node_key_masked)
  then show ?thesis
    using d by (simp add: unat_of_nat_lt)
qed

lemma write_smt_nodes_rep:
  assumes "state_rep b3 (nodes ++ node_writes u) L"
  shows "state_rep b3 (write_smt_nodes b3 nodes u) L"
proof -
  have "node_at node_key (\<lambda>d. smt_empty_hashes b3 ! d) (write_smt_nodes b3 nodes u) d p
      = node_at node_key (\<lambda>d. smt_empty_hashes b3 ! d) (nodes ++ node_writes u) d p"
    if "d \<le> SMT_DEPTH" "length p = 32" for d p
    using node_key_depth [OF that(2,1)]
    by (auto simp: node_at_def write_smt_nodes_def map_add_def Let_def split: option.splits)
  then show ?thesis
    using assms state_tree.rep_cong [of b3 "write_smt_nodes b3 nodes u" "nodes ++ node_writes u" L]
    by (simp add: state_rep_def)
qed

lemma masked_full: "length p = 32 \<Longrightarrow> masked 256 p = p"
  by (intro nth_equalityI) (simp_all add: masked_def)

lemma path_bits_inj:
  assumes "digest32 b3"
  shows "path_bits b3 a = path_bits b3 b \<longleftrightarrow> key_path b3 a = key_path b3 b"
  using masked_eq_iff [of 256 "key_path b3 a" "key_path b3 b"] assms
  by (simp add: path_bits_def path_prefix_eq_iff SMT_DEPTH_def masked_full)

lemma lookup_write_account [simp]:
  "RBT.lookup (write_account w t) = (RBT.lookup t)(fst w := snd w)"
  by (cases w) (simp add: write_account_def fun_eq_iff split: option.splits)

lemma write_accounts_agree:
  assumes "digest32 b3" and "inj_on (key_path b3) K" and "fst ` set ws \<subseteq> K"
    and "\<forall>pk\<in>K. L (path_bits b3 pk)
      = leaf_value b3 (pk, map_option (account_hash b3 pk) (RBT.lookup t pk))"
  shows "\<forall>pk\<in>K. set_leaves b3 (leaf_updates b3 ws) L (path_bits b3 pk)
    = leaf_value b3 (pk, map_option (account_hash b3 pk) (RBT.lookup (fold write_account ws t) pk))"
  using assms(3,4)
proof (induction ws arbitrary: t L)
  case Nil
  then show ?case by (simp add: set_leaves_def leaf_updates_def)
next
  case (Cons w ws)
  obtain wk wa where w: "w = (wk, wa)" by (cases w)
  let ?L = "set_leaf b3 (wk, map_option (account_hash b3 wk) wa) L"
  have "\<forall>pk\<in>K. ?L (path_bits b3 pk)
      = leaf_value b3 (pk, map_option (account_hash b3 pk) (RBT.lookup (write_account w t) pk))"
    using Cons.prems assms(1,2) by (auto simp: w set_leaf_def path_bits_inj dest: inj_onD)
  from Cons.IH [OF _ this] Cons.prems show ?case
    by (simp add: w set_leaves_def leaf_updates_def)
qed

lemma index_one_other [simp]:
  "accounts (index_one sl i tx m sig s) = accounts s"
  "smt_nodes (index_one sl i tx m sig s) = smt_nodes s"
  "blocks (index_one sl i tx m sig s) = blocks s"
  "nullifiers (index_one sl i tx m sig s) = nullifiers s"
  "meta_genesis_hash (index_one sl i tx m sig s) = meta_genesis_hash s"
  "meta_withdrawals_root (index_one sl i tx m sig s) = meta_withdrawals_root s"
  by (simp_all add: index_one_def)

lemma index_transactions_other:
  assumes "index_transactions sl i ps s = Some s'"
  shows "accounts s' = accounts s" "smt_nodes s' = smt_nodes s" "blocks s' = blocks s"
    "nullifiers s' = nullifiers s" "meta_genesis_hash s' = meta_genesis_hash s"
    "meta_withdrawals_root s' = meta_withdrawals_root s"
  using assms
  by (induction sl i ps s rule: index_transactions.induct) (auto split: option.splits)

text \<open>What a successful commit did.\<close>

lemma commit_block_Inr:
  assumes "commit_block b3 s b metas ws u q nulls = Inr s'"
  obtains s2 where "length metas = length (transactions b)" and "state_root (header b) = new_root u"
    and "\<forall>l. meta_latest_slot s = Some l \<longrightarrow> l < slot (header b)"
    and "index_transactions (slot (header b)) 0 (zip (transactions b) metas)
      (s\<lparr> accounts := fold write_account ws (accounts s),
          smt_nodes := write_smt_nodes b3 (smt_nodes s) u,
          blocks := RBT.insert (slot (header b)) b (blocks s) \<rparr>) = Some s2"
    and "s' = s2\<lparr> nullifiers := fold (\<lambda>n t. t(n \<mapsto> slot (header b))) nulls (nullifiers s2),
      meta_latest_slot := Some (slot (header b)), meta_state_root := Some (new_root u),
      meta_blockhash_queue := Some (capacity q, entries q) \<rparr>"
  using assms
  by (auto simp: commit_block_def Let_def not_le split: if_splits option.splits)

lemma commit_block_fields:
  assumes "commit_block b3 s b metas ws u q nulls = Inr s'"
  shows "accounts s' = fold write_account ws (accounts s)"
    "smt_nodes s' = write_smt_nodes b3 (smt_nodes s) u"
    "blocks s' = RBT.insert (slot (header b)) b (blocks s)"
    "nullifiers s' = fold (\<lambda>n t. t(n \<mapsto> slot (header b))) nulls (nullifiers s)"
    "meta_state_root s' = Some (state_root (header b))"
    "meta_latest_slot s' = Some (slot (header b))"
    "meta_genesis_hash s' = meta_genesis_hash s"
    "meta_blockhash_queue s' = Some (capacity q, entries q)"
    "new_root u = state_root (header b)"
proof -
  obtain s2 where "length metas = length (transactions b)" and "state_root (header b) = new_root u"
    and "\<forall>l. meta_latest_slot s = Some l \<longrightarrow> l < slot (header b)"
    and i: "index_transactions (slot (header b)) 0 (zip (transactions b) metas)
      (s\<lparr> accounts := fold write_account ws (accounts s),
          smt_nodes := write_smt_nodes b3 (smt_nodes s) u,
          blocks := RBT.insert (slot (header b)) b (blocks s) \<rparr>) = Some s2"
    and "s' = s2\<lparr> nullifiers := fold (\<lambda>n t. t(n \<mapsto> slot (header b))) nulls (nullifiers s2),
      meta_latest_slot := Some (slot (header b)), meta_state_root := Some (new_root u),
      meta_blockhash_queue := Some (capacity q, entries q) \<rparr>"
    using assms by (rule commit_block_Inr)
  with index_transactions_other [OF i] show "accounts s' = fold write_account ws (accounts s)"
    "smt_nodes s' = write_smt_nodes b3 (smt_nodes s) u"
    "blocks s' = RBT.insert (slot (header b)) b (blocks s)"
    "nullifiers s' = fold (\<lambda>n t. t(n \<mapsto> slot (header b))) nulls (nullifiers s)"
    "meta_state_root s' = Some (state_root (header b))"
    "meta_latest_slot s' = Some (slot (header b))"
    "meta_genesis_hash s' = meta_genesis_hash s"
    "meta_blockhash_queue s' = Some (capacity q, entries q)"
    "new_root u = state_root (header b)"
    by simp_all
qed

lemma state_ok_writes:
  assumes "digest32 b3" and "inj_on (key_path b3) K" and "fst ` set ws \<subseteq> K" and "state_ok b3 K s L"
    and "u = prepare_state_update b3 s (leaf_updates b3 ws)"
    and "accounts s' = fold write_account ws (accounts s)"
    and "smt_nodes s' = write_smt_nodes b3 (smt_nodes s) u" and "meta_state_root s' = Some (new_root u)"
  shows "state_ok b3 K s' (set_leaves b3 (leaf_updates b3 ws) L)"
proof -
  note u = assms(5) [unfolded prepare_state_update_def]
  have rep: "state_rep b3 (smt_nodes s) L" using assms(4) by (simp add: state_ok_def)
  note ref = apply_updates_refine [OF assms(1) rep, of "leaf_updates b3 ws", folded u]
  have "accounts_agree b3 K s' (set_leaves b3 (leaf_updates b3 ws) L)"
    using write_accounts_agree [OF assms(1-3), of L "accounts s"] assms(4)
    by (simp add: accounts_agree_def state_ok_def get_account_def assms(6))
  then show ?thesis
    using write_smt_nodes_rep [OF ref(1)] ref(2) by (simp add: state_ok_def assms(7,8))
qed

lemma reachable_state_ok:
  assumes "reachable b3 K s" and "digest32 b3" and "inj_on (key_path b3) K"
  shows "\<exists>L. state_ok b3 K s L"
  using assms(1)
proof induction
  case opened
  show ?case
    using state_rep_empty [of b3]
    by (intro exI [of _ "empty_leaves b3"])
      (simp add: state_ok_def store_open_def accounts_agree_def get_account_def empty_leaves_def leaf_value_def)
next
  case (genesis s g extra s' root)
  then obtain L where L: "state_ok b3 K s L" by blast
  show ?case
  proof (cases "meta_genesis_hash s")
    case None
    have "state_ok b3 K s' (set_leaves b3 (leaf_updates b3 (genesis_writes g extra)) L)"
      by (rule state_ok_writes [OF assms(2,3) genesis.hyps(2) L refl])
        (use genesis.hyps(3) None in \<open>auto simp: initialize_genesis_def Let_def\<close>)
    then show ?thesis by blast
  next
    case (Some h)
    then have "s' = s"
      using genesis.hyps(3) by (auto simp: initialize_genesis_def split: if_splits option.splits)
    with L show ?thesis by blast
  qed
next
  case (commit s ws b metas q nulls s')
  then obtain L where L: "state_ok b3 K s L" by blast
  note f = commit_block_fields [OF commit.hyps(4)]
  have "state_ok b3 K s' (set_leaves b3 (leaf_updates b3 ws) L)"
    by (rule state_ok_writes [OF assms(2,3) commit.hyps(2) L refl f(1,2)]) (simp add: f(5,9))
  then show ?case by blast
next
  case (root s r)
  then show ?case
    by (auto simp: state_ok_def set_withdrawals_root_def accounts_agree_def get_account_def)
qed


section \<open>Lemmas: blocks and the transaction index\<close>

lemma index_one_loc_ok:
  assumes "loc_ok s" and "RBT.lookup (blocks s) sl = Some b" and "i < length (transactions b)"
    and "length (transactions b) \<le> 2 ^ 32" and "first (signatures (transactions b ! i)) = Some sig"
  shows "loc_ok (index_one sl i tx m sig s)"
proof -
  have "unat (of_nat i :: u32) = i"
    using assms(3,4) by (intro unat_of_nat_lt) simp
  with assms show ?thesis
    by (auto simp: loc_ok_def index_one_def)
qed

lemma index_transactions_loc_ok:
  assumes "loc_ok s" and "RBT.lookup (blocks s) sl = Some b" and "length (transactions b) \<le> 2 ^ 32"
    and "map fst ps = drop i (transactions b)" and "index_transactions sl i ps s = Some s'"
  shows "loc_ok s'"
  using assms
proof (induction ps arbitrary: i s)
  case Nil
  then show ?case by simp
next
  case (Cons p ps)
  obtain tx m where p: "p = (tx, m)" by (cases p)
  have i: "i < length (transactions b)"
    using Cons.prems(4) by (cases "i < length (transactions b)") simp_all
  have tx: "transactions b ! i = tx" and rest: "map fst ps = drop (Suc i) (transactions b)"
    using Cons.prems(4) i by (simp_all add: p Cons_nth_drop_Suc [symmetric])
  obtain sig where sig: "first (signatures tx) = Some sig"
    and step: "index_transactions sl (Suc i) ps (index_one sl i tx m sig s) = Some s'"
    using Cons.prems(5) by (auto simp: p split: option.splits)
  have "loc_ok (index_one sl i tx m sig s)"
    by (rule index_one_loc_ok [OF Cons.prems(1,2) i Cons.prems(3)]) (simp only: tx sig)
  then show ?case
    by (rule Cons.IH [OF _ _ Cons.prems(3) rest step]) (simp add: Cons.prems(2))
qed

lemma commit_loc_ok:
  assumes "loc_ok s" and "slots_ok s" and "length (transactions b) \<le> 2 ^ 32"
    and "commit_block b3 s b metas ws u q nulls = Inr s'"
  shows "loc_ok s'" and "slots_ok s'"
proof -
  let ?sl = "slot (header b)"
  let ?s1 = "s\<lparr> accounts := fold write_account ws (accounts s),
          smt_nodes := write_smt_nodes b3 (smt_nodes s) u, blocks := RBT.insert ?sl b (blocks s) \<rparr>"
  obtain s2 where len: "length metas = length (transactions b)"
    and "state_root (header b) = new_root u" and lt: "\<forall>l. meta_latest_slot s = Some l \<longrightarrow> l < ?sl"
    and i: "index_transactions ?sl 0 (zip (transactions b) metas) ?s1 = Some s2"
    and s': "s' = s2\<lparr> nullifiers := fold (\<lambda>n t. t(n \<mapsto> ?sl)) nulls (nullifiers s2),
      meta_latest_slot := Some ?sl, meta_state_root := Some (new_root u),
      meta_blockhash_queue := Some (capacity q, entries q) \<rparr>"
    using assms(4) by (rule commit_block_Inr)
  have "RBT.lookup (blocks s) ?sl = None"
    using assms(2) lt by (cases "RBT.lookup (blocks s) ?sl") (auto simp: slots_ok_def dest: leD)
  then have "loc_ok ?s1"
    using assms(1) by (fastforce simp: loc_ok_def)
  then have "loc_ok s2"
    by (rule index_transactions_loc_ok [OF _ _ assms(3) _ i]) (simp_all add: len)
  then show "loc_ok s'" by (simp add: s' loc_ok_def)
  show "slots_ok s'"
    unfolding slots_ok_def
  proof (intro allI impI)
    fix sl' b'
    assume l: "RBT.lookup (blocks s') sl' = Some b'"
    note f = commit_block_fields(3,6) [OF assms(4)]
    show "slot (header b') = sl' \<and> (\<exists>l. meta_latest_slot s' = Some l \<and> sl' \<le> l)"
    proof (cases "sl' = ?sl")
      case True
      then show ?thesis using l f by simp
    next
      case False
      then have "RBT.lookup (blocks s) sl' = Some b'" using l f by simp
      then obtain l where "slot (header b') = sl'" "meta_latest_slot s = Some l" "sl' \<le> l"
        using assms(2) unfolding slots_ok_def by blast
      then show ?thesis using lt f by fastforce
    qed
  qed
qed

lemma initialize_genesis_other:
  assumes "initialize_genesis b3 s g extra = Inr (s', r)"
  shows "tx_loc s' = tx_loc s" "tx_meta s' = tx_meta s" "blocks s' = blocks s"
    "meta_latest_slot s' = meta_latest_slot s" "nullifiers s' = nullifiers s"
    "addr_sigs s' = addr_sigs s"
  using assms by (auto simp: initialize_genesis_def Let_def split: option.splits if_splits)

lemma reachable_index_ok:
  assumes "reachable b3 K s"
  shows "loc_ok s \<and> slots_ok s"
  using assms
proof induction
  case opened
  show ?case by (simp add: loc_ok_def slots_ok_def store_open_def)
next
  case (genesis s g extra s' root)
  then show ?case
    using initialize_genesis_other [OF genesis.hyps(3)] by (simp add: loc_ok_def slots_ok_def)
next
  case (commit s ws b metas q nulls s')
  then show ?case using commit_loc_ok [OF _ _ _ commit.hyps(4)] by (simp add: wf_body_def)
next
  case (root s r)
  then show ?case by (simp add: loc_ok_def slots_ok_def set_withdrawals_root_def)
qed

lemma get_transaction_no_error:
  assumes "loc_ok s"
  shows "get_transaction s sig \<notin> range Inl"
  using assms
  by (fastforce simp: loc_ok_def get_transaction_def get_at_def split: option.splits)

text \<open>The rows a successful pass over the block leaves.\<close>

lemma index_transactions_rows:
  assumes "index_transactions sl i ps s = Some s'"
    and "distinct (map (\<lambda>p. hd (signatures (fst p))) ps)"
  shows "(\<forall>j<length ps. signatures (fst (ps ! j)) \<noteq> [] \<and>
      tx_loc s' (hd (signatures (fst (ps ! j)))) = Some \<lparr> loc_slot = sl, loc_index = of_nat (i + j) \<rparr>
      \<and> tx_meta s' (hd (signatures (fst (ps ! j)))) = Some (snd (ps ! j)))
    \<and> (\<forall>sig. sig \<notin> (\<lambda>p. hd (signatures (fst p))) ` set ps \<longrightarrow>
      tx_loc s' sig = tx_loc s sig \<and> tx_meta s' sig = tx_meta s sig)"
  using assms
proof (induction ps arbitrary: i s)
  case Nil
  then show ?case by simp
next
  case (Cons p ps)
  obtain tx m where p: "p = (tx, m)" by (cases p)
  obtain sig sigs where sig: "signatures tx = sig # sigs"
    and step: "index_transactions sl (Suc i) ps (index_one sl i tx m sig s) = Some s'"
    using Cons.prems(1) by (auto simp: p first_Some split: option.splits)
  have d: "sig \<notin> (\<lambda>p. hd (signatures (fst p))) ` set ps"
    and d': "distinct (map (\<lambda>p. hd (signatures (fst p))) ps)"
    using Cons.prems(2) by (auto simp: p sig)
  note IH = Cons.IH [OF step d']
  have "tx_loc s' sig = Some \<lparr> loc_slot = sl, loc_index = of_nat i \<rparr>" "tx_meta s' sig = Some m"
    using IH d by (auto simp: index_one_def)
  moreover have "tx_loc s' sg = tx_loc s sg \<and> tx_meta s' sg = tx_meta s sg"
    if "sg \<notin> (\<lambda>p. hd (signatures (fst p))) ` set (p # ps)" for sg
    using IH that by (auto simp: p sig index_one_def)
  ultimately show ?case
    using IH by (auto simp: p sig less_Suc_eq_0_disj)
qed


text \<open>The index after a commit: the rows of the block, and the others as they were.\<close>

lemma commit_block_rows:
  assumes "commit_block b3 s b metas ws u q nulls = Inr s'"
    and "distinct (map (\<lambda>tx. hd (signatures tx)) (transactions b))"
  shows "j < length (transactions b) \<Longrightarrow> tx_loc s' (hd (signatures (transactions b ! j)))
        = Some \<lparr> loc_slot = slot (header b), loc_index = of_nat j \<rparr>
      \<and> tx_meta s' (hd (signatures (transactions b ! j))) = Some (metas ! j)" (is "_ \<Longrightarrow> ?new")
    and "sig \<notin> (\<lambda>tx. hd (signatures tx)) ` set (transactions b) \<Longrightarrow>
      tx_loc s' sig = tx_loc s sig \<and> tx_meta s' sig = tx_meta s sig" (is "_ \<Longrightarrow> ?old")
proof -
  obtain s2 where len: "length metas = length (transactions b)"
    and i: "index_transactions (slot (header b)) 0 (zip (transactions b) metas)
      (s\<lparr> accounts := fold write_account ws (accounts s),
          smt_nodes := write_smt_nodes b3 (smt_nodes s) u,
          blocks := RBT.insert (slot (header b)) b (blocks s) \<rparr>) = Some s2"
    and s': "s' = s2\<lparr> nullifiers := fold (\<lambda>n t. t(n \<mapsto> slot (header b))) nulls (nullifiers s2),
      meta_latest_slot := Some (slot (header b)), meta_state_root := Some (new_root u),
      meta_blockhash_queue := Some (capacity q, entries q) \<rparr>"
    using assms(1) by (rule commit_block_Inr)
  have eq: "map (\<lambda>p. hd (signatures (fst p))) (zip (transactions b) metas)
      = map (\<lambda>tx. hd (signatures tx)) (transactions b)"
    using len by (intro nth_equalityI) simp_all
  have img: "(\<lambda>p. hd (signatures (fst p))) ` set (zip (transactions b) metas)
      = (\<lambda>tx. hd (signatures tx)) ` set (transactions b)"
    using arg_cong [OF eq, of set] by simp
  note rows = index_transactions_rows [OF i, unfolded eq img, OF assms(2)]
  show "j < length (transactions b) \<Longrightarrow> ?new" using rows len by (simp add: s')
  show "sig \<notin> (\<lambda>tx. hd (signatures tx)) ` set (transactions b) \<Longrightarrow> ?old" using rows by (simp add: s')
qed

lemma commit_block_found:
  assumes "commit_block b3 s b metas ws u q nulls = Inr s'"
    and "length (transactions b) \<le> 2 ^ 32"
    and "distinct (map (\<lambda>tx. hd (signatures tx)) (transactions b))" and "j < length (transactions b)"
  shows "get_transaction s' (hd (signatures (transactions b ! j)))
    = Inr (Some (\<lparr> loc_slot = slot (header b), loc_index = of_nat j \<rparr>, transactions b ! j, metas ! j))"
proof -
  have "unat (of_nat j :: u32) = j"
    using assms(2,4) by (intro unat_of_nat_lt) simp
  moreover have "RBT.lookup (blocks s') (slot (header b)) = Some b"
    using commit_block_fields(3) [OF assms(1)] by simp
  ultimately show ?thesis
    using assms(4) commit_block_rows(1) [OF assms(1,3,4)] by (simp add: get_transaction_def get_at_def)
qed

lemma commit_block_kept:
  assumes "commit_block b3 s b metas ws u q nulls = Inr s'"
    and "distinct (map (\<lambda>tx. hd (signatures tx)) (transactions b))" and "loc_ok s" and "slots_ok s"
    and "sig \<notin> (\<lambda>tx. hd (signatures tx)) ` set (transactions b)"
  shows "get_transaction s' sig = get_transaction s sig"
proof (cases "tx_loc s sig")
  case None
  then show ?thesis using commit_block_rows(2) [OF assms(1,2,5)] by (simp add: get_transaction_def)
next
  case (Some loc)
  then obtain b' where b': "RBT.lookup (blocks s) (loc_slot loc) = Some b'"
    using assms(3) by (force simp: loc_ok_def)
  then obtain l where "meta_latest_slot s = Some l" "loc_slot loc \<le> l"
    using assms(4) by (force simp: slots_ok_def)
  then have "loc_slot loc \<noteq> slot (header b)"
    using assms(1) by (auto simp: commit_block_def Let_def split: if_splits)
  then have "RBT.lookup (blocks s') (loc_slot loc) = RBT.lookup (blocks s) (loc_slot loc)"
    unfolding commit_block_fields(3) [OF assms(1)] by simp
  then show ?thesis
    using Some commit_block_rows(2) [OF assms(1,2,5)] by (simp add: get_transaction_def split: option.split)
qed


section \<open>Lemmas: ordered keys\<close>

lemma le_val_append: "le_val (xs @ ys) = le_val xs + 256 ^ length xs * le_val ys"
  by (induction xs) (simp_all add: algebra_simps)

lemma be_less_iff:
  "length xs = length ys \<Longrightarrow> xs < (ys :: bytes) \<longleftrightarrow> le_val (rev xs) < le_val (rev ys)"
proof (induction xs ys rule: list_induct2)
  case (Cons x xs y ys)
  let ?n = "256 ^ length ys :: nat"
  have b: "le_val (rev xs) < ?n" "le_val (rev ys) < ?n"
    using le_val_bound [of "rev xs"] le_val_bound [of "rev ys"] Cons.hyps by simp_all
  have "le_val (rev xs) + ?n * unat x < le_val (rev ys) + ?n * unat y
      \<longleftrightarrow> unat x < unat y \<or> unat x = unat y \<and> le_val (rev xs) < le_val (rev ys)"
  proof (cases "unat x" "unat y" rule: linorder_cases)
    case less
    then have "?n * (unat x + 1) \<le> ?n * unat y" by (intro mult_le_mono2) simp
    with less b show ?thesis by simp
  next
    case greater
    then have "?n * (unat y + 1) \<le> ?n * unat x" by (intro mult_le_mono2) simp
    with greater b show ?thesis by simp
  qed simp
  then show ?case
    using Cons by (simp add: le_val_append word_less_nat_alt unat_inj)
qed simp

lemma append_less_iff:
  "length xs = length ys \<Longrightarrow> xs @ us < ys @ (vs :: bytes) \<longleftrightarrow> xs < ys \<or> xs = ys \<and> us < vs"
  by (induction xs ys rule: list_induct2) auto

lemma u64_be_less: "u64_be a < u64_be b \<longleftrightarrow> a < b"
proof -
  have "le_val (rev (u64_be w)) = unat w" for w
    using unat_bound [of w] by (simp add: u64_be_def le_val_le_digits)
  then show ?thesis by (simp add: be_less_iff word_less_nat_alt)
qed

lemma u32_be_less: "u32_be a < u32_be b \<longleftrightarrow> a < b"
proof -
  have "le_val (rev (u32_be w)) = unat w" for w
    using unat_bound [of w] by (simp add: u32_be_def le_val_le_digits)
  then show ?thesis by (simp add: be_less_iff word_less_nat_alt)
qed

lemma not_less_not: "NOT a < NOT b \<longleftrightarrow> b < (a :: 'a::len word)"
proof -
  have "unat (NOT w) = 2 ^ LENGTH('a) - 1 - unat w" for w :: "'a word"
  proof -
    have "NOT w = - 1 - w" by (simp add: not_eq_complement)
    then show ?thesis
      by (simp add: unat_sub unsigned_minus_1_eq_mask mask_eq_exp_minus_1)
  qed
  then have "NOT a < NOT b
      \<longleftrightarrow> 2 ^ LENGTH('a) - 1 - unat a < 2 ^ LENGTH('a) - 1 - unat b"
    by (simp only: word_less_nat_alt)
  also have "\<dots> \<longleftrightarrow> unat b < unat a"
    using unat_bound [of a] unat_bound [of b] by linarith
  finally show ?thesis by (simp only: word_less_nat_alt)
qed

lemma addr_sig_key_append:
  "length pk = 32 \<Longrightarrow> addr_sig_key pk sl ix = pk @ u64_be (NOT sl) @ u32_be (NOT ix)"
  by (simp add: addr_sig_key_def splice_def)

lemma addr_sig_key_less:
  assumes "length pk = 32" and "length pk' = 32"
  shows "addr_sig_key pk sl ix < addr_sig_key pk' sl' ix'
    \<longleftrightarrow> pk < pk' \<or> pk = pk' \<and> (sl' < sl \<or> sl' = sl \<and> ix' < ix)"
  using assms
  by (auto simp: addr_sig_key_append append_less_iff u64_be_less u32_be_less not_less_not)

lemma push_until_take: "push_until limit xs out = out @ take (max (limit - length out) 1) xs"
proof (induction xs arbitrary: out)
  case (Cons x xs)
  show ?case
  proof (cases "limit \<le> Suc (length out)")
    case False
    then have "max (limit - length out) 1 = Suc (max (limit - Suc (length out)) 1)" by simp
    with False Cons show ?thesis by (simp add: Let_def del: max.absorb1 max.absorb2)
  qed (simp add: Let_def max_def)
qed simp

lemma le_digits_zero: "le_digits n 0 = replicate n 0"
  by (induction n) simp_all

lemma le_digits_ones: "le_digits n (256 ^ n - 1) = replicate n 0xff"
proof (induction n)
  case (Suc n)
  have "256 ^ Suc n - 1 = 255 + 256 * (256 ^ n - 1 :: nat)"
    by (simp add: algebra_simps)
  then have "(256 ^ Suc n - 1) mod 256 = (255 :: nat)" "(256 ^ Suc n - 1) div 256 = (256 ^ n - 1 :: nat)"
    by simp_all
  with Suc show ?case by (simp only: le_digits.simps replicate_Suc) simp
qed simp

lemma be_all_ones: "u64_be (- 1) = replicate 8 0xff" "u32_be (- 1) = replicate 4 0xff"
  "u64_be 0 = replicate 8 0" "u32_be 0 = replicate 4 0"
  using le_digits_ones [of 8] le_digits_ones [of 4]
  by (simp_all add: u64_be_def u32_be_def le_digits_zero unsigned_minus_1_eq_mask mask_eq_exp_minus_1)

lemma max_word_or: "w = - 1 \<or> w < (- 1 :: 'a::len word)"
  using unat_bound [of w]
  unfolding word_less_nat_alt unat_inj [symmetric] unsigned_minus_1_eq_mask mask_eq_exp_minus_1
  by linarith

lemma range_bounds:
  assumes "length a = 32"
  shows "splice 0 a (replicate 44 0xff) = addr_sig_key a 0 0"
    and "splice 0 a (replicate 44 0) = addr_sig_key a (- 1) (- 1)"
proof -
  have "replicate 12 x = replicate 8 x @ replicate 4 x" for x :: u8
    by (simp add: replicate_add [symmetric])
  then show "splice 0 a (replicate 44 0xff) = addr_sig_key a 0 0"
    and "splice 0 a (replicate 44 0) = addr_sig_key a (- 1) (- 1)"
    using assms by (simp_all add: addr_sig_key_append be_all_ones splice_def)
qed

lemma in_range_iff:
  assumes "length a = 32" and "length pk = 32"
    and "start = (case before of Some (sl, ix) \<Rightarrow> addr_sig_key a sl ix
      | None \<Rightarrow> splice 0 a (replicate 44 0))"
  shows "start < addr_sig_key pk sl ix \<and> addr_sig_key pk sl ix \<le> splice 0 a (replicate 44 0xff)
    \<longleftrightarrow> pk = a \<and> older before sl ix"
proof -
  have stop: "addr_sig_key pk sl ix \<le> splice 0 a (replicate 44 0xff) \<longleftrightarrow> \<not> a < pk"
    using assms(1,2) by (auto simp: range_bounds not_less [symmetric] addr_sig_key_less)
  have top: "sl < - 1 \<or> sl = - 1 \<and> ix < - 1 \<longleftrightarrow> (sl, ix) \<noteq> (- 1, - 1)"
    using max_word_or [of sl] max_word_or [of ix] by auto
  show ?thesis
    unfolding stop
    using assms by (cases before) (auto simp: range_bounds addr_sig_key_less older_def top)
qed

lemma row_decode:
  assumes "length a = 32"
  shows "take 8 (drop 32 (addr_sig_key a sl ix)) = u64_be (NOT sl)"
    and "take 4 (drop 40 (addr_sig_key a sl ix)) = u32_be (NOT ix)"
  using assms by (simp_all add: addr_sig_key_append)

lemma sorted_wrt_entries: "sorted_wrt (\<lambda>x y. fst x < fst y) (RBT.entries t)"
proof -
  have "sorted_wrt (<) (map fst (RBT.entries t))"
    by (simp add: strict_sorted_iff RBT.sorted_entries RBT.distinct_entries)
  then show ?thesis by (simp add: sorted_wrt_map)
qed

lemma signatures_for_address_spec:
  assumes "length a = 32" and "addr_keys_ok s"
  shows "\<exists>rows. signatures_for_address s a before limit = take (max limit 1) rows
    \<and> sorted_wrt newer rows
    \<and> set rows = {(sig, sl, ix). RBT.lookup (addr_sigs s) (addr_sig_key a sl ix) = Some sig
        \<and> older before sl ix}"
proof -
  define start where "start = (case before of Some (sl, ix) \<Rightarrow> addr_sig_key a sl ix
    | None \<Rightarrow> splice 0 a (replicate 44 0))"
  let ?in = "\<lambda>(k, v). start < k \<and> k \<le> splice 0 a (replicate 44 0xff)"
  let ?g = "\<lambda>(k, v). (v, NOT (u64_of_be (take 8 (drop 32 k))), NOT (u32_of_be (take 4 (drop 40 k))))"
  define es where "es = List.filter ?in (RBT.entries (addr_sigs s))"
  have mem: "(k, v) \<in> set es \<longleftrightarrow> (\<exists>sl ix. k = addr_sig_key a sl ix \<and> older before sl ix
      \<and> RBT.lookup (addr_sigs s) k = Some v)" for k v
  proof -
    have "(k, v) \<in> set es \<longleftrightarrow> RBT.lookup (addr_sigs s) k = Some v
        \<and> start < k \<and> k \<le> splice 0 a (replicate 44 0xff)"
      by (auto simp: es_def RBT.lookup_in_tree)
    moreover have "\<exists>pk sl ix. length pk = 32 \<and> k = addr_sig_key pk sl ix"
      if "RBT.lookup (addr_sigs s) k = Some v"
      using assms(2) that by (auto simp: addr_keys_ok_def)
    ultimately show ?thesis
      using in_range_iff [OF assms(1) _ start_def] assms(1) by metis
  qed
  have "sorted_wrt (\<lambda>x y. fst x < fst y) es"
    unfolding es_def by (rule sorted_wrt_filter [OF sorted_wrt_entries])
  then have "sorted_wrt (\<lambda>x y. newer (?g x) (?g y)) es"
    by (rule sorted_wrt_mono_rel [rotated])
      (auto simp: mem newer_def row_decode assms(1) addr_sig_key_less)
  then have "sorted_wrt newer (map ?g es)" by (simp add: sorted_wrt_map)
  moreover have "signatures_for_address s a before limit = take (max limit 1) (map ?g es)"
    by (simp add: signatures_for_address_def Let_def push_until_take es_def start_def)
  moreover have "set (map ?g es) = {(sig, sl, ix).
      RBT.lookup (addr_sigs s) (addr_sig_key a sl ix) = Some sig \<and> older before sl ix}"
    (is "_ = ?spec")
  proof (rule set_eqI)
    fix x :: "sigbytes \<times> u64 \<times> u32"
    obtain sig sl ix where x: "x = (sig, sl, ix)" by (cases x)
    have "x \<in> ?spec \<Longrightarrow> x \<in> ?g ` set es"
      by (rule image_eqI [of _ _ "(addr_sig_key a sl ix, sig)"])
        (auto simp: x mem row_decode assms(1))
    moreover have "x \<in> ?g ` set es \<Longrightarrow> x \<in> ?spec"
      by (auto simp: mem row_decode assms(1))
    ultimately show "x \<in> set (map ?g es) \<longleftrightarrow> x \<in> ?spec"
      unfolding list.set_map by (rule iffI [rotated])
  qed
  ultimately show ?thesis by blast
qed

lemma fold_insert_addr_lookup:
  "RBT.lookup (fold (\<lambda>x t. RBT.insert (f x) sig t) xs t) k = Some v \<Longrightarrow>
    RBT.lookup t k = Some v \<or> k \<in> f ` set xs"
proof (induction xs arbitrary: t)
  case (Cons x xs)
  from Cons.IH [of "RBT.insert (f x) sig t"] Cons.prems show ?case
    by (auto split: if_splits)
qed simp

lemma index_transactions_addr_keys:
  assumes "addr_keys_ok s" and "\<forall>p\<in>set ps. \<forall>k\<in>set (account_keys (fst p)). length k = 32"
    and "index_transactions sl i ps s = Some s'"
  shows "addr_keys_ok s'"
  using assms
proof (induction ps arbitrary: i s)
  case (Cons p ps)
  obtain tx m where p: "p = (tx, m)" by (cases p)
  obtain sig where step: "index_transactions sl (Suc i) ps (index_one sl i tx m sig s) = Some s'"
    using Cons.prems(3) by (auto simp: p split: option.splits)
  have "addr_keys_ok (index_one sl i tx m sig s)"
    using Cons.prems(1,2) by (fastforce simp: addr_keys_ok_def index_one_def p dest!: fold_insert_addr_lookup)
  from Cons.IH [OF this _ step] Cons.prems(2) show ?case by simp
qed simp

lemma reachable_addr_keys:
  assumes "reachable b3 K s"
  shows "addr_keys_ok s"
  using assms
proof induction
  case opened
  show ?case by (simp add: addr_keys_ok_def store_open_def)
next
  case (genesis s g extra s' root)
  then show ?case
    using initialize_genesis_other [OF genesis.hyps(3)] by (simp add: addr_keys_ok_def)
next
  case (commit s ws b metas q nulls s')
  have keys: "\<forall>p\<in>set (zip (transactions b) metas). \<forall>k\<in>set (account_keys (fst p)). length k = 32"
    using commit.hyps(3) by (auto simp: wf_body_def dest!: set_zip_leftD)
  from commit.hyps(4) show ?case
  proof (rule commit_block_Inr)
    fix s2
    assume "index_transactions (slot (header b)) 0 (zip (transactions b) metas)
      (s\<lparr> accounts := fold write_account ws (accounts s),
          smt_nodes := write_smt_nodes b3 (smt_nodes s)
            (prepare_state_update b3 s (leaf_updates b3 ws)),
          blocks := RBT.insert (slot (header b)) b (blocks s) \<rparr>) = Some s2"
    from index_transactions_addr_keys [OF _ keys this] commit.IH have "addr_keys_ok s2"
      by (simp add: addr_keys_ok_def)
    moreover assume "s' = s2\<lparr> nullifiers := fold (\<lambda>n t. t(n \<mapsto> slot (header b))) nulls (nullifiers s2),
      meta_latest_slot := Some (slot (header b)),
      meta_state_root := Some (new_root (prepare_state_update b3 s (leaf_updates b3 ws))),
      meta_blockhash_queue := Some (capacity q, entries q) \<rparr>"
    ultimately show "addr_keys_ok s'" by (simp add: addr_keys_ok_def)
  qed
next
  case (root s r)
  then show ?case by (simp add: addr_keys_ok_def set_withdrawals_root_def)
qed

lemma sample_store_genesis:
  "initialize_genesis pad_hash store_open sample_genesis [] = Inr (sample_store, the (meta_state_root sample_store))"
  by (simp add: sample_store_def initialize_genesis_def store_open_def Let_def)

lemma sample_store_root: "meta_state_root sample_store = Some (the (meta_state_root sample_store))"
  by (simp add: sample_store_def initialize_genesis_def store_open_def Let_def)

lemma sample_store_reachable: "reachable pad_hash {replicate 32 3} sample_store"
  by (rule reachable.genesis [OF reachable.opened _ sample_store_genesis])
    (simp add: genesis_writes_def sample_genesis_def)

lemma sample_committed_commit:
  "commit_block pad_hash store_open sample_block [sample_meta] []
    (prepare_state_update pad_hash (store_open :: unit store) []) sample_queue [[4]] = Inr sample_committed"
  by (simp add: sample_committed_def commit_block_def sample_block_def store_open_def Let_def
      sample_tx_def)

lemma sample_block_wf: "length (transactions sample_block) \<le> 2 ^ 32"
  by (simp add: sample_block_def)


section \<open>Properties\<close>

text \<open>
  C4: Every account proof the store serves verifies against the committed state root: in every
  store reachable by genesis and block commits, for every account in a set of keys on which
  the tree positions do not collide, the returned account (or its absence) and the returned
  proof pass \<open>smt_verify\<close> against the root in the metadata.
\<close>

theorem store_proofs_verify:
  assumes "digest32 b3" and "inj_on (key_path b3) K" and "reachable b3 K s"
    and "pk \<in> K" and "meta_state_root s = Some r"
  shows "smt_verify b3 r pk (map_option (account_hash b3 pk) (fst (prove_account b3 s pk)))
    (snd (prove_account b3 s pk))"
proof -
  obtain L where "state_ok b3 K s L"
    using reachable_state_ok [OF assms(3,1,2)] by blast
  then show ?thesis
    using assms(4,5) smt_prove_verifies [OF assms(1), of "smt_nodes s" L pk]
    by (simp add: state_ok_def accounts_agree_def prove_account_def)
qed

theorem store_proofs_verify_witness:
  "smt_verify pad_hash (the (meta_state_root sample_store)) (replicate 32 3)
    (map_option (account_hash pad_hash (replicate 32 3))
      (fst (prove_account pad_hash sample_store (replicate 32 3))))
    (snd (prove_account pad_hash sample_store (replicate 32 3)))"
  by (rule store_proofs_verify [OF digest32_pad_hash _ sample_store_reachable _ sample_store_root])
    simp_all

text \<open>
  A committed transaction is found: after a successful commit of a block with distinct
  leading signatures, looking up the signature of its \<open>j\<close>-th transaction returns the block's
  slot and the index \<open>j\<close>, that transaction and its metadata.
\<close>

theorem committed_transaction_found:
  assumes "commit_block b3 s b metas ws u q nulls = Inr s'"
    and "length (transactions b) \<le> 2 ^ 32"
    and "distinct (map (\<lambda>tx. hd (signatures tx)) (transactions b))" and "j < length (transactions b)"
  shows "get_transaction s' (hd (signatures (transactions b ! j)))
    = Inr (Some (\<lparr> loc_slot = slot (header b), loc_index = of_nat j \<rparr>, transactions b ! j, metas ! j))"
  by (rule commit_block_found [OF assms])

theorem committed_transaction_found_witness:
  "get_transaction sample_committed (hd (signatures (transactions sample_block ! 0)))
    = Inr (Some (\<lparr> loc_slot = slot (header sample_block), loc_index = of_nat 0 \<rparr>,
        transactions sample_block ! 0, [sample_meta] ! 0))"
  by (rule committed_transaction_found [OF sample_committed_commit sample_block_wf])
    (simp_all add: sample_block_def)



text \<open>
  The address index pages newest first: in a reachable store the rows for an address are
  exactly the recorded transactions that touch it and are strictly older than the cursor, in
  strictly descending order of slot and index, cut after the limit (and never before the
  first row).
\<close>

theorem signatures_newest_first:
  assumes "reachable b3 K s" and "length a = 32"
  shows "\<exists>rows. signatures_for_address s a before limit = take (max limit 1) rows
    \<and> sorted_wrt newer rows
    \<and> set rows = {(sig, sl, ix). RBT.lookup (addr_sigs s) (addr_sig_key a sl ix) = Some sig
        \<and> older before sl ix}"
  by (rule signatures_for_address_spec [OF assms(2) reachable_addr_keys [OF assms(1)]])

theorem signatures_newest_first_witness:
  "\<exists>rows. signatures_for_address sample_store (replicate 32 1) None 5 = take (max 5 1) rows
    \<and> sorted_wrt newer rows
    \<and> set rows = {(sig, sl, ix).
        RBT.lookup (addr_sigs sample_store) (addr_sig_key (replicate 32 1) sl ix) = Some sig
        \<and> older None sl ix}"
  by (rule signatures_newest_first [OF sample_store_reachable]) simp

text \<open>
  What a commit does: it succeeds only for a slot above the latest one and for the state
  root the update computed; then the accounts are the old ones with the writes applied in
  order, the spent nullifiers are the old ones and the block's, none is ever released, the
  latest slot and the state root are the block's, and the stored queue is the given one.
\<close>

theorem commit_block_effect:
  assumes "commit_block b3 s b metas ws u q nulls = Inr s'"
  shows "(\<forall>l. meta_latest_slot s = Some l \<longrightarrow> l < slot (header b))
    \<and> state_root (header b) = new_root u
    \<and> get_account s' = fold (\<lambda>(pk, a) m. m(pk := a)) ws (get_account s)
    \<and> (\<forall>n. is_nullifier_spent s' n = (is_nullifier_spent s n \<or> n \<in> set nulls))
    \<and> meta_latest_slot s' = Some (slot (header b)) \<and> meta_state_root s' = Some (new_root u)
    \<and> get_block s' (slot (header b)) = Some b
    \<and> meta_blockhash_queue s' = Some (capacity q, entries q)"
proof -
  have lt: "\<forall>l. meta_latest_slot s = Some l \<longrightarrow> l < slot (header b)"
    using assms by (auto elim!: commit_block_Inr)
  note f = commit_block_fields [OF assms]
  have acc: "RBT.lookup (fold write_account ws t) = fold (\<lambda>(pk, a) m. m(pk := a)) ws (RBT.lookup t)" for t
    by (induction ws arbitrary: t) (simp_all add: case_prod_unfold del: fun_upd_apply)
  have get: "get_account s' = fold (\<lambda>(pk, a) m. m(pk := a)) ws (get_account s)"
    by (simp add: get_account_def [abs_def] f acc)
  have nul: "fold (\<lambda>n t. t(n \<mapsto> sl)) ns t n \<noteq> None \<longleftrightarrow> t n \<noteq> None \<or> n \<in> set ns"
    for ns t n and sl :: u64
    by (induction ns arbitrary: t) auto
  have "is_nullifier_spent s' n = (is_nullifier_spent s n \<or> n \<in> set nulls)" for n
    unfolding is_nullifier_spent_def f by (rule nul)
  then show ?thesis
    using lt get f by (simp add: get_block_def)
qed

theorem commit_block_effect_witness:
  "state_root (header sample_block) = new_root (prepare_state_update pad_hash (store_open :: unit store) [])
    \<and> get_account sample_committed = fold (\<lambda>(pk, a) m. m(pk := a)) [] (get_account (store_open :: unit store))
    \<and> (\<forall>n. is_nullifier_spent sample_committed n = (is_nullifier_spent (store_open :: unit store) n \<or> n \<in> set [[4]]))
    \<and> meta_latest_slot sample_committed = Some (slot (header sample_block))
    \<and> meta_state_root sample_committed
      = Some (new_root (prepare_state_update pad_hash (store_open :: unit store) []))
    \<and> get_block sample_committed (slot (header sample_block)) = Some sample_block
    \<and> meta_blockhash_queue sample_committed = Some (capacity sample_queue, entries sample_queue)"
  by (rule commit_block_effect [OF sample_committed_commit, THEN conjunct2])

text \<open>
  Initialising genesis is idempotent: running it again with the same genesis, whatever
  the bootstrap accounts given, changes nothing and returns the state root again; with a
  genesis of another hash it is refused.
\<close>

theorem initialize_genesis_idempotent:
  assumes "initialize_genesis b3 s g extra = Inr (s', r)"
  shows "initialize_genesis b3 s' g extra' = Inr (s', r)
    \<and> (genesis_hash b3 h \<noteq> genesis_hash b3 g \<longrightarrow> initialize_genesis b3 s' h extra' = Inl DifferentGenesis)"
  using assms by (auto simp: initialize_genesis_def Let_def split: option.splits if_splits)

theorem initialize_genesis_idempotent_witness:
  "initialize_genesis pad_hash sample_store sample_genesis [] = Inr (sample_store, the (meta_state_root sample_store))
    \<and> initialize_genesis pad_hash sample_store (sample_genesis\<lparr> chain_name := [1] \<rparr>) [] = Inl DifferentGenesis"
proof -
  have "genesis_hash pad_hash (sample_genesis\<lparr> chain_name := [1] \<rparr>) \<noteq> genesis_hash pad_hash sample_genesis"
    by (simp add: genesis_hash_def genesis_segments_def blake3_concat_def sample_genesis_def pad_hash_def
        GENESIS_DOMAIN_def ascii_def)
  then show ?thesis using initialize_genesis_idempotent [OF sample_store_genesis] by blast
qed

text \<open>
  The account hash commits to the account: two accounts (with 32-byte keys and owners)
  have the same hash only if key, lamports, owner, executable
  flag, rent epoch and data are all equal, or blake3 collides on their two encodings.
\<close>

theorem account_hash_binding:
  assumes "length pk = 32" and "length pk' = 32" and "length (owner a) = 32" and "length (owner a') = 32"
    and "account_hash b3 pk a = account_hash b3 pk' a'"
    and "inj_on b3 {ACCOUNT_DOMAIN @ concat (account_preimage pk a), ACCOUNT_DOMAIN @ concat (account_preimage pk' a')}"
  shows "pk = pk' \<and> a = a'"
proof -
  have "concat (account_preimage pk a) = concat (account_preimage pk' a')"
    using assms(5,6) by (auto simp: account_hash_def blake3_concat_def dest: inj_onD)
  then have "pk = pk' \<and> lamports a = lamports a' \<and> owner a = owner a'
      \<and> executable a = executable a' \<and> rent_epoch a = rent_epoch a' \<and> data a = data a'"
    using assms(1-4) by (auto simp: account_preimage_def append_eq_lengths split: if_splits)
  then show ?thesis by (cases a; cases a') simp
qed

theorem account_hash_binding_witness:
  "replicate 32 (1::u8) = replicate 32 1 \<and> new_system 5 = new_system 5"
  by (rule account_hash_binding [of _ _ _ _ pad_hash]) (simp_all add: new_system_def SYSTEM_PROGRAM_ID_def)

end
