(* ===== verification/Pool_State.thy ===== *)
theory Pool_State
  imports Zul_Prelude
begin


text \<open>
  The shielded pool's tree of note commitments: \<^verbatim>\<open>field.rs\<close>, \<^verbatim>\<open>poseidon.rs\<close> and \<^verbatim>\<open>state.rs\<close> of
  \<^verbatim>\<open>zul-privacy\<close>. The scalar field and the Poseidon permutation are third-party code: a record
  of functions over an abstract field type. What the code relies on is that the canonical
  little-endian form of an element has 32 bytes and reads back as that element
  (\<open>crypto_ok\<close>). The tree keeps only the last left sibling per level and a ring of recent
  roots; the lemmas relate it to the complete tree over all inserted leaves and to the slow
  reference computation of the sources.
\<close>

record 'f crypto =
  from_le_bytes_mod_order :: "bytes \<Rightarrow> 'f"
  bigint_le :: "'f \<Rightarrow> bytes"
  fr_from_u64 :: "u64 \<Rightarrow> 'f"
  poseidon :: "'f list \<Rightarrow> 'f"

definition crypto_ok :: "('f, 'x) crypto_scheme \<Rightarrow> bool" where
  "crypto_ok c \<longleftrightarrow> (\<forall>x. length (bigint_le c x) = 32 \<and> from_le_bytes_mod_order c (bigint_le c x) = x)"

section \<open>field.rs and poseidon.rs\<close>

definition fr_to_bytes :: "('f, 'x) crypto_scheme \<Rightarrow> 'f \<Rightarrow> bytes" where
  "fr_to_bytes c fr = splice 0 (bigint_le c fr) (replicate 32 0)"

definition fr_from_bytes :: "('f, 'x) crypto_scheme \<Rightarrow> bytes \<Rightarrow> 'f option" where
  "fr_from_bytes c bs =
    (let fr = from_le_bytes_mod_order c bs in if fr_to_bytes c fr = bs then Some fr else None)"

definition native_asset_id :: "('f, 'x) crypto_scheme \<Rightarrow> 'f" where
  "native_asset_id c = fr_from_u64 c 0"

definition asset_id_for_mint :: "('f, 'x) crypto_scheme \<Rightarrow> pubkey \<Rightarrow> 'f" where
  "asset_id_for_mint c mint = from_le_bytes_mod_order c mint"

definition hash2 :: "('f, 'x) crypto_scheme \<Rightarrow> 'f \<Rightarrow> 'f \<Rightarrow> 'f" where
  "hash2 c a b = poseidon c [a, b]"

definition hash3 :: "('f, 'x) crypto_scheme \<Rightarrow> 'f \<Rightarrow> 'f \<Rightarrow> 'f \<Rightarrow> 'f" where
  "hash3 c a b d = poseidon c [a, b, d]"

definition note_secret :: "('f, 'x) crypto_scheme \<Rightarrow> 'f \<Rightarrow> 'f \<Rightarrow> 'f" where
  "note_secret c owner_pk blinding = hash2 c owner_pk blinding"

definition note_commitment_from_secret ::
  "('f, 'x) crypto_scheme \<Rightarrow> 'f \<Rightarrow> u64 \<Rightarrow> 'f \<Rightarrow> 'f" where
  "note_commitment_from_secret c asset_id amount secret = hash3 c asset_id (fr_from_u64 c amount) secret"

definition note_commitment :: "('f, 'x) crypto_scheme \<Rightarrow> 'f \<Rightarrow> u64 \<Rightarrow> 'f \<Rightarrow> 'f \<Rightarrow> 'f" where
  "note_commitment c asset_id amount owner_pk blinding =
    note_commitment_from_secret c asset_id amount (note_secret c owner_pk blinding)"

definition note_nullifier :: "('f, 'x) crypto_scheme \<Rightarrow> 'f \<Rightarrow> u64 \<Rightarrow> 'f \<Rightarrow> 'f" where
  "note_nullifier c commitment leaf_index spending_key =
    hash3 c commitment (fr_from_u64 c leaf_index) spending_key"

definition tree_node :: "('f, 'x) crypto_scheme \<Rightarrow> 'f \<Rightarrow> 'f \<Rightarrow> 'f" where
  "tree_node c left right = hash2 c left right"


section \<open>state.rs\<close>

definition TREE_DEPTH :: nat where
  "TREE_DEPTH = 26"

definition ROOT_HISTORY :: nat where
  "ROOT_HISTORY = 64"

fun zero_at :: "('f, 'x) crypto_scheme \<Rightarrow> nat \<Rightarrow> 'f" where
  "zero_at c 0 = fr_from_u64 c 770212417220141184"
| "zero_at c (Suc i) = (let z = zero_at c i in tree_node c z z)"

definition zero_hashes :: "('f, 'x) crypto_scheme \<Rightarrow> 'f list" where
  "zero_hashes c = map (zero_at c) [0..<TREE_DEPTH + 1]"

record pool_state =
  filled_subtrees :: "bytes list"
  roots :: "bytes list"
  current_root_index :: u32
  next_leaf_index :: u32

datatype pool_state_error = StateTreeFull | Corrupt

definition pool_new :: "('f, 'x) crypto_scheme \<Rightarrow> pool_state" where
  "pool_new c = \<lparr> filled_subtrees = map (\<lambda>level. fr_to_bytes c (zero_hashes c ! level)) [0..<TREE_DEPTH],
    roots = (replicate ROOT_HISTORY (replicate 32 0))[0 := fr_to_bytes c (zero_hashes c ! TREE_DEPTH)],
    current_root_index = 0, next_leaf_index = 0 \<rparr>"

definition pool_capacity :: u64 where
  "pool_capacity = 2 ^ TREE_DEPTH"

definition current_root :: "pool_state \<Rightarrow> bytes" where
  "current_root st = roots st ! unat (current_root_index st)"

definition is_known_root :: "pool_state \<Rightarrow> bytes \<Rightarrow> bool" where
  "is_known_root st candidate \<longleftrightarrow>
    (if candidate = replicate 32 0 then False else candidate \<in> set (roots st))"

text \<open>
  The loop of \<^verbatim>\<open>insert\<close> from \<open>level\<close> on, with \<open>n\<close> levels to go: the filled subtrees as the loop
  leaves them, and the root, or \<open>None\<close> for the early \<^verbatim>\<open>Corrupt\<close> error.
\<close>

fun insert_levels ::
  "('f, 'x) crypto_scheme \<Rightarrow> nat \<Rightarrow> nat \<Rightarrow> u32 \<Rightarrow> bytes list \<Rightarrow> 'f \<Rightarrow> bytes list \<times> 'f option" where
  "insert_levels c 0 level node_index filled current = (filled, Some current)"
| "insert_levels c (Suc n) level node_index filled current =
    (if node_index mod 2 = 0
     then insert_levels c n (Suc level) (node_index div 2) (filled[level := fr_to_bytes c current])
            (tree_node c current (zero_hashes c ! level))
     else case fr_from_bytes c (filled ! level) of
            None \<Rightarrow> (filled, None)
          | Some left \<Rightarrow>
              insert_levels c n (Suc level) (node_index div 2) filled (tree_node c left current))"

definition pool_insert ::
  "('f, 'x) crypto_scheme \<Rightarrow> pool_state \<Rightarrow> 'f \<Rightarrow> pool_state \<times> (pool_state_error + u32)" where
  "pool_insert c st leaf =
    (let ix = next_leaf_index st
     in if (ucast ix :: u64) \<ge> pool_capacity then (st, Inl StateTreeFull)
        else case insert_levels c TREE_DEPTH 0 ix (filled_subtrees st) leaf of
          (filled, None) \<Rightarrow> (st\<lparr> filled_subtrees := filled \<rparr>, Inl Corrupt)
        | (filled, Some current) \<Rightarrow>
            (let cri = (current_root_index st + 1) mod of_nat ROOT_HISTORY
             in (st\<lparr> filled_subtrees := filled, current_root_index := cri,
                     roots := (roots st)[unat cri := fr_to_bytes c current],
                     next_leaf_index := ix + 1 \<rparr>, Inr ix)))"

text \<open>The slow reference root of the sources.\<close>

fun reference_pairs :: "('f, 'x) crypto_scheme \<Rightarrow> 'f \<Rightarrow> 'f list \<Rightarrow> 'f list" where
  "reference_pairs c z (left # right # rest) = tree_node c left right # reference_pairs c z rest"
| "reference_pairs c z [left] = [tree_node c left z]"
| "reference_pairs c z [] = []"

definition reference_level :: "('f, 'x) crypto_scheme \<Rightarrow> nat \<Rightarrow> 'f list \<Rightarrow> 'f list" where
  "reference_level c level nodes =
    (let nxt = reference_pairs c (zero_hashes c ! level) nodes
     in if nxt = [] then [tree_node c (zero_hashes c ! level) (zero_hashes c ! level)] else nxt)"

definition reference_root :: "('f, 'x) crypto_scheme \<Rightarrow> 'f list \<Rightarrow> 'f" where
  "reference_root c leaves = fold (reference_level c) [0..<TREE_DEPTH] leaves ! 0"


section \<open>The complete tree\<close>

fun tree_val :: "('f, 'x) crypto_scheme \<Rightarrow> 'f list \<Rightarrow> nat \<Rightarrow> nat \<Rightarrow> 'f" where
  "tree_val c leaves 0 i = (if i < length leaves then leaves ! i else zero_at c 0)"
| "tree_val c leaves (Suc l) i = tree_node c (tree_val c leaves l (2 * i)) (tree_val c leaves l (2 * i + 1))"

text \<open>
  The state after the leaves \<open>leaves\<close>: the last left sibling of every level on the right edge
  is in place.
\<close>

definition pool_rep :: "('f, 'x) crypto_scheme \<Rightarrow> pool_state \<Rightarrow> 'f list \<Rightarrow> bool" where
  "pool_rep c st leaves \<longleftrightarrow>
    length (filled_subtrees st) = TREE_DEPTH \<and> length (roots st) = ROOT_HISTORY
    \<and> unat (current_root_index st) < ROOT_HISTORY
    \<and> unat (next_leaf_index st) = length leaves \<and> length leaves \<le> 2 ^ TREE_DEPTH
    \<and> current_root st = fr_to_bytes c (tree_val c leaves TREE_DEPTH 0)
    \<and> (\<forall>l<TREE_DEPTH. odd (length leaves div 2 ^ l) \<longrightarrow>
        filled_subtrees st ! l = fr_to_bytes c (tree_val c leaves l (length leaves div 2 ^ l - 1)))"

text \<open>Insert a sequence of leaves; \<open>None\<close> when one of them is refused.\<close>

fun insert_all :: "('f, 'x) crypto_scheme \<Rightarrow> pool_state \<Rightarrow> 'f list \<Rightarrow> pool_state option" where
  "insert_all c st [] = Some st"
| "insert_all c st (x # xs) =
    (case pool_insert c st x of (st', Inr _) \<Rightarrow> insert_all c st' xs | (_, Inl _) \<Rightarrow> None)"


section \<open>Invariants and samples\<close>

definition root_at :: "('f, 'x) crypto_scheme \<Rightarrow> 'f list \<Rightarrow> nat \<Rightarrow> bytes" where
  "root_at c leaves i = fr_to_bytes c (tree_val c (take i leaves) TREE_DEPTH 0)"

text \<open>The ring holds the last roots, oldest overwritten first; the rest is still zero.\<close>

definition ring_ok :: "('f, 'x) crypto_scheme \<Rightarrow> pool_state \<Rightarrow> 'f list \<Rightarrow> bool" where
  "ring_ok c st leaves \<longleftrightarrow> unat (current_root_index st) = length leaves mod ROOT_HISTORY
    \<and> length (roots st) = ROOT_HISTORY
    \<and> (\<forall>i\<le>length leaves. length leaves < i + ROOT_HISTORY \<longrightarrow>
        roots st ! (i mod ROOT_HISTORY) = root_at c leaves i)
    \<and> (\<forall>j<ROOT_HISTORY. length leaves < j \<longrightarrow> roots st ! j = replicate 32 0)"

text \<open>A small instance for the witnesses: the field of bytes.\<close>

definition byte_crypto :: "u8 crypto" where
  "byte_crypto = \<lparr> from_le_bytes_mod_order = hd, bigint_le = (\<lambda>x. x # replicate 31 0),
    fr_from_u64 = ucast, poseidon = (\<lambda>xs. fold (\<lambda>x s. 3 * s + x + 1) xs 0) \<rparr>"


section \<open>Lemmas: field elements as bytes\<close>

lemma fr_to_bytes_eq: "crypto_ok c \<Longrightarrow> fr_to_bytes c x = bigint_le c x"
  by (simp add: fr_to_bytes_def crypto_ok_def splice_def)

lemma fr_roundtrip [simp]: "crypto_ok c \<Longrightarrow> fr_from_bytes c (fr_to_bytes c x) = Some x"
  by (simp add: fr_from_bytes_def fr_to_bytes_eq crypto_ok_def)

lemma fr_to_bytes_inj: "crypto_ok c \<Longrightarrow> fr_to_bytes c x = fr_to_bytes c y \<longleftrightarrow> x = y"
  by (metis fr_roundtrip option.inject)

lemma fr_from_bytes_canonical: "fr_from_bytes c bs = Some x \<Longrightarrow> fr_to_bytes c x = bs"
  by (auto simp: fr_from_bytes_def Let_def split: if_splits)

lemma length_fr_to_bytes [simp]: "crypto_ok c \<Longrightarrow> length (fr_to_bytes c x) = 32"
  by (simp add: fr_to_bytes_eq) (simp add: crypto_ok_def)


section \<open>Lemmas: the complete tree\<close>

lemma zero_hashes_nth: "l \<le> TREE_DEPTH \<Longrightarrow> zero_hashes c ! l = zero_at c l"
  by (simp add: zero_hashes_def del: upt_Suc)

lemma tree_val_beyond: "length leaves \<le> i * 2 ^ l \<Longrightarrow> tree_val c leaves l i = zero_at c l"
proof (induction l arbitrary: i)
  case (Suc l)
  have "length leaves \<le> (2 * i) * 2 ^ l" "length leaves \<le> (2 * i + 1) * 2 ^ l"
    using Suc.prems by (simp_all add: algebra_simps)
  with Suc.IH show ?case by (simp add: Let_def)
qed simp

lemma tree_val_prefix:
  "(i + 1) * 2 ^ l \<le> length leaves \<Longrightarrow> tree_val c (leaves @ later) l i = tree_val c leaves l i"
proof (induction l arbitrary: i)
  case 0
  then show ?case by (simp add: nth_append)
next
  case (Suc l)
  have "(2 * i + 1) * 2 ^ l \<le> length leaves" "(2 * i + 1 + 1) * 2 ^ l \<le> length leaves"
    using Suc.prems by (simp_all add: algebra_simps)
  with Suc.IH show ?case by simp
qed

lemma div_succ_cases:
  "Suc n div 2 ^ l = n div 2 ^ l \<or> Suc n div 2 ^ l = Suc (n div 2 ^ l)"
  by (simp add: div_Suc)

lemma odd_div_le:
  assumes "odd (n div 2 ^ l)"
  shows "(n div 2 ^ l - 1 + 1) * 2 ^ l \<le> (n :: nat)"
proof -
  have "n div 2 ^ l - 1 + 1 = n div 2 ^ l"
    using assms by (cases "n div 2 ^ l") auto
  then show ?thesis
    using div_times_less_eq_dividend [of n "2 ^ l"] by simp
qed


section \<open>Lemmas: inserting a leaf\<close>

lemma insert_levels_correct:
  assumes "crypto_ok c" and "n + l = TREE_DEPTH" and "unat ni = length leaves div 2 ^ l"
    and "length filled = TREE_DEPTH"
    and "current = tree_val c (leaves @ [leaf]) l (length leaves div 2 ^ l)"
    and "\<And>k. l \<le> k \<Longrightarrow> k < TREE_DEPTH \<Longrightarrow> odd (length leaves div 2 ^ k) \<Longrightarrow>
      filled ! k = fr_to_bytes c (tree_val c leaves k (length leaves div 2 ^ k - 1))"
    and "length leaves < 2 ^ TREE_DEPTH"
  shows "\<exists>filled'. insert_levels c n l ni filled current
      = (filled', Some (tree_val c (leaves @ [leaf]) TREE_DEPTH 0))
    \<and> length filled' = TREE_DEPTH
    \<and> (\<forall>k<TREE_DEPTH. filled' ! k = (if k < l then filled ! k
        else if even (length leaves div 2 ^ k)
          then fr_to_bytes c (tree_val c (leaves @ [leaf]) k (length leaves div 2 ^ k))
          else filled ! k))"
  using assms(2-)
proof (induction n arbitrary: l ni filled current)
  case 0
  then show ?case by simp
next
  case (Suc n)
  let ?i = "length leaves div 2 ^ l"
  let ?all = "leaves @ [leaf]"
  have l: "l < TREE_DEPTH" using Suc.prems(1) by simp
  have half: "length leaves div 2 ^ Suc l = ?i div 2"
    by (simp add: div_mult2_eq power_Suc2 del: power_Suc)
  have ni: "unat (ni div 2) = length leaves div 2 ^ Suc l"
    unfolding half by (simp add: unat_div Suc.prems(2))
  have mod: "ni mod 2 = 0 \<longleftrightarrow> even ?i"
    by (simp add: word_unat_eq_iff unat_mod Suc.prems(2) even_iff_mod_2_eq_zero)
  have lt: "length leaves < (?i + 1) * 2 ^ l"
    using dividend_less_div_times [of "2 ^ l" "length leaves"] by (simp add: algebra_simps)
  show ?case
  proof (cases "even ?i")
    case True
    let ?f = "filled[l := fr_to_bytes c current]"
    have "tree_val c ?all l (?i + 1) = zero_at c l"
      using lt by (intro tree_val_beyond) simp
    then have cur: "tree_node c current (zero_hashes c ! l) = tree_val c ?all (Suc l) (length leaves div 2 ^ Suc l)"
      using True l Suc.prems(4) unfolding half by (simp add: zero_hashes_nth)
    have "\<exists>filled'. insert_levels c n (Suc l) (ni div 2) ?f (tree_node c current (zero_hashes c ! l))
        = (filled', Some (tree_val c ?all TREE_DEPTH 0)) \<and> length filled' = TREE_DEPTH
      \<and> (\<forall>k<TREE_DEPTH. filled' ! k = (if k < Suc l then ?f ! k
        else if even (length leaves div 2 ^ k)
          then fr_to_bytes c (tree_val c ?all k (length leaves div 2 ^ k)) else ?f ! k))"
      by (rule Suc.IH [OF _ ni _ cur]) (use Suc.prems in auto)
    with True mod l Suc.prems(3,4) show ?thesis
      by (auto simp: nth_list_update less_Suc_eq)
  next
    case False
    then have odd_i: "odd ?i" by simp
    then have "filled ! l = fr_to_bytes c (tree_val c leaves l (?i - 1))"
      using Suc.prems(5) l by simp
    then have left: "fr_from_bytes c (filled ! l) = Some (tree_val c leaves l (?i - 1))"
      using assms(1) by simp
    have "(?i - 1 + 1) * 2 ^ l \<le> length leaves"
      by (rule odd_div_le [OF odd_i])
    then have same: "tree_val c leaves l (?i - 1) = tree_val c ?all l (?i - 1)"
      by (intro tree_val_prefix [symmetric])
    have cur: "tree_node c (tree_val c leaves l (?i - 1)) current = tree_val c ?all (Suc l) (length leaves div 2 ^ Suc l)"
      using odd_i Suc.prems(4) unfolding half same
      by (auto elim!: oddE)
    have "\<exists>filled'. insert_levels c n (Suc l) (ni div 2) filled
          (tree_node c (tree_val c leaves l (?i - 1)) current)
        = (filled', Some (tree_val c ?all TREE_DEPTH 0)) \<and> length filled' = TREE_DEPTH
      \<and> (\<forall>k<TREE_DEPTH. filled' ! k = (if k < Suc l then filled ! k
        else if even (length leaves div 2 ^ k)
          then fr_to_bytes c (tree_val c ?all k (length leaves div 2 ^ k)) else filled ! k))"
      by (rule Suc.IH [OF _ ni Suc.prems(3) cur]) (use Suc.prems in auto)
    with False mod left show ?thesis
      by (auto simp: less_Suc_eq)
  qed
qed

lemma unat_ucast_u64: "unat (ucast (w :: u32) :: u64) = unat w"
  using unat_bound [of w] by (simp add: unsigned_ucast_eq take_bit_nat_eq_self_iff)

lemma odd_succ_div:
  assumes "odd (Suc n div 2 ^ l)"
  shows "Suc n div 2 ^ l - 1 = (if even (n div 2 ^ l) then n div 2 ^ l else n div 2 ^ l - 1)"
  using assms div_succ_cases [of n l] by (cases "even (n div 2 ^ l)") auto

lemma pool_insert_rep:
  assumes "crypto_ok c" and "pool_rep c st leaves" and "length leaves < 2 ^ TREE_DEPTH"
  obtains st' where "pool_insert c st leaf = (st', Inr (next_leaf_index st))"
    and "pool_rep c st' (leaves @ [leaf])"
    and "unat (current_root_index st') = (unat (current_root_index st) + 1) mod ROOT_HISTORY"
    and "roots st' = (roots st)[unat (current_root_index st') := current_root st']"
proof -
  let ?all = "leaves @ [leaf]"
  let ?ix = "next_leaf_index st"
  have rep: "length (filled_subtrees st) = TREE_DEPTH" "length (roots st) = ROOT_HISTORY"
    "unat (current_root_index st) < ROOT_HISTORY" "unat ?ix = length leaves"
    and fill: "\<And>k. k < TREE_DEPTH \<Longrightarrow> odd (length leaves div 2 ^ k) \<Longrightarrow>
      filled_subtrees st ! k = fr_to_bytes c (tree_val c leaves k (length leaves div 2 ^ k - 1))"
    using assms(2) by (auto simp: pool_rep_def)
  obtain filled where ins: "insert_levels c TREE_DEPTH 0 ?ix (filled_subtrees st) leaf
      = (filled, Some (tree_val c ?all TREE_DEPTH 0))" and len: "length filled = TREE_DEPTH"
    and filled: "\<forall>k<TREE_DEPTH. filled ! k = (if k < 0 then filled_subtrees st ! k
        else if even (length leaves div 2 ^ k)
          then fr_to_bytes c (tree_val c ?all k (length leaves div 2 ^ k))
          else filled_subtrees st ! k)"
    using insert_levels_correct [OF assms(1), of TREE_DEPTH 0 ?ix leaves "filled_subtrees st" leaf leaf]
      rep fill assms(3) by auto
  have cap: "\<not> pool_capacity \<le> (ucast ?ix :: u64)"
    using rep(4) assms(3) unat_ucast_u64 [of ?ix]
    by (simp add: pool_capacity_def TREE_DEPTH_def word_le_nat_alt)
  let ?cri = "(current_root_index st + 1) mod of_nat ROOT_HISTORY"
  have cri: "unat ?cri = (unat (current_root_index st) + 1) mod ROOT_HISTORY"
    using rep(3) by (simp add: unat_mod ROOT_HISTORY_def unat_word_ariths)
  let ?st = "st\<lparr> filled_subtrees := filled, current_root_index := ?cri,
    roots := (roots st)[unat ?cri := fr_to_bytes c (tree_val c ?all TREE_DEPTH 0)],
    next_leaf_index := ?ix + 1 \<rparr>"
  have eq: "pool_insert c st leaf = (?st, Inr ?ix)"
    using cap ins by (simp add: pool_insert_def Let_def)
  have cri_lt: "unat ?cri < ROOT_HISTORY" unfolding cri by (simp add: ROOT_HISTORY_def)
  have root: "current_root ?st = fr_to_bytes c (tree_val c ?all TREE_DEPTH 0)"
    using cri_lt rep(2) by (simp add: current_root_def)
  have "unat (?ix + 1) = length ?all"
    using rep(4) assms(3) by (simp add: unat_word_ariths TREE_DEPTH_def)
  moreover have "filled ! k = fr_to_bytes c (tree_val c ?all k (length ?all div 2 ^ k - 1))"
    if "k < TREE_DEPTH" "odd (length ?all div 2 ^ k)" for k
  proof -
    let ?n = "length leaves"
    have prev: "length ?all div 2 ^ k - 1 = (if even (?n div 2 ^ k) then ?n div 2 ^ k else ?n div 2 ^ k - 1)"
      using odd_succ_div [of ?n k] that(2) by simp
    have "tree_val c ?all k (?n div 2 ^ k - 1) = tree_val c leaves k (?n div 2 ^ k - 1)"
      if "odd (?n div 2 ^ k)"
      by (rule tree_val_prefix [OF odd_div_le [OF that]])
    then show ?thesis
      using filled that(1) fill [OF that(1)] unfolding prev by auto
  qed
  ultimately have "pool_rep c ?st ?all"
    using rep(2) len cri_lt root assms(3) by (simp add: pool_rep_def)
  then show ?thesis
    by (rule that [OF eq]) (use cri root in simp_all)
qed


section \<open>Lemmas: the reference computation\<close>

lemma reference_pairs_map:
  "(\<And>i. m \<le> i \<Longrightarrow> f i = z) \<Longrightarrow> reference_pairs c z (map f [0..<m])
    = map (\<lambda>i. tree_node c (f (2 * i)) (f (2 * i + 1))) [0..<(m + 1) div 2]"
proof (induction m arbitrary: f rule: nat_induct2)
  case (step m)
  let ?g = "\<lambda>i. f (i + 2)"
  have "map f [0..<m + 2] = f 0 # f 1 # map ?g [0..<m]"
    by (simp add: upt_conv_Cons map_Suc_upt [symmetric] o_def numeral_2_eq_2 del: upt_Suc)
  moreover have "reference_pairs c z (map ?g [0..<m])
      = map (\<lambda>i. tree_node c (?g (2 * i)) (?g (2 * i + 1))) [0..<(m + 1) div 2]"
    by (rule step.IH) (simp add: step.prems)
  moreover have "[0..<(m + 2 + 1) div 2] = 0 # map Suc [0..<(m + 1) div 2]"
    by (simp add: map_Suc_upt upt_conv_Cons)
  ultimately show ?case by (simp add: o_def)
qed simp_all

lemma reference_level_tree:
  assumes "l < TREE_DEPTH" and "\<And>i. m \<le> i \<Longrightarrow> tree_val c leaves l i = zero_at c l"
  shows "reference_level c l (map (tree_val c leaves l) [0..<m])
    = map (tree_val c leaves (Suc l)) [0..<max 1 ((m + 1) div 2)]"
proof -
  have "reference_pairs c (zero_at c l) (map (tree_val c leaves l) [0..<m])
      = map (tree_val c leaves (Suc l)) [0..<(m + 1) div 2]"
    using reference_pairs_map [of m "tree_val c leaves l" "zero_at c l" c] assms(2) by simp
  then show ?thesis
    using assms by (cases "m = 0") (auto simp: reference_level_def zero_hashes_nth Let_def max_def)
qed

lemma reference_levels_tree:
  "k \<le> TREE_DEPTH \<Longrightarrow> \<exists>m. fold (reference_level c) [0..<k] leaves = map (tree_val c leaves k) [0..<m]
    \<and> (\<forall>i\<ge>m. tree_val c leaves k i = zero_at c k) \<and> (0 < k \<longrightarrow> 0 < m)"
proof (induction k)
  case 0
  have "leaves = map (tree_val c leaves 0) [0..<length leaves]"
    by (intro nth_equalityI) simp_all
  then show ?case
    by (intro exI [of _ "length leaves"]) (simp only: upt_0 fold_simps id_apply, simp)
next
  case (Suc k)
  then obtain m where m: "fold (reference_level c) [0..<k] leaves = map (tree_val c leaves k) [0..<m]"
    "\<And>i. m \<le> i \<Longrightarrow> tree_val c leaves k i = zero_at c k"
    by auto
  have "tree_val c leaves (Suc k) i = zero_at c (Suc k)" if "max 1 ((m + 1) div 2) \<le> i" for i
  proof -
    have "m \<le> 2 * i" using that by linarith
    then show ?thesis by (simp add: m(2) Let_def)
  qed
  then show ?case
    using m Suc.prems reference_level_tree [of k m c leaves]
    by (intro exI [of _ "max 1 ((m + 1) div 2)"]) (simp del: tree_val.simps zero_at.simps)
qed

lemma reference_root_tree: "reference_root c leaves = tree_val c leaves TREE_DEPTH 0"
proof -
  obtain m where "fold (reference_level c) [0..<TREE_DEPTH] leaves = map (tree_val c leaves TREE_DEPTH) [0..<m]"
    and "0 < m"
    using reference_levels_tree [of TREE_DEPTH c leaves] by (auto simp: TREE_DEPTH_def)
  then show ?thesis by (simp add: reference_root_def)
qed


section \<open>Lemmas: the ring of roots\<close>

lemma mod_neq_of_close:
  assumes "i < j" and "j < i + (n::nat)"
  shows "i mod n \<noteq> j mod n"
proof
  assume "i mod n = j mod n"
  then have "n dvd j - i" using assms(1) by (metis less_imp_le mod_eq_dvd_iff_nat)
  with assms show False by (auto dest: dvd_imp_le)
qed

lemma ring_ok_insert:
  assumes "ring_ok c st leaves"
    and "unat (current_root_index st') = (unat (current_root_index st) + 1) mod ROOT_HISTORY"
    and "roots st' = (roots st)[unat (current_root_index st') := root_at c (leaves @ [leaf]) (length leaves + 1)]"
  shows "ring_ok c st' (leaves @ [leaf])"
proof -
  let ?n = "length leaves"
  have cri: "unat (current_root_index st') = (?n + 1) mod ROOT_HISTORY"
    using assms(1,2) by (simp add: ring_ok_def mod_Suc_eq)
  have lt: "(?n + 1) mod ROOT_HISTORY < length (roots st)" and len: "length (roots st) = ROOT_HISTORY"
    using assms(1) by (auto simp: ring_ok_def ROOT_HISTORY_def)
  have "roots st' ! (i mod ROOT_HISTORY) = root_at c (leaves @ [leaf]) i"
    if "i \<le> ?n + 1" "?n + 1 < i + ROOT_HISTORY" for i
  proof (cases "i = ?n + 1")
    case True
    then show ?thesis using lt by (simp add: assms(3) cri)
  next
    case False
    then have i: "i \<le> ?n" "?n < i + ROOT_HISTORY" "i < ?n + 1" using that by simp_all
    then have "roots st' ! (i mod ROOT_HISTORY) = roots st ! (i mod ROOT_HISTORY)"
      using mod_neq_of_close [of i "?n + 1" ROOT_HISTORY] that by (simp add: assms(3) cri)
    also have "\<dots> = root_at c leaves i" using assms(1) i by (simp add: ring_ok_def)
    finally show ?thesis using i by (simp add: root_at_def)
  qed
  moreover have "roots st' ! j = replicate 32 0" if "j < ROOT_HISTORY" "?n + 1 < j" for j
    using assms(1) that by (simp add: assms(3) cri ring_ok_def)
  ultimately show ?thesis
    by (simp add: ring_ok_def cri len assms(3))
qed

lemma ring_known:
  assumes "ring_ok c st leaves" and "r \<noteq> replicate 32 0"
  shows "is_known_root st r \<longleftrightarrow>
    (\<exists>i\<le>length leaves. length leaves < i + ROOT_HISTORY \<and> r = root_at c leaves i)"
proof
  let ?n = "length leaves"
  assume "is_known_root st r"
  then obtain j where j: "j < ROOT_HISTORY" "r = roots st ! j"
    using assms by (auto simp: is_known_root_def in_set_conv_nth ring_ok_def)
  then have "j \<le> ?n" using assms by (auto simp: ring_ok_def not_less [symmetric])
  let ?i = "?n - (?n - j) mod ROOT_HISTORY"
  have "?i mod ROOT_HISTORY = j"
  proof -
    have "?n - (?n - j) mod ROOT_HISTORY = j + ((?n - j) div ROOT_HISTORY) * ROOT_HISTORY"
      using \<open>j \<le> ?n\<close> mod_div_mult_eq [of "?n - j" ROOT_HISTORY] by linarith
    then show ?thesis using j(1) by simp
  qed
  moreover have "?n < ?i + ROOT_HISTORY"
  proof -
    have "(?n - j) mod ROOT_HISTORY < ROOT_HISTORY" by (simp add: ROOT_HISTORY_def)
    then show ?thesis using j(1) by linarith
  qed
  ultimately have "roots st ! j = root_at c leaves ?i"
    using assms(1) unfolding ring_ok_def by (metis diff_le_self)
  with \<open>?n < ?i + ROOT_HISTORY\<close> j(2) show "\<exists>i\<le>?n. ?n < i + ROOT_HISTORY \<and> r = root_at c leaves i"
    by (intro exI [of _ ?i]) simp
next
  assume "\<exists>i\<le>length leaves. length leaves < i + ROOT_HISTORY \<and> r = root_at c leaves i"
  then obtain i where "i \<le> length leaves" "length leaves < i + ROOT_HISTORY" "r = root_at c leaves i" by blast
  then have "r = roots st ! (i mod ROOT_HISTORY)" using assms(1) by (simp add: ring_ok_def)
  moreover have "i mod ROOT_HISTORY < length (roots st)"
    using assms(1) by (simp add: ring_ok_def ROOT_HISTORY_def)
  ultimately show "is_known_root st r" using assms(2) by (simp add: is_known_root_def)
qed

lemma pool_new_rep: "pool_rep c (pool_new c) []"
  by (simp add: pool_rep_def pool_new_def current_root_def ROOT_HISTORY_def zero_hashes_nth
      tree_val_beyond)

lemma pool_new_ring: "ring_ok c (pool_new c) []"
  by (simp add: ring_ok_def pool_new_def ROOT_HISTORY_def root_at_def zero_hashes_nth tree_val_beyond)

lemma insert_all_correct:
  assumes "crypto_ok c" and "pool_rep c st leaves" and "ring_ok c st leaves"
    and "length leaves + length xs \<le> 2 ^ TREE_DEPTH"
  shows "\<exists>st'. insert_all c st xs = Some st' \<and> pool_rep c st' (leaves @ xs) \<and> ring_ok c st' (leaves @ xs)"
  using assms(2-)
proof (induction xs arbitrary: st leaves)
  case (Cons x xs)
  then have "length leaves < 2 ^ TREE_DEPTH" by simp
  then obtain st' where ins: "pool_insert c st x = (st', Inr (next_leaf_index st))"
    and rep: "pool_rep c st' (leaves @ [x])"
    and cri: "unat (current_root_index st') = (unat (current_root_index st) + 1) mod ROOT_HISTORY"
    and rts: "roots st' = (roots st)[unat (current_root_index st') := current_root st']"
    using pool_insert_rep [OF assms(1) Cons.prems(1)] by blast
  have "current_root st' = root_at c (leaves @ [x]) (length leaves + 1)"
    using rep by (simp add: pool_rep_def root_at_def)
  then have "ring_ok c st' (leaves @ [x])"
    using ring_ok_insert [OF Cons.prems(2) cri] rts by simp
  from Cons.IH [OF rep this] Cons.prems(3) show ?case by (simp add: ins)
qed simp

lemma byte_crypto_ok [simp]: "crypto_ok byte_crypto"
  by (simp add: crypto_ok_def byte_crypto_def)


section \<open>Properties\<close>

text \<open>
  C32: The incremental tree computes the root of the whole tree: inserting any sequence of up
  to \<open>2^26\<close> leaves into a new pool succeeds, the next index is their number, and the current
  root is the encoding of the reference root over all of them.
\<close>

theorem pool_root_is_reference_root:
  assumes "crypto_ok c" and "length xs \<le> 2 ^ TREE_DEPTH"
  shows "\<exists>st. insert_all c (pool_new c) xs = Some st \<and> unat (next_leaf_index st) = length xs
    \<and> current_root st = fr_to_bytes c (reference_root c xs)"
  using insert_all_correct [OF assms(1) pool_new_rep pool_new_ring, of xs] assms(2)
  by (auto simp: pool_rep_def reference_root_tree)

theorem pool_root_is_reference_root_witness:
  "\<exists>st. insert_all byte_crypto (pool_new byte_crypto) [5, 6, 7] = Some st
    \<and> unat (next_leaf_index st) = length [5, 6, 7 :: u8]
    \<and> current_root st = fr_to_bytes byte_crypto (reference_root byte_crypto [5, 6, 7])"
  by (rule pool_root_is_reference_root) (simp_all add: TREE_DEPTH_def)

text \<open>
  C37: A root is accepted exactly while it is recent: after inserting a sequence of leaves, a
  candidate other than the all-zero bytes is known if and only if it is the root after one of
  the last 64 prefixes of the sequence; the all-zero bytes are never known.
\<close>

theorem known_roots_are_recent:
  assumes "crypto_ok c" and "insert_all c (pool_new c) xs = Some st" and "length xs \<le> 2 ^ TREE_DEPTH"
  shows "is_known_root st r \<longleftrightarrow> r \<noteq> replicate 32 0
    \<and> (\<exists>i\<le>length xs. length xs < i + ROOT_HISTORY \<and> r = fr_to_bytes c (reference_root c (take i xs)))"
proof -
  have "ring_ok c st xs"
    using insert_all_correct [OF assms(1) pool_new_rep pool_new_ring, of xs] assms(2,3) by auto
  then show ?thesis
    using ring_known [of c st xs r]
    by (cases "r = replicate 32 0") (simp_all add: is_known_root_def root_at_def reference_root_tree)
qed

theorem known_roots_are_recent_witness:
  "is_known_root (pool_new byte_crypto) [1] \<longleftrightarrow> [1] \<noteq> replicate 32 (0 :: u8)
    \<and> (\<exists>i\<le>length ([] :: u8 list). length ([] :: u8 list) < i + ROOT_HISTORY
        \<and> [1] = fr_to_bytes byte_crypto (reference_root byte_crypto (take i [])))"
  by (rule known_roots_are_recent) simp_all

end
