(* ===== verification/Pool_Processor.thy ===== *)
theory Pool_Processor
  imports Pool_State
begin

text \<open>
  The shielded pool's state machine: \<^verbatim>\<open>instruction.rs\<close> and \<^verbatim>\<open>processor.rs\<close> of \<^verbatim>\<open>zul-privacy\<close>. The
  proof verifier and the set of spent nullifiers are interfaces of the code (the traits
  \<^verbatim>\<open>ProofVerifier\<close> and \<^verbatim>\<open>NullifierSet\<close>); here they are records of functions. An operation returns
  the state and the nullifier set as it leaves them, on errors too, beside its result. The
  locale \<open>nullifier_set\<close> states the contract of the set; the absence of double spends is
  proved in it once, for every implementation.
\<close>

section \<open>instruction.rs\<close>

datatype asset = Native | Spl pubkey

text \<open>
  \<open>Shield asset amount secret encrypted_note\<close>,
  \<open>Transfer proof root nullifiers commitments fee encrypted_notes\<close>,
  \<open>Unshield proof root nullifier change_commitment asset amount recipient encrypted_change_note\<close>.
\<close>

datatype pool_instruction =
  Shield asset u64 bytes bytes
| Transfer bytes bytes "bytes \<times> bytes" "bytes \<times> bytes" u64 "bytes \<times> bytes"
| Unshield bytes bytes bytes bytes asset u64 pubkey bytes


section \<open>processor.rs\<close>

datatype pool_error =
  BadField | UnknownRoot | DoubleSpend | DuplicateNullifier | ZeroAmount | TreeFull | InvalidProof
  | NoVerifyingKey

datatype pool_effect =
  DepositToVault asset u64 | WithdrawFromVault asset u64 pubkey | PayFee u64

record note_event =
  leaf_index :: u32
  commitment :: bytes
  encrypted_note :: bytes

record pool_outcome =
  effects :: "pool_effect list"
  note_events :: "note_event list"

record 'n nullifier_ops =
  nf_contains :: "'n \<Rightarrow> bytes \<Rightarrow> bool"
  nf_insert :: "bytes \<Rightarrow> 'n \<Rightarrow> 'n"

record 'f pool_crypto = "'f crypto" +
  verify_transfer :: "bytes \<Rightarrow> 'f list \<Rightarrow> bool"
  verify_unshield :: "bytes \<Rightarrow> 'f list \<Rightarrow> bool"

definition asset_id_fr :: "'f pool_crypto \<Rightarrow> asset \<Rightarrow> 'f" where
  "asset_id_fr c a = (case a of Native \<Rightarrow> native_asset_id c | Spl mint \<Rightarrow> asset_id_for_mint c mint)"

definition shield ::
  "'f pool_crypto \<Rightarrow> pool_state \<Rightarrow> asset \<Rightarrow> u64 \<Rightarrow> bytes \<Rightarrow> bytes \<Rightarrow> pool_state \<times> (pool_error + pool_outcome)" where
  "shield c st a amount secret enc =
    (if amount = 0 then (st, Inl ZeroAmount)
     else case fr_from_bytes c secret of None \<Rightarrow> (st, Inl BadField)
     | Some secret_fr \<Rightarrow>
       (let commitment_fr = note_commitment_from_secret c (asset_id_fr c a) amount secret_fr
        in case pool_insert c st commitment_fr of
             (st', Inl _) \<Rightarrow> (st', Inl TreeFull)
           | (st', Inr ix) \<Rightarrow> (st', Inr \<lparr> effects = [DepositToVault a amount],
               note_events = [\<lparr> leaf_index = ix, commitment = fr_to_bytes c commitment_fr, encrypted_note = enc \<rparr>] \<rparr>)))"

text \<open>The loop over the new commitments and their ciphertexts.\<close>

fun insert_notes ::
  "'f pool_crypto \<Rightarrow> pool_state \<Rightarrow> (bytes \<times> bytes) list \<Rightarrow> note_event list
    \<Rightarrow> pool_state \<times> (pool_error + note_event list)" where
  "insert_notes c st [] events = (st, Inr events)"
| "insert_notes c st ((cm, enc) # rest) events =
    (case fr_from_bytes c cm of None \<Rightarrow> (st, Inl BadField)
     | Some leaf \<Rightarrow>
       (case pool_insert c st leaf of
          (st', Inl _) \<Rightarrow> (st', Inl TreeFull)
        | (st', Inr ix) \<Rightarrow> insert_notes c st' rest
            (events @ [\<lparr> leaf_index = ix, commitment = cm, encrypted_note = enc \<rparr>])))"

definition transfer ::
  "'f pool_crypto \<Rightarrow> 'n nullifier_ops \<Rightarrow> pool_state \<Rightarrow> 'n \<Rightarrow> bytes \<Rightarrow> bytes \<Rightarrow> bytes \<times> bytes
    \<Rightarrow> bytes \<times> bytes \<Rightarrow> u64 \<Rightarrow> bytes \<times> bytes \<Rightarrow> pool_state \<times> 'n \<times> (pool_error + pool_outcome)" where
  "transfer c ops st ns pf root nfs cms fee encs =
    (if \<not> is_known_root st root then (st, ns, Inl UnknownRoot)
     else if fst nfs = snd nfs then (st, ns, Inl DuplicateNullifier)
     else if nf_contains ops ns (fst nfs) \<or> nf_contains ops ns (snd nfs) then (st, ns, Inl DoubleSpend)
     else case (fr_from_bytes c root, fr_from_bytes c (fst nfs), fr_from_bytes c (snd nfs),
                fr_from_bytes c (fst cms), fr_from_bytes c (snd cms)) of
       (Some r, Some n0, Some n1, Some c0, Some c1) \<Rightarrow>
         (if \<not> verify_transfer c pf [r, n0, n1, c0, c1, fr_from_u64 c fee] then (st, ns, Inl InvalidProof)
          else
            (let ns' = nf_insert ops (snd nfs) (nf_insert ops (fst nfs) ns)
             in case insert_notes c st [(fst cms, fst encs), (snd cms, snd encs)] [] of
                  (st', Inl e) \<Rightarrow> (st', ns', Inl e)
                | (st', Inr events) \<Rightarrow> (st', ns', Inr \<lparr> effects = (if fee > 0 then [PayFee fee] else []),
                    note_events = events \<rparr>)))
     | _ \<Rightarrow> (st, ns, Inl BadField))"

definition unshield ::
  "'f pool_crypto \<Rightarrow> 'n nullifier_ops \<Rightarrow> pool_state \<Rightarrow> 'n \<Rightarrow> bytes \<Rightarrow> bytes \<Rightarrow> bytes \<Rightarrow> bytes
    \<Rightarrow> asset \<Rightarrow> u64 \<Rightarrow> pubkey \<Rightarrow> bytes \<Rightarrow> pool_state \<times> 'n \<times> (pool_error + pool_outcome)" where
  "unshield c ops st ns pf root nf change a amount recipient enc =
    (if amount = 0 then (st, ns, Inl ZeroAmount)
     else if \<not> is_known_root st root then (st, ns, Inl UnknownRoot)
     else if nf_contains ops ns nf then (st, ns, Inl DoubleSpend)
     else case (fr_from_bytes c root, fr_from_bytes c nf, fr_from_bytes c change) of
       (Some r, Some n, Some ch) \<Rightarrow>
         (if \<not> verify_unshield c pf [r, n, ch, asset_id_fr c a, fr_from_u64 c amount,
                 from_le_bytes_mod_order c recipient] then (st, ns, Inl InvalidProof)
          else
            (let ns' = nf_insert ops nf ns
             in case insert_notes c st [(change, enc)] [] of
                  (st', Inl e) \<Rightarrow> (st', ns', Inl e)
                | (st', Inr events) \<Rightarrow> (st', ns', Inr \<lparr> effects = [WithdrawFromVault a amount recipient],
                    note_events = events \<rparr>)))
     | _ \<Rightarrow> (st, ns, Inl BadField))"

definition pool_process ::
  "'f pool_crypto \<Rightarrow> 'n nullifier_ops \<Rightarrow> pool_state \<Rightarrow> 'n \<Rightarrow> pool_instruction
    \<Rightarrow> pool_state \<times> 'n \<times> (pool_error + pool_outcome)" where
  "pool_process c ops st ns ins =
    (case ins of
       Shield a amount secret enc \<Rightarrow>
         (case shield c st a amount secret enc of (st', r) \<Rightarrow> (st', ns, r))
     | Transfer pf root nfs cms fee encs \<Rightarrow> transfer c ops st ns pf root nfs cms fee encs
     | Unshield pf root nf change a amount recipient enc \<Rightarrow>
         unshield c ops st ns pf root nf change a amount recipient enc)"


section \<open>What an instruction asks for\<close>

fun nullifiers_of :: "pool_instruction \<Rightarrow> bytes list" where
  "nullifiers_of (Shield a amount secret enc) = []"
| "nullifiers_of (Transfer pf root nfs cms fee encs) = [fst nfs, snd nfs]"
| "nullifiers_of (Unshield pf root nf change a amount recipient enc) = [nf]"

text \<open>The conditions under which the sources mean to accept an instruction, and its effect.\<close>

fun acceptable :: "'f pool_crypto \<Rightarrow> 'n nullifier_ops \<Rightarrow> pool_state \<Rightarrow> 'n \<Rightarrow> pool_instruction \<Rightarrow> bool" where
  "acceptable c ops st ns (Shield a amount secret enc) \<longleftrightarrow> amount \<noteq> 0 \<and> fr_from_bytes c secret \<noteq> None"
| "acceptable c ops st ns (Transfer pf root nfs cms fee encs) \<longleftrightarrow>
    is_known_root st root \<and> fst nfs \<noteq> snd nfs
    \<and> \<not> nf_contains ops ns (fst nfs) \<and> \<not> nf_contains ops ns (snd nfs)
    \<and> (\<exists>r n0 n1 c0 c1. map (fr_from_bytes c) [root, fst nfs, snd nfs, fst cms, snd cms]
        = map Some [r, n0, n1, c0, c1] \<and> verify_transfer c pf [r, n0, n1, c0, c1, fr_from_u64 c fee])"
| "acceptable c ops st ns (Unshield pf root nf change a amount recipient enc) \<longleftrightarrow>
    amount \<noteq> 0 \<and> is_known_root st root \<and> \<not> nf_contains ops ns nf
    \<and> (\<exists>r n ch. map (fr_from_bytes c) [root, nf, change] = map Some [r, n, ch]
        \<and> verify_unshield c pf [r, n, ch, asset_id_fr c a, fr_from_u64 c amount,
            from_le_bytes_mod_order c recipient])"

fun effects_of :: "pool_instruction \<Rightarrow> pool_effect list" where
  "effects_of (Shield a amount secret enc) = [DepositToVault a amount]"
| "effects_of (Transfer pf root nfs cms fee encs) = (if fee > 0 then [PayFee fee] else [])"
| "effects_of (Unshield pf root nf change a amount recipient enc) = [WithdrawFromVault a amount recipient]"

text \<open>The leaves an accepted instruction adds.\<close>

fun leaves_of :: "'f pool_crypto \<Rightarrow> pool_instruction \<Rightarrow> 'f list" where
  "leaves_of c (Shield a amount secret enc) =
    [note_commitment_from_secret c (asset_id_fr c a) amount (the (fr_from_bytes c secret))]"
| "leaves_of c (Transfer pf root nfs cms fee encs) =
    [the (fr_from_bytes c (fst cms)), the (fr_from_bytes c (snd cms))]"
| "leaves_of c (Unshield pf root nf change a amount recipient enc) = [the (fr_from_bytes c change)]"

text \<open>Process a sequence and keep the accepted instructions.\<close>

fun process_all ::
  "'f pool_crypto \<Rightarrow> 'n nullifier_ops \<Rightarrow> pool_state \<Rightarrow> 'n \<Rightarrow> pool_instruction list
    \<Rightarrow> pool_state \<times> 'n \<times> pool_instruction list" where
  "process_all c ops st ns [] = (st, ns, [])"
| "process_all c ops st ns (x # xs) =
    (let (st', ns', r) = pool_process c ops st ns x; (st'', ns'', acc) = process_all c ops st' ns' xs
     in (st'', ns'', (case r of Inr _ \<Rightarrow> [x] | Inl _ \<Rightarrow> []) @ acc))"

text \<open>An instance for the witnesses: the field of bytes, a verifier that accepts, a list of nullifiers.\<close>

definition byte_pool :: "u8 pool_crypto" where
  "byte_pool = \<lparr> from_le_bytes_mod_order = hd, bigint_le = (\<lambda>x. x # replicate 31 0),
    fr_from_u64 = ucast, poseidon = (\<lambda>xs. fold (\<lambda>x s. 3 * s + x + 1) xs 0),
    verify_transfer = (\<lambda>_ _. True), verify_unshield = (\<lambda>_ _. True) \<rparr>"

definition list_nullifiers :: "bytes list nullifier_ops" where
  "list_nullifiers = \<lparr> nf_contains = (\<lambda>s n. n \<in> set s), nf_insert = (#) \<rparr>"


section \<open>The interface of the nullifier set\<close>

locale nullifier_set =
  fixes ops :: "'n nullifier_ops"
  assumes contains_insert: "nf_contains ops (nf_insert ops n ns) m \<longleftrightarrow> m = n \<or> nf_contains ops ns m"
begin

lemma process_spends:
  assumes "pool_process c ops st ns ins = (st', ns', Inr out)"
  shows "distinct (nullifiers_of ins)" and "\<forall>n\<in>set (nullifiers_of ins). \<not> nf_contains ops ns n"
    and "nf_contains ops ns' m \<longleftrightarrow> nf_contains ops ns m \<or> m \<in> set (nullifiers_of ins)"
  using assms
  by (cases ins; auto simp: pool_process_def transfer_def unshield_def contains_insert Let_def
      split: if_splits option.splits prod.splits sum.splits)+

lemma process_monotone:
  assumes "pool_process c ops st ns ins = (st', ns', r)" and "nf_contains ops ns m"
  shows "nf_contains ops ns' m"
  using assms
  by (cases ins; auto simp: pool_process_def transfer_def unshield_def contains_insert Let_def
      split: if_splits option.splits prod.splits sum.splits)

lemma process_all_monotone:
  "process_all c ops st ns xs = (st', ns', acc) \<Longrightarrow> nf_contains ops ns m \<Longrightarrow> nf_contains ops ns' m"
proof (induction xs arbitrary: st ns st' ns' acc)
  case (Cons x xs)
  obtain st1 ns1 r where p: "pool_process c ops st ns x = (st1, ns1, r)" by (cases "pool_process c ops st ns x")
  obtain st2 ns2 acc2 where q: "process_all c ops st1 ns1 xs = (st2, ns2, acc2)"
    by (cases "process_all c ops st1 ns1 xs")
  have "nf_contains ops ns1 m" using process_monotone [OF p] Cons.prems by blast
  with Cons.IH [OF q] Cons.prems(1) show ?case by (simp add: p q)
qed simp

theorem no_double_spend:
  assumes "process_all c ops st ns xs = (st', ns', acc)"
  shows "distinct (concat (map nullifiers_of acc))
    \<and> (\<forall>n\<in>set (concat (map nullifiers_of acc)). \<not> nf_contains ops ns n \<and> nf_contains ops ns' n)"
  using assms
proof (induction xs arbitrary: st ns st' ns' acc)
  case Nil
  then show ?case by simp
next
  case (Cons x xs)
  obtain st1 ns1 r where p: "pool_process c ops st ns x = (st1, ns1, r)" by (cases "pool_process c ops st ns x")
  obtain st2 ns2 acc2 where q: "process_all c ops st1 ns1 xs = (st2, ns2, acc2)"
    by (cases "process_all c ops st1 ns1 xs")
  note IH = Cons.IH [OF q]
  have ns': "ns' = ns2" and acc: "acc = (case r of Inr _ \<Rightarrow> [x] | Inl _ \<Rightarrow> []) @ acc2"
    using Cons.prems by (simp_all add: p q)
  have mono: "\<not> nf_contains ops ns m" if "\<not> nf_contains ops ns1 m" for m
    using process_monotone [OF p] that by blast
  show ?case
  proof (cases r)
    case (Inl e)
    with IH mono show ?thesis by (auto simp: acc ns')
  next
    case (Inr out)
    note sp = process_spends [OF p [unfolded Inr]]
    have later: "nf_contains ops ns2 m" if "m \<in> set (nullifiers_of x)" for m
      using process_all_monotone [OF q] sp(3) that by blast
    show ?thesis
      using IH mono sp later by (auto simp: acc Inr ns')
  qed
qed

end


section \<open>Lemmas: acceptance and rejection\<close>

lemma insert_notes_rep:
  assumes "crypto_ok c"
  shows "pool_rep c st leaves \<Longrightarrow> \<forall>x\<in>set outs. fr_from_bytes c (fst x) \<noteq> None
    \<Longrightarrow> length leaves + length outs \<le> 2 ^ TREE_DEPTH
    \<Longrightarrow> \<exists>st' evs. insert_notes c st outs events = (st', Inr (events @ evs))
      \<and> pool_rep c st' (leaves @ map (the \<circ> fr_from_bytes c \<circ> fst) outs)
      \<and> map commitment evs = map fst outs \<and> map encrypted_note evs = map snd outs
      \<and> map (unat \<circ> leaf_index) evs = [length leaves ..< length leaves + length outs]"
proof (induction outs arbitrary: st leaves events)
  case Nil
  then show ?case by simp
next
  case (Cons x outs)
  obtain cm enc where x: "x = (cm, enc)" by (cases x)
  obtain leaf where leaf: "fr_from_bytes c cm = Some leaf" using Cons.prems(2) by (auto simp: x)
  obtain st1 where ins: "pool_insert c st leaf = (st1, Inr (next_leaf_index st))"
    and rep: "pool_rep c st1 (leaves @ [leaf])"
    using pool_insert_rep [OF assms Cons.prems(1), of leaf] Cons.prems(3) by auto
  have ix: "unat (next_leaf_index st) = length leaves" using Cons.prems(1) by (simp add: pool_rep_def)
  have dec: "\<forall>x\<in>set outs. fr_from_bytes c (fst x) \<noteq> None"
    and room: "length (leaves @ [leaf]) + length outs \<le> 2 ^ TREE_DEPTH" using Cons.prems(2,3) by simp_all
  let ?ev = "\<lparr> leaf_index = next_leaf_index st, commitment = cm, encrypted_note = enc \<rparr>"
  obtain st' evs where "insert_notes c st1 outs (events @ [?ev]) = (st', Inr ((events @ [?ev]) @ evs))"
    and "pool_rep c st' ((leaves @ [leaf]) @ map (the \<circ> fr_from_bytes c \<circ> fst) outs)"
    and "map commitment evs = map fst outs" and "map encrypted_note evs = map snd outs"
    and "map (unat \<circ> leaf_index) evs
      = [length (leaves @ [leaf]) ..< length (leaves @ [leaf]) + length outs]"
    using Cons.IH [OF rep dec room, of "events @ [?ev]"] by blast
  then show ?case
    by (intro exI [of _ st'] exI [of _ "?ev # evs"]) (simp add: x leaf ins ix upt_conv_Cons comp_def del: upt_Suc)
qed

lemma process_accepts:
  assumes "crypto_ok c" and "pool_rep c st leaves" and "acceptable c ops st ns ins"
    and "length leaves + length (leaves_of c ins) \<le> 2 ^ TREE_DEPTH"
  shows "\<exists>st' ns' out. pool_process c ops st ns ins = (st', ns', Inr out)
    \<and> pool_rep c st' (leaves @ leaves_of c ins) \<and> effects out = effects_of ins
    \<and> map commitment (note_events out) = map (fr_to_bytes c) (leaves_of c ins)
    \<and> map (unat \<circ> leaf_index) (note_events out)
        = [length leaves ..< length leaves + length (leaves_of c ins)]"
proof (cases ins)
  case (Shield a amount secret enc)
  then obtain s where s: "fr_from_bytes c secret = Some s" "amount \<noteq> 0" using assms(3) by auto
  let ?leaf = "note_commitment_from_secret c (asset_id_fr c a) amount s"
  obtain st' where "pool_insert c st ?leaf = (st', Inr (next_leaf_index st))"
    and "pool_rep c st' (leaves @ [?leaf])"
    using pool_insert_rep [OF assms(1,2), of ?leaf] assms(4) by (auto simp: Shield)
  moreover have "unat (next_leaf_index st) = length leaves" using assms(2) by (simp add: pool_rep_def)
  ultimately show ?thesis by (simp add: Shield pool_process_def shield_def s)
next
  case (Transfer pf root nfs cms fee encs)
  then obtain r n0 n1 c0 c1 where fr: "fr_from_bytes c root = Some r" "fr_from_bytes c (fst nfs) = Some n0"
      "fr_from_bytes c (snd nfs) = Some n1" "fr_from_bytes c (fst cms) = Some c0"
      "fr_from_bytes c (snd cms) = Some c1"
      "verify_transfer c pf [r, n0, n1, c0, c1, fr_from_u64 c fee]"
    using assms(3) by auto
  show ?thesis
    using insert_notes_rep [OF assms(1,2), of "[(fst cms, fst encs), (snd cms, snd encs)]" "[]"] assms(3,4)
      fr_from_bytes_canonical [OF fr(4)] fr_from_bytes_canonical [OF fr(5)]
    by (auto simp: Transfer pool_process_def transfer_def fr)
next
  case (Unshield pf root nf change a amount recipient enc)
  then obtain r n ch where fr: "fr_from_bytes c root = Some r" "fr_from_bytes c nf = Some n"
      "fr_from_bytes c change = Some ch"
      "verify_unshield c pf [r, n, ch, asset_id_fr c a, fr_from_u64 c amount,
        from_le_bytes_mod_order c recipient]"
    using assms(3) by auto
  show ?thesis
    using insert_notes_rep [OF assms(1,2), of "[(change, enc)]" "[]"] assms(3,4)
      fr_from_bytes_canonical [OF fr(3)]
    by (auto simp: Unshield pool_process_def unshield_def fr)
qed

lemma process_rejects:
  assumes "\<not> acceptable c ops st ns ins"
  shows "\<exists>e. pool_process c ops st ns ins = (st, ns, Inl e)"
  using assms
  by (cases ins) (auto simp: pool_process_def shield_def transfer_def unshield_def split: option.splits)

text \<open>
  At a full tree the order of the mutations shows: an otherwise acceptable transfer is refused,
  but its nullifiers stay spent.
\<close>

lemma full_tree_spends_nullifiers:
  assumes "next_leaf_index st = 2 ^ TREE_DEPTH"
    and "acceptable c ops st ns (Transfer pf root nfs cms fee encs)"
  shows "pool_process c ops st ns (Transfer pf root nfs cms fee encs)
    = (st, nf_insert ops (snd nfs) (nf_insert ops (fst nfs) ns), Inl TreeFull)"
  using assms
  by (auto simp: pool_process_def transfer_def pool_insert_def pool_capacity_def TREE_DEPTH_def)

lemma byte_pool_ok [simp]: "crypto_ok byte_pool"
  by (simp add: crypto_ok_def byte_pool_def)


section \<open>Properties\<close>



end
