(* ===== verification/Wrapped_Spl.thy ===== *)
theory Wrapped_Spl
  imports Hashing
begin

text \<open>
  Wrapped SPL tokens, \<^verbatim>\<open>chain/zul-primitives/src/wrapped_spl.rs\<close>: the addresses and the byte
  layouts of a mint and of a token account. Writing outside a buffer panics in the code and
  is \<open>None\<close> here. The derivation of a program address is the parameter \<open>pda\<close> (seeds and
  program to address).
\<close>

definition TOKEN_PROGRAM_ID :: pubkey where
  "TOKEN_PROGRAM_ID = [6, 221, 246, 225, 215, 101, 161, 147, 217, 203, 225, 70, 206, 235, 121, 172,
    28, 180, 133, 237, 95, 91, 55, 145, 58, 140, 245, 133, 126, 255, 0, 169]"

definition ATA_PROGRAM_ID :: pubkey where
  "ATA_PROGRAM_ID = [140, 151, 37, 143, 78, 36, 137, 241, 187, 61, 16, 41, 20, 142, 13, 131, 11, 90,
    19, 153, 218, 255, 16, 132, 4, 142, 123, 216, 219, 233, 248, 89]"

definition WRAPPED_MINT_DOMAIN :: bytes where
  "WRAPPED_MINT_DOMAIN = ascii ''PL2:bridge:wrapped-mint:v1''"

definition BRIDGE_MINT_AUTHORITY :: pubkey where
  "BRIDGE_MINT_AUTHORITY = [0x06, 0x21] @ replicate 29 0 @ [0x02]"

definition MINT_LEN :: nat where
  "MINT_LEN = 82"

definition ACCOUNT_LEN :: nat where
  "ACCOUNT_LEN = 165"

definition wrapped_mint_address :: "hasher \<Rightarrow> pubkey \<Rightarrow> pubkey" where
  "wrapped_mint_address b3 l1_mint = blake3_32 b3 WRAPPED_MINT_DOMAIN l1_mint"

definition associated_token_address ::
  "(bytes list \<Rightarrow> pubkey \<Rightarrow> pubkey) \<Rightarrow> pubkey \<Rightarrow> pubkey \<Rightarrow> pubkey" where
  "associated_token_address pda owner mint = pda [owner, TOKEN_PROGRAM_ID, mint] ATA_PROGRAM_ID"

definition pack_mint :: "pubkey \<Rightarrow> u64 \<Rightarrow> u8 \<Rightarrow> bytes" where
  "pack_mint mint_authority supply decimals =
    (let data = replicate MINT_LEN 0;
         data = splice 0 (u32_le 1) data;
         data = splice 4 mint_authority data;
         data = splice 36 (u64_le supply) data;
         data = data[44 := decimals]
     in data[45 := 1])"

definition mint_supply :: "bytes \<Rightarrow> u64 option" where
  "mint_supply data = map_option u64_of_le (get_range data 36 44)"

definition mint_decimals :: "bytes \<Rightarrow> u8 option" where
  "mint_decimals data = get_at data 44"

definition set_mint_supply :: "bytes \<Rightarrow> u64 \<Rightarrow> bytes option" where
  "set_mint_supply data supply = put_range 36 (u64_le supply) data"

definition pack_token_account :: "pubkey \<Rightarrow> pubkey \<Rightarrow> u64 \<Rightarrow> bytes" where
  "pack_token_account mint owner amount =
    (let data = replicate ACCOUNT_LEN 0;
         data = splice 0 mint data;
         data = splice 32 owner data;
         data = splice 64 (u64_le amount) data
     in data[108 := 1])"

definition token_account_amount :: "bytes \<Rightarrow> u64 option" where
  "token_account_amount data = map_option u64_of_le (get_range data 64 72)"

definition set_token_account_amount :: "bytes \<Rightarrow> u64 \<Rightarrow> bytes option" where
  "set_token_account_amount data amount = put_range 64 (u64_le amount) data"

definition rent_exempt_lamports :: "nat \<Rightarrow> u64" where
  "rent_exempt_lamports data_len = (128 + of_nat data_len) * 3480 * 2"


section \<open>Lemmas\<close>

lemma get_range_list_update:
  "k < i \<or> j \<le> k \<Longrightarrow> get_range (xs[k := v]) i j = get_range xs i j"
  by (auto simp: get_range_def drop_update_swap take_update_swap intro!: nth_equalityI)

lemma set_token_account_amount_Some:
  "72 \<le> length data \<Longrightarrow> set_token_account_amount data a = Some (splice 64 (u64_le a) data)"
  by (simp add: set_token_account_amount_def put_range_def)

lemma set_token_account_amount_None:
  "set_token_account_amount data a = None \<longleftrightarrow> length data < 72"
  by (auto simp: set_token_account_amount_def put_range_def)

lemma token_account_amount_None: "token_account_amount data = None \<longleftrightarrow> length data < 72"
  by (auto simp: token_account_amount_def get_range_def)

lemma token_account_amount_set:
  assumes "set_token_account_amount data a = Some data'"
  shows "token_account_amount data' = Some a" and "length data' = length data"
    and "\<And>k. k < 64 \<or> 72 \<le> k \<Longrightarrow> k < length data \<Longrightarrow> data' ! k = data ! k"
proof -
  have len: "64 + length (u64_le a) \<le> length data" and d: "data' = splice 64 (u64_le a) data"
    using assms by (auto simp: set_token_account_amount_def put_range_def split: if_splits)
  show "token_account_amount data' = Some a"
    using get_range_splice_same [OF len] by (simp add: d token_account_amount_def)
  show "length data' = length data" using len by (simp add: d)
  show "\<And>k. k < 64 \<or> 72 \<le> k \<Longrightarrow> k < length data \<Longrightarrow> data' ! k = data ! k"
    using nth_splice_other [OF len] by (simp add: d)
qed

lemma mint_supply_set:
  assumes "set_mint_supply data a = Some data'"
  shows "mint_supply data' = Some a" and "length data' = length data"
    and "\<And>k. k < 36 \<or> 44 \<le> k \<Longrightarrow> k < length data \<Longrightarrow> data' ! k = data ! k"
proof -
  have len: "36 + length (u64_le a) \<le> length data" and d: "data' = splice 36 (u64_le a) data"
    using assms by (auto simp: set_mint_supply_def put_range_def split: if_splits)
  show "mint_supply data' = Some a"
    using get_range_splice_same [OF len] by (simp add: d mint_supply_def)
  show "length data' = length data" using len by (simp add: d)
  show "\<And>k. k < 36 \<or> 44 \<le> k \<Longrightarrow> k < length data \<Longrightarrow> data' ! k = data ! k"
    using nth_splice_other [OF len] by (simp add: d)
qed

lemma length_pack_mint [simp]: "length a = 32 \<Longrightarrow> length (pack_mint a s d) = 82"
  by (simp add: pack_mint_def MINT_LEN_def)

lemma length_pack_token_account [simp]:
  "length m = 32 \<Longrightarrow> length w = 32 \<Longrightarrow> length (pack_token_account m w a) = 165"
  by (simp add: pack_token_account_def ACCOUNT_LEN_def)

lemma pack_mint_fields:
  assumes "length auth = 32"
  shows "mint_supply (pack_mint auth supply dec) = Some supply"
    and "mint_decimals (pack_mint auth supply dec) = Some dec"
proof -
  let ?d = "splice 36 (u64_le supply) (splice 4 auth (splice 0 (u32_le 1) (replicate MINT_LEN 0)))"
  have len: "length ?d = 82" using assms by (simp add: MINT_LEN_def)
  have p: "pack_mint auth supply dec = ?d[44 := dec, 45 := 1]"
    by (simp add: pack_mint_def Let_def)
  have "get_range ?d 36 (36 + length (u64_le supply)) = Some (u64_le supply)"
    by (rule get_range_splice_same) (use assms in \<open>simp add: MINT_LEN_def\<close>)
  then show "mint_supply (pack_mint auth supply dec) = Some supply"
    unfolding p by (simp add: mint_supply_def get_range_list_update)
  show "mint_decimals (pack_mint auth supply dec) = Some dec"
    unfolding p using len by (simp add: mint_decimals_def get_at_def)
qed

lemma pack_token_account_fields:
  assumes "length mint = 32" and "length own = 32"
  shows "token_account_amount (pack_token_account mint own amount) = Some amount"
proof -
  let ?d = "splice 64 (u64_le amount) (splice 32 own (splice 0 mint (replicate ACCOUNT_LEN 0)))"
  have p: "pack_token_account mint own amount = ?d[108 := 1]"
    by (simp add: pack_token_account_def Let_def)
  have "get_range ?d 64 (64 + length (u64_le amount)) = Some (u64_le amount)"
    by (rule get_range_splice_same) (use assms in \<open>simp add: ACCOUNT_LEN_def\<close>)
  then show ?thesis
    unfolding p by (simp add: token_account_amount_def get_range_list_update)
qed


section \<open>Properties\<close>

text \<open>
  The token layouts round-trip: packed mints and token accounts have their documented
  length and read back the packed supply, decimals and amount; setting the amount of an
  account reads back the new amount and changes no byte outside that field.
\<close>

theorem token_layout_roundtrip:
  assumes "length k1 = 32" and "length k2 = 32" and "72 \<le> length data"
  shows "length (pack_mint k1 n dec) = MINT_LEN \<and> mint_supply (pack_mint k1 n dec) = Some n
    \<and> mint_decimals (pack_mint k1 n dec) = Some dec
    \<and> length (pack_token_account k1 k2 n) = ACCOUNT_LEN
    \<and> token_account_amount (pack_token_account k1 k2 n) = Some n
    \<and> (\<exists>data'. set_token_account_amount data n = Some data' \<and> token_account_amount data' = Some n
        \<and> take 64 data' = take 64 data \<and> drop 72 data' = drop 72 data)"
proof -
  have "take 64 (splice 64 (u64_le n) data) = take 64 data"
    "drop 72 (splice 64 (u64_le n) data) = drop 72 data"
    using assms(3) by (simp_all add: splice_def)
  moreover have "set_token_account_amount data n = Some (splice 64 (u64_le n) data)"
    using assms(3) by (rule set_token_account_amount_Some)
  ultimately show ?thesis
    using assms pack_mint_fields [of k1 n dec] pack_token_account_fields [of k1 k2 n]
      token_account_amount_set(1) [of data n]
    by (simp add: MINT_LEN_def ACCOUNT_LEN_def)
qed

theorem token_layout_roundtrip_witness:
  "length (pack_mint (replicate 32 1) 5 9) = MINT_LEN \<and> mint_supply (pack_mint (replicate 32 1) 5 9) = Some 5
    \<and> mint_decimals (pack_mint (replicate 32 1) 5 9) = Some 9
    \<and> length (pack_token_account (replicate 32 1) (replicate 32 2) 5) = ACCOUNT_LEN
    \<and> token_account_amount (pack_token_account (replicate 32 1) (replicate 32 2) 5) = Some 5
    \<and> (\<exists>data'. set_token_account_amount (replicate 80 7) 5 = Some data' \<and> token_account_amount data' = Some 5
        \<and> take 64 data' = take 64 (replicate 80 7) \<and> drop 72 data' = drop 72 (replicate 80 7))"
  by (rule token_layout_roundtrip) simp_all

end
