(* ===== verification/Pool_Service.thy ===== *)
theory Pool_Service
  imports Pool_Processor Store Wrapped_Spl
begin


text \<open>
  The node's shielded pool service: \<^verbatim>\<open>service.rs\<close> and the addresses of \<^verbatim>\<open>lib.rs\<close> in
  \<^verbatim>\<open>zul-privacy\<close>. A service is the verifier and the configuration of the code, with what the
  code takes from elsewhere beside them: the hash, the derivation of token addresses, and the
  bincode encoding of the pool state. The two overlays are ordered maps; the code's hash maps
  have no order, which shows only in the order of the account writes. A panic (a token account
  whose data is too short to hold an amount) is \<open>None\<close>.
\<close>

section \<open>lib.rs\<close>

definition POOL_PROGRAM_ID :: pubkey where
  "POOL_PROGRAM_ID = [0x05, 0x21] @ replicate 30 0"

definition POOL_STATE_ADDRESS :: pubkey where
  "POOL_STATE_ADDRESS = [0x05, 0x21] @ replicate 29 0 @ [0x01]"

definition POOL_VAULT_ADDRESS :: pubkey where
  "POOL_VAULT_ADDRESS = [0x05, 0x21] @ replicate 29 0 @ [0x02]"

definition LAMPORTS_PER_SIGNATURE :: u64 where
  "LAMPORTS_PER_SIGNATURE = 5000"


section \<open>service.rs: data\<close>

record pool_config =
  pool_state_addr :: pubkey
  vault :: pubkey
  fee_collector :: pubkey
  flat_fee :: u64

definition pool_config_new :: "pubkey \<Rightarrow> pubkey \<Rightarrow> pubkey \<Rightarrow> pool_config" where
  "pool_config_new ps v fc =
    \<lparr> pool_state_addr = ps, vault = v, fee_collector = fc, flat_fee = LAMPORTS_PER_SIGNATURE \<rparr>"

datatype pool_service_error =
  CorruptState | PoolErr pool_error | InsufficientFunds string

record 'e block_nullifiers =
  nf_store :: "'e store"
  within :: "bytes set"
  newly :: "bytes list"

definition bn_contains :: "'e block_nullifiers \<Rightarrow> bytes \<Rightarrow> bool" where
  "bn_contains b n \<longleftrightarrow> n \<in> within b \<or> is_nullifier_spent (nf_store b) n"

definition bn_insert :: "bytes \<Rightarrow> 'e block_nullifiers \<Rightarrow> 'e block_nullifiers" where
  "bn_insert n b = b\<lparr> within := insert n (within b), newly := newly b @ [n] \<rparr>"

definition bn_ops :: "'e block_nullifiers nullifier_ops" where
  "bn_ops = \<lparr> nf_contains = bn_contains, nf_insert = bn_insert \<rparr>"

record 'f pool_service =
  verifier :: "'f pool_crypto"
  config :: pool_config
  svc_b3 :: hasher
  svc_pda :: "bytes list \<Rightarrow> pubkey \<Rightarrow> pubkey"
  encode_state :: "pool_state \<Rightarrow> bytes"
  decode_state :: "bytes \<Rightarrow> pool_state option"

type_synonym overlay = "(pubkey, u64) rbt"
type_synonym token_overlay = "(pubkey, stored_account) rbt"

record 'e pool_run =
  run_state :: pool_state
  run_nfs :: "'e block_nullifiers"
  lam :: overlay
  tok :: token_overlay
  events :: "note_event list"

record pool_block_result =
  account_writes :: "account_write list"
  res_nullifiers :: "bytes list"
  res_note_events :: "note_event list"
  statuses :: "(pool_service_error + unit) list"


section \<open>service.rs: balances and moves\<close>

definition genesis_pool_account :: "'f pool_service \<Rightarrow> pubkey \<times> stored_account" where
  "genesis_pool_account svc =
    (pool_state_addr (config svc),
     \<lparr> lamports = 1, data = encode_state svc (pool_new (verifier svc)), owner = POOL_PROGRAM_ID,
       executable = False, rent_epoch = RENT_EXEMPT_RENT_EPOCH \<rparr>)"

definition load_state :: "'f pool_service \<Rightarrow> 'e store \<Rightarrow> pool_service_error + pool_state" where
  "load_state svc s =
    (case get_account s (pool_state_addr (config svc)) of
       Some account \<Rightarrow> (case decode_state svc (data account) of Some st \<Rightarrow> Inr st | None \<Rightarrow> Inl CorruptState)
     | None \<Rightarrow> Inr (pool_new (verifier svc)))"

definition balance :: "'e store \<Rightarrow> overlay \<Rightarrow> pubkey \<Rightarrow> u64" where
  "balance s ov key =
    (case RBT.lookup ov key of Some v \<Rightarrow> v
     | None \<Rightarrow> (case get_account s key of Some a \<Rightarrow> lamports a | None \<Rightarrow> 0))"

definition move_lamports :: "'e store \<Rightarrow> overlay \<Rightarrow> pubkey \<Rightarrow> pubkey \<Rightarrow> u64 \<Rightarrow> overlay" where
  "move_lamports s ov src dst amount =
    (let from_bal = balance s ov src; to_bal = balance s ov dst
     in RBT.insert dst (saturating_add to_bal amount) (RBT.insert src (saturating_sub from_bal amount) ov))"

definition token_ata :: "'f pool_service \<Rightarrow> pubkey \<Rightarrow> pubkey \<Rightarrow> pubkey" where
  "token_ata svc mint own =
    associated_token_address (svc_pda svc) own (wrapped_mint_address (svc_b3 svc) mint)"

definition amount_or_zero :: "bytes \<Rightarrow> u64" where
  "amount_or_zero d = (case token_account_amount d of Some a \<Rightarrow> a | None \<Rightarrow> 0)"

definition token_balance :: "'f pool_service \<Rightarrow> 'e store \<Rightarrow> token_overlay \<Rightarrow> pubkey \<Rightarrow> pubkey \<Rightarrow> u64" where
  "token_balance svc s tv mint own =
    (let ata = token_ata svc mint own
     in case RBT.lookup tv ata of Some acc \<Rightarrow> amount_or_zero (data acc)
        | None \<Rightarrow> (case get_account s ata of Some a \<Rightarrow> amount_or_zero (data a) | None \<Rightarrow> 0))"

definition token_account ::
  "'f pool_service \<Rightarrow> 'e store \<Rightarrow> token_overlay \<Rightarrow> pubkey \<Rightarrow> pubkey \<Rightarrow> stored_account" where
  "token_account svc s tv wmint own =
    (let ata = associated_token_address (svc_pda svc) own wmint
     in case RBT.lookup tv ata of Some acc \<Rightarrow> acc
        | None \<Rightarrow> (case get_account s ata of Some acc \<Rightarrow> acc
           | None \<Rightarrow> \<lparr> lamports = rent_exempt_lamports ACCOUNT_LEN, data = pack_token_account wmint own 0,
               owner = TOKEN_PROGRAM_ID, executable = False, rent_epoch = RENT_EXEMPT_RENT_EPOCH \<rparr>))"

definition move_wrapped ::
  "'f pool_service \<Rightarrow> 'e store \<Rightarrow> token_overlay \<Rightarrow> pubkey \<Rightarrow> pubkey \<Rightarrow> pubkey \<Rightarrow> u64 \<Rightarrow> token_overlay option" where
  "move_wrapped svc s tv mint from_owner to_owner amount = do {
     let wmint = wrapped_mint_address (svc_b3 svc) mint;
     let from_ata = associated_token_address (svc_pda svc) from_owner wmint;
     let to_ata = associated_token_address (svc_pda svc) to_owner wmint;
     let src = token_account svc s tv wmint from_owner;
     d \<leftarrow> set_token_account_amount (data src) (saturating_sub (amount_or_zero (data src)) amount);
     let tv = RBT.insert from_ata (src\<lparr> data := d \<rparr>) tv;
     let dst = token_account svc s tv wmint to_owner;
     d \<leftarrow> set_token_account_amount (data dst) (saturating_add (amount_or_zero (data dst)) amount);
     Some (RBT.insert to_ata (dst\<lparr> data := d \<rparr>) tv)
   }"

definition lamport_write :: "'e store \<Rightarrow> pubkey \<Rightarrow> u64 \<Rightarrow> stored_account option" where
  "lamport_write s pk l =
    (if l = 0 \<and> get_account s pk = None then None
     else Some ((case get_account s pk of Some a \<Rightarrow> a | None \<Rightarrow> new_system 0)\<lparr> lamports := l \<rparr>))"


section \<open>service.rs: transactions and blocks\<close>

definition precheck ::
  "'f pool_service \<Rightarrow> 'e store \<Rightarrow> overlay \<Rightarrow> token_overlay \<Rightarrow> pubkey \<Rightarrow> pool_instruction
    \<Rightarrow> pool_service_error option" where
  "precheck svc s ov tv fee_payer ins =
    (let fee = flat_fee (config svc)
     in case ins of
       Shield a amount _ _ \<Rightarrow>
         (let fee_need = (case a of Native \<Rightarrow> saturating_add amount fee | Spl _ \<Rightarrow> fee)
          in if balance s ov fee_payer < fee_need then Some (InsufficientFunds ''shield fee'')
             else case a of
               Spl mint \<Rightarrow> (if token_balance svc s tv mint fee_payer < amount
                           then Some (InsufficientFunds ''shield token'') else None)
             | Native \<Rightarrow> None)
     | Transfer _ _ _ _ tfee _ \<Rightarrow>
         (if balance s ov fee_payer < fee then Some (InsufficientFunds ''transfer fee'')
          else if balance s ov (vault (config svc)) < tfee then Some (InsufficientFunds ''pool fee'')
          else None)
     | Unshield _ _ _ _ a amount _ _ \<Rightarrow>
         (if balance s ov fee_payer < fee then Some (InsufficientFunds ''unshield fee'')
          else case a of
            Native \<Rightarrow> (if balance s ov (vault (config svc)) < amount
                       then Some (InsufficientFunds ''vault'') else None)
          | Spl mint \<Rightarrow> (if token_balance svc s tv mint (vault (config svc)) < amount
                       then Some (InsufficientFunds ''vault token'') else None)))"

definition apply_effect ::
  "'f pool_service \<Rightarrow> 'e store \<Rightarrow> pubkey \<Rightarrow> pool_effect \<Rightarrow> overlay \<times> token_overlay
    \<Rightarrow> (overlay \<times> token_overlay) option" where
  "apply_effect svc s fee_payer e ovs =
    (case ovs of (ov, tv) \<Rightarrow>
     (case e of
       DepositToVault a amount \<Rightarrow>
         (case a of
            Native \<Rightarrow> Some (move_lamports s ov fee_payer (vault (config svc)) amount, tv)
          | Spl mint \<Rightarrow> map_option (Pair ov) (move_wrapped svc s tv mint fee_payer (vault (config svc)) amount))
     | WithdrawFromVault a amount recipient \<Rightarrow>
         (case a of
            Native \<Rightarrow> Some (move_lamports s ov (vault (config svc)) recipient amount, tv)
          | Spl mint \<Rightarrow> map_option (Pair ov) (move_wrapped svc s tv mint (vault (config svc)) recipient amount))
     | PayFee amount \<Rightarrow>
         Some (move_lamports s ov (vault (config svc)) (fee_collector (config svc)) amount, tv)))"

fun apply_effects ::
  "'f pool_service \<Rightarrow> 'e store \<Rightarrow> pubkey \<Rightarrow> pool_effect list \<Rightarrow> overlay \<times> token_overlay
    \<Rightarrow> (overlay \<times> token_overlay) option" where
  "apply_effects svc s fee_payer [] ovs = Some ovs"
| "apply_effects svc s fee_payer (e # es) ovs =
    Option.bind (apply_effect svc s fee_payer e ovs) (apply_effects svc s fee_payer es)"

definition apply_one ::
  "'f pool_service \<Rightarrow> 'e store \<Rightarrow> 'e pool_run \<Rightarrow> pubkey \<Rightarrow> pool_instruction
    \<Rightarrow> ('e pool_run \<times> (pool_service_error + unit)) option" where
  "apply_one svc s run fee_payer ins =
    (case precheck svc s (lam run) (tok run) fee_payer ins of
       Some e \<Rightarrow> Some (run, Inl e)
     | None \<Rightarrow>
       (case pool_process (verifier svc) bn_ops (run_state run) (run_nfs run) ins of
          (st, nfs, Inl e) \<Rightarrow> Some (run\<lparr> run_state := st, run_nfs := nfs \<rparr>, Inl (PoolErr e))
        | (st, nfs, Inr outcome) \<Rightarrow>
            (let ov = move_lamports s (lam run) fee_payer (fee_collector (config svc)) (flat_fee (config svc))
             in case apply_effects svc s fee_payer (effects outcome) (ov, tok run) of
                  None \<Rightarrow> None
                | Some (ov', tv') \<Rightarrow>
                    Some (\<lparr> run_state = st, run_nfs = nfs, lam = ov', tok = tv',
                            events = events run @ note_events outcome \<rparr>, Inr ()))))"

fun apply_txs ::
  "'f pool_service \<Rightarrow> 'e store \<Rightarrow> 'e pool_run \<Rightarrow> (pubkey \<times> pool_instruction) list
    \<Rightarrow> ('e pool_run \<times> (pool_service_error + unit) list) option" where
  "apply_txs svc s run [] = Some (run, [])"
| "apply_txs svc s run ((fee_payer, ins) # txs) = do {
     (run', r) \<leftarrow> apply_one svc s run fee_payer ins;
     (run'', rs) \<leftarrow> apply_txs svc s run' txs;
     Some (run'', r # rs)
   }"

definition run_start :: "'e store \<Rightarrow> pool_state \<Rightarrow> overlay \<Rightarrow> 'e pool_run" where
  "run_start s st seed =
    \<lparr> run_state = st, run_nfs = \<lparr> nf_store = s, within = {}, newly = [] \<rparr>, lam = seed,
      tok = RBT.empty, events = [] \<rparr>"

definition assemble_writes ::
  "'f pool_service \<Rightarrow> 'e store \<Rightarrow> 'e pool_run \<Rightarrow> bool \<Rightarrow> account_write list" where
  "assemble_writes svc s run state_dirty =
    map (\<lambda>(pk, l). (pk, lamport_write s pk l)) (RBT.entries (lam run))
    @ map (\<lambda>(pk, a). (pk, Some a)) (RBT.entries (tok run))
    @ (if state_dirty
       then [(pool_state_addr (config svc),
              Some ((case get_account s (pool_state_addr (config svc)) of Some a \<Rightarrow> a
                     | None \<Rightarrow> snd (genesis_pool_account svc))\<lparr> data := encode_state svc (run_state run) \<rparr>))]
       else [])"

definition process_block_seeded ::
  "'f pool_service \<Rightarrow> 'e store \<Rightarrow> (pubkey \<times> pool_instruction) list \<Rightarrow> overlay
    \<Rightarrow> (pool_service_error + pool_block_result) option" where
  "process_block_seeded svc s txs seed =
    (if txs = [] then Some (Inr \<lparr> account_writes = [], res_nullifiers = [], res_note_events = [], statuses = [] \<rparr>)
     else case load_state svc s of Inl e \<Rightarrow> Some (Inl e)
     | Inr st \<Rightarrow>
       (case apply_txs svc s (run_start s st seed) txs of None \<Rightarrow> None
        | Some (run, sts) \<Rightarrow>
            Some (Inr \<lparr> account_writes = assemble_writes svc s run (Inr () \<in> set sts),
                        res_nullifiers = newly (run_nfs run), res_note_events = events run,
                        statuses = sts \<rparr>)))"

definition process_block ::
  "'f pool_service \<Rightarrow> 'e store \<Rightarrow> (pubkey \<times> pool_instruction) list
    \<Rightarrow> (pool_service_error + pool_block_result) option" where
  "process_block svc s txs = process_block_seeded svc s txs RBT.empty"


section \<open>Invariants and samples\<close>

text \<open>The accepted transactions of a run, in order.\<close>

definition accepted_txs :: "(pubkey \<times> pool_instruction) list \<Rightarrow> (pool_service_error + unit) list \<Rightarrow> (pubkey \<times> pool_instruction) list" where
  "accepted_txs txs sts = map fst (List.filter (\<lambda>(t, r). r = Inr ()) (zip txs sts))"

text \<open>Within-block nullifiers: what was inserted, each fresh, none spent in the store.\<close>

definition nf_ok :: "'e store \<Rightarrow> 'e block_nullifiers \<Rightarrow> bool" where
  "nf_ok s b \<longleftrightarrow> nf_store b = s \<and> within b = set (newly b) \<and> distinct (newly b)
    \<and> (\<forall>n\<in>set (newly b). \<not> is_nullifier_spent s n)"

text \<open>The total of the running balances over a set of accounts.\<close>

definition total_lamports :: "'e store \<Rightarrow> overlay \<Rightarrow> pubkey set \<Rightarrow> nat" where
  "total_lamports s ov A = (\<Sum>k\<in>A. unat (balance s ov k))"

text \<open>
  The parties of a transaction are accounts of the set, and pairwise distinct where funds move
  between them.
\<close>

fun recipients :: "pool_instruction \<Rightarrow> pubkey set" where
  "recipients (Unshield pf root nf change Native amount recipient enc) = {recipient}"
| "recipients ins = {}"

definition parties_ok :: "pool_config \<Rightarrow> pubkey set \<Rightarrow> pubkey \<times> pool_instruction \<Rightarrow> bool" where
  "parties_ok cfg A t \<longleftrightarrow> fst t \<in> A \<and> vault cfg \<in> A \<and> fee_collector cfg \<in> A \<and> recipients (snd t) \<subseteq> A
    \<and> distinct [fst t, vault cfg, fee_collector cfg] \<and> vault cfg \<notin> recipients (snd t)"

text \<open>Account writes applied in order, and the lamports of an account in a snapshot.\<close>

definition apply_writes :: "account_write list \<Rightarrow> (pubkey \<rightharpoonup> stored_account) \<Rightarrow> pubkey \<rightharpoonup> stored_account" where
  "apply_writes ws m = fold (\<lambda>(pk, a) m. m(pk := a)) ws m"

definition lamports_at :: "(pubkey \<rightharpoonup> stored_account) \<Rightarrow> pubkey \<Rightarrow> u64" where
  "lamports_at m k = (case m k of Some a \<Rightarrow> lamports a | None \<Rightarrow> 0)"

fun native_only :: "pool_instruction \<Rightarrow> bool" where
  "native_only (Shield a amount secret enc) \<longleftrightarrow> a = Native"
| "native_only (Transfer pf root nfs cms tfee encs) \<longleftrightarrow> True"
| "native_only (Unshield pf root nf change a amount recipient enc) \<longleftrightarrow> a = Native"

text \<open>
  A concrete service for the witnesses. Its state encoding tags every byte, so that it decodes
  what it encoded.
\<close>

definition tag_bytes :: "bytes \<Rightarrow> bytes" where
  "tag_bytes bs = concat (map (\<lambda>b. [1, b]) bs) @ [0]"

fun untag_bytes :: "bytes \<Rightarrow> (bytes \<times> bytes) option" where
  "untag_bytes (t # rest) =
    (if t = 0 then Some ([], rest)
     else case rest of [] \<Rightarrow> None
       | b # rest' \<Rightarrow> map_option (\<lambda>(bs, r). (b # bs, r)) (untag_bytes rest'))"
| "untag_bytes [] = None"

fun untag_list :: "nat \<Rightarrow> bytes \<Rightarrow> (bytes list \<times> bytes) option" where
  "untag_list 0 r = Some ([], r)"
| "untag_list (Suc n) r = do {
     (x, r1) \<leftarrow> untag_bytes r;
     (xs, r2) \<leftarrow> untag_list n r1;
     Some (x # xs, r2)
   }"

definition sample_encode :: "pool_state \<Rightarrow> bytes" where
  "sample_encode st = u32_le (current_root_index st) @ u32_le (next_leaf_index st)
    @ tag_bytes (replicate (length (filled_subtrees st)) 0) @ concat (map tag_bytes (filled_subtrees st))
    @ tag_bytes (replicate (length (roots st)) 0) @ concat (map tag_bytes (roots st))"

definition sample_decode :: "bytes \<Rightarrow> pool_state option" where
  "sample_decode d = do {
     (n, r1) \<leftarrow> untag_bytes (drop 8 d);
     (fs, r2) \<leftarrow> untag_list (length n) r1;
     (m, r3) \<leftarrow> untag_bytes r2;
     (rs, r4) \<leftarrow> untag_list (length m) r3;
     Some \<lparr> filled_subtrees = fs, roots = rs, current_root_index = u32_of_le (take 4 d),
            next_leaf_index = u32_of_le (take 4 (drop 4 d)) \<rparr>
   }"

definition sample_svc :: "u8 pool_service" where
  "sample_svc = \<lparr> verifier = byte_pool, config = \<lparr> pool_state_addr = [10], vault = [11], fee_collector = [12],
    flat_fee = 5 \<rparr>, svc_b3 = pad_hash, svc_pda = (\<lambda>seeds p. pad_hash (concat seeds @ p)),
    encode_state = sample_encode, decode_state = sample_decode \<rparr>"

definition sample_pool_account :: stored_account where
  "sample_pool_account = snd (genesis_pool_account sample_svc)"

definition sample_pool_store :: "unit store" where
  "sample_pool_store = store_open\<lparr> accounts := RBT.insert [1] (new_system 100) (RBT.insert [11] (new_system 50)
    (RBT.insert [10] sample_pool_account RBT.empty)) \<rparr>"

definition sample_unshield :: pool_instruction where
  "sample_unshield = Unshield [] (fr_to_bytes byte_pool (zero_at byte_pool TREE_DEPTH))
    (fr_to_bytes byte_pool 7) (fr_to_bytes byte_pool 8) Native 3 [2] []"

definition sample_pool_txs :: "(pubkey \<times> pool_instruction) list" where
  "sample_pool_txs = [([1], sample_unshield), ([1], Shield Native 0 [] [])]"

definition sample_pool_result :: pool_block_result where
  "sample_pool_result = projr (the (process_block_seeded sample_svc sample_pool_store sample_pool_txs RBT.empty))"

definition sample_token_overlay :: token_overlay where
  "sample_token_overlay = RBT.insert (replicate 32 1)
    ((new_system 1)\<lparr> data := pack_token_account (replicate 32 0) (replicate 32 1) 9 \<rparr>) RBT.empty"


section \<open>Lemmas: nullifiers of a block\<close>

interpretation bn: nullifier_set bn_ops
  by unfold_locales (auto simp: bn_ops_def bn_contains_def bn_insert_def)

lemma accepted_txs_Cons [simp]:
  "accepted_txs (t # ts) (r # rs) = (if r = Inr () then [t] else []) @ accepted_txs ts rs"
  by (simp add: accepted_txs_def)

lemma accepted_txs_Nil [simp]: "accepted_txs [] rs = []"
  by (simp add: accepted_txs_def)

lemma nf_ok_insert: "nf_ok s b \<Longrightarrow> \<not> bn_contains b n \<Longrightarrow> nf_ok s (bn_insert n b)"
  by (auto simp: nf_ok_def bn_contains_def bn_insert_def)

lemma bn_contains_insert: "bn_contains (bn_insert n b) m \<longleftrightarrow> m = n \<or> bn_contains b m"
  by (auto simp: bn_contains_def bn_insert_def)

lemma process_nf_ok:
  assumes "nf_ok s ns" and "pool_process c bn_ops st ns ins = (st', ns', r)"
  shows "nf_ok s ns'"
  using assms
  by (cases ins; auto simp: pool_process_def transfer_def unshield_def Let_def bn_ops_def bn_contains_insert
      nf_ok_insert split: if_splits option.splits prod.splits sum.splits)

lemma apply_one_process:
  assumes "apply_one svc s run p ins = Some (run', r)"
  shows "(run' = run \<and> r \<noteq> Inr ()) \<or>
    (\<exists>res. pool_process (verifier svc) bn_ops (run_state run) (run_nfs run) ins
        = (run_state run', run_nfs run', res) \<and> (r = Inr () \<longleftrightarrow> (\<exists>out. res = Inr out)))"
  using assms
  by (auto simp: apply_one_def Let_def split: option.splits prod.splits sum.splits)

lemma apply_one_nf_ok:
  assumes "apply_one svc s run p ins = Some (run', r)" and "nf_ok t (run_nfs run)"
  shows "nf_ok t (run_nfs run')"
  using apply_one_process [OF assms(1)] process_nf_ok [OF assms(2)] assms(2) by blast

lemma apply_txs_Cons:
  assumes "apply_txs svc s run (t # ts) = Some (run', rs)"
  obtains run1 r rs1 where "apply_one svc s run (fst t) (snd t) = Some (run1, r)"
    and "apply_txs svc s run1 ts = Some (run', rs1)" and "rs = r # rs1"
  using assms by (cases t) (auto split: Option.bind_splits)

lemma apply_txs_nf_ok:
  "apply_txs svc s run txs = Some (run', rs) \<Longrightarrow> nf_ok t (run_nfs run) \<Longrightarrow> nf_ok t (run_nfs run')"
  by (induction txs arbitrary: run rs) (auto elim!: apply_txs_Cons dest: apply_one_nf_ok simp del: apply_txs.simps(2))

text \<open>The service runs the state machine on a subsequence, and accepts what the machine accepts.\<close>

lemma apply_txs_process_all:
  "apply_txs svc s run txs = Some (run', rs) \<Longrightarrow>
    \<exists>xs. process_all (verifier svc) bn_ops (run_state run) (run_nfs run) xs
      = (run_state run', run_nfs run', map snd (accepted_txs txs rs))"
proof (induction txs arbitrary: run rs)
  case Nil
  then show ?case by (auto intro: exI [of _ "[]"])
next
  case (Cons t txs)
  from Cons.prems obtain run1 r rs1 where one: "apply_one svc s run (fst t) (snd t) = Some (run1, r)"
    and rest: "apply_txs svc s run1 txs = Some (run', rs1)" and rs: "rs = r # rs1"
    by (rule apply_txs_Cons)
  obtain xs where xs: "process_all (verifier svc) bn_ops (run_state run1) (run_nfs run1) xs
      = (run_state run', run_nfs run', map snd (accepted_txs txs rs1))"
    using Cons.IH [OF rest] by blast
  from apply_one_process [OF one] show ?case
  proof
    assume "run1 = run \<and> r \<noteq> Inr ()"
    then show ?thesis using xs rs by auto
  next
    assume "\<exists>res. pool_process (verifier svc) bn_ops (run_state run) (run_nfs run) (snd t)
        = (run_state run1, run_nfs run1, res) \<and> (r = Inr () \<longleftrightarrow> (\<exists>out. res = Inr out))"
    then obtain res where res: "pool_process (verifier svc) bn_ops (run_state run) (run_nfs run) (snd t)
        = (run_state run1, run_nfs run1, res)" "r = Inr () \<longleftrightarrow> (\<exists>out. res = Inr out)" by blast
    show ?thesis
      by (rule exI [of _ "snd t # xs"]) (use res xs rs in \<open>auto split: sum.splits\<close>)
  qed
qed

lemma run_start_nf_ok: "nf_ok s (run_nfs (run_start s st seed))"
  by (simp add: nf_ok_def run_start_def)


section \<open>Properties\<close>

text \<open>
  C10: No double spend in a block: the nullifiers a block reports are pairwise distinct and none
  was spent in the store before; those of the accepted transactions, taken together, are
  distinct and all reported.
\<close>

theorem block_nullifiers_fresh:
  assumes "process_block_seeded svc s txs seed = Some (Inr res)"
  shows "distinct (res_nullifiers res) \<and> (\<forall>n\<in>set (res_nullifiers res). \<not> is_nullifier_spent s n)
    \<and> distinct (concat (map (nullifiers_of \<circ> snd) (accepted_txs txs (statuses res))))
    \<and> set (concat (map (nullifiers_of \<circ> snd) (accepted_txs txs (statuses res)))) \<subseteq> set (res_nullifiers res)"
proof (cases "txs = []")
  case True
  then show ?thesis using assms by (auto simp: process_block_seeded_def)
next
  case False
  then obtain st run sts where run: "apply_txs svc s (run_start s st seed) txs = Some (run, sts)"
    and res: "res_nullifiers res = newly (run_nfs run)" "statuses res = sts"
    using assms by (auto simp: process_block_seeded_def split: sum.splits option.splits)
  have ok: "nf_ok s (run_nfs run)" by (rule apply_txs_nf_ok [OF run run_start_nf_ok])
  obtain xs where all: "process_all (verifier svc) bn_ops (run_state (run_start s st seed))
      (run_nfs (run_start s st seed)) xs = (run_state run, run_nfs run, map snd (accepted_txs txs sts))"
    using apply_txs_process_all [OF run] by blast
  from bn.no_double_spend [OF all] ok show ?thesis
    by (auto simp: nf_ok_def res bn_ops_def bn_contains_def run_start_def comp_def)
qed


section \<open>Lemmas: moving lamports\<close>

lemma balance_move:
  "balance s (move_lamports s ov src dst amount) k =
    (if k = dst then saturating_add (balance s ov dst) amount
     else if k = src then saturating_sub (balance s ov src) amount else balance s ov k)"
  by (simp add: move_lamports_def balance_def Let_def)

lemma total_remove2:
  assumes "finite A" and "i \<in> A" and "j \<in> A" and "i \<noteq> j"
  shows "(\<Sum>k\<in>A. f k) = f i + f j + (\<Sum>k\<in>A - {i, j}. (f k :: nat))"
proof -
  have "(\<Sum>k\<in>A. f k) = f i + (\<Sum>k\<in>A - {i}. f k)" using assms by (simp add: sum.remove)
  also have "(\<Sum>k\<in>A - {i}. f k) = f j + (\<Sum>k\<in>A - {i} - {j}. f k)" using assms by (subst sum.remove [of _ j]) auto
  finally show ?thesis by (simp add: Diff_insert [symmetric] insert_commute)
qed

lemma balance_le_total:
  assumes "finite A" and "k \<in> A"
  shows "unat (balance s ov k) \<le> total_lamports s ov A"
  unfolding total_lamports_def by (rule member_le_sum) (use assms in auto)

lemma balances_le_total:
  assumes "finite A" and "i \<in> A" and "j \<in> A" and "i \<noteq> j"
  shows "unat (balance s ov i) + unat (balance s ov j) \<le> total_lamports s ov A"
  unfolding total_lamports_def total_remove2 [OF assms] by simp

lemma move_lamports_exact:
  assumes "finite A" and "src \<in> A" and "dst \<in> A" and "src \<noteq> dst" and "amount \<le> balance s ov src"
    and "total_lamports s ov A < 2 ^ 64"
  shows "unat (balance s (move_lamports s ov src dst amount) k) =
    (if k = dst then unat (balance s ov dst) + unat amount
     else if k = src then unat (balance s ov src) - unat amount else unat (balance s ov k))"
  using balances_le_total [OF assms(1-4), of s ov] assms(5,6)
  by (simp add: balance_move unat_saturating_add unat_saturating_sub word_le_nat_alt)

lemma move_lamports_total:
  assumes "finite A" and "src \<in> A" and "dst \<in> A" and "src \<noteq> dst" and "amount \<le> balance s ov src"
    and "total_lamports s ov A < 2 ^ 64"
  shows "total_lamports s (move_lamports s ov src dst amount) A = total_lamports s ov A"
  using assms(4,5)
  by (simp add: total_lamports_def total_remove2 [OF assms(1-4)] move_lamports_exact [OF assms] word_le_nat_alt)

text \<open>A move from an account to itself is the exception: it adds the amount.\<close>

lemma move_lamports_self:
  "balance s (move_lamports s ov k k amount) k = saturating_add (balance s ov k) amount"
  by (simp add: balance_move)

lemma process_effects:
  assumes "pool_process c ops st ns ins = (st', ns', Inr out)"
  shows "effects out = effects_of ins"
  using assms
  by (cases ins; auto simp: pool_process_def shield_def transfer_def unshield_def Let_def
      split: if_splits option.splits prod.splits sum.splits)

lemma apply_one_lam:
  assumes "apply_one svc s run p ins = Some (run', Inr ())"
  shows "precheck svc s (lam run) (tok run) p ins = None"
    and "apply_effects svc s p (effects_of ins)
      (move_lamports s (lam run) p (fee_collector (config svc)) (flat_fee (config svc)), tok run)
      = Some (lam run', tok run')"
  using assms process_effects [of "verifier svc" bn_ops "run_state run" "run_nfs run" ins]
  by (auto simp: apply_one_def Let_def split: option.splits prod.splits sum.splits)

lemma apply_one_rejected:
  assumes "apply_one svc s run p ins = Some (run', r)" and "r \<noteq> Inr ()"
  shows "lam run' = lam run \<and> tok run' = tok run \<and> events run' = events run"
  using assms by (auto simp: apply_one_def Let_def split: option.splits prod.splits sum.splits)

lemma fee_affordable:
  assumes "precheck svc s ov tv p ins = None"
  shows "flat_fee (config svc) \<le> balance s ov p"
proof -
  have "b \<le> a" if "saturating_add c b \<le> a" for a b c :: u64
    using that unat_bound [of b] by (simp add: word_le_nat_alt unat_saturating_add)
  then show ?thesis
    using assms by (auto simp: precheck_def Let_def not_less split: pool_instruction.splits if_splits asset.splits)
qed

lemma no_saturation:
  fixes a b c :: u64
  assumes "saturating_add a b \<le> c" and "unat c < 2 ^ 64 - 1"
  shows "unat a + unat b \<le> unat c"
  using assms by (simp add: word_le_nat_alt unat_saturating_add min_def split: if_splits)

lemma fee_then_move:
  assumes "finite A" and "p \<in> A" and "fc \<in> A" and "p \<noteq> fc" and "fl \<le> balance s ov p"
    and "total_lamports s ov A < 2 ^ 64" and "i \<in> A" and "j \<in> A" and "i \<noteq> j"
    and "unat a \<le> unat (balance s (move_lamports s ov p fc fl) i)"
  shows "total_lamports s (move_lamports s (move_lamports s ov p fc fl) i j a) A = total_lamports s ov A"
  using move_lamports_total [OF assms(1-6)]
    move_lamports_total [OF assms(1,7,8,9), of a s "move_lamports s ov p fc fl"] assms(6,10)
  by (simp add: word_le_nat_alt)

lemma apply_one_conserves:
  assumes "apply_one svc s run p ins = Some (run', Inr ())" and "finite A"
    and ok: "parties_ok (config svc) A (p, ins)" and small: "total_lamports s (lam run) A < 2 ^ 64 - 1"
  shows "total_lamports s (lam run') A = total_lamports s (lam run) A"
proof -
  let ?cfg = "config svc"
  let ?ov = "move_lamports s (lam run) p (fee_collector ?cfg) (flat_fee ?cfg)"
  note one = apply_one_lam [OF assms(1)]
  have parties: "p \<in> A" "vault ?cfg \<in> A" "fee_collector ?cfg \<in> A" "p \<noteq> vault ?cfg"
    "p \<noteq> fee_collector ?cfg" "vault ?cfg \<noteq> fee_collector ?cfg"
    and rec: "recipients ins \<subseteq> A" "vault ?cfg \<notin> recipients ins"
    using ok by (auto simp: parties_ok_def)
  note fee = fee_affordable [OF one(1)]
  have lt: "total_lamports s (lam run) A < 2 ^ 64" using small by simp
  note exact = move_lamports_exact [OF assms(2) parties(1,3,5) fee lt]
  have tot: "total_lamports s ?ov A = total_lamports s (lam run) A"
    by (rule move_lamports_total [OF assms(2) parties(1,3,5) fee lt])
  note second = fee_then_move [OF assms(2) parties(1,3,5) fee lt]
  show ?thesis
  proof (cases ins)
    case (Shield a amount secret enc)
    show ?thesis
    proof (cases a)
      case Native
      have "unat (balance s (lam run) p) < 2 ^ 64 - 1"
        using balance_le_total [OF assms(2) parties(1), of s "lam run"] small by simp
      moreover have "saturating_add amount (flat_fee ?cfg) \<le> balance s (lam run) p"
        using one(1) by (simp add: Shield Native precheck_def not_less split: if_splits)
      ultimately have "unat amount + unat (flat_fee ?cfg) \<le> unat (balance s (lam run) p)"
        by (rule no_saturation [rotated])
      then have "unat amount \<le> unat (balance s ?ov p)" using parties by (simp add: exact)
      then have "total_lamports s (move_lamports s ?ov p (vault ?cfg) amount) A = total_lamports s (lam run) A"
        by (rule second [OF parties(1,2,4)])
      then show ?thesis using one(2) by (simp add: Shield Native apply_effect_def)
    next
      case (Spl m)
      then show ?thesis using one(2) tot by (auto simp: Shield apply_effect_def bind_eq_Some_conv)
    qed
  next
    case (Transfer pf root nfs cms tfee encs)
    have "unat tfee \<le> unat (balance s ?ov (vault ?cfg))"
      using one(1) parties
      by (simp add: Transfer precheck_def not_less exact word_le_nat_alt split: if_splits)
    then have "total_lamports s (move_lamports s ?ov (vault ?cfg) (fee_collector ?cfg) tfee) A
        = total_lamports s (lam run) A"
      by (rule second [OF parties(2,3,6)])
    then show ?thesis using one(2) tot by (auto simp: Transfer apply_effect_def split: if_splits)
  next
    case (Unshield pf root nf change a amount recipient enc)
    show ?thesis
    proof (cases a)
      case Native
      have "unat amount \<le> unat (balance s ?ov (vault ?cfg))"
        using one(1) parties
        by (simp add: Unshield Native precheck_def not_less exact word_le_nat_alt split: if_splits)
      then have "total_lamports s (move_lamports s ?ov (vault ?cfg) recipient amount) A
          = total_lamports s (lam run) A"
        using rec parties(2) by (intro second) (auto simp: Unshield Native)
      then show ?thesis using one(2) by (simp add: Unshield Native apply_effect_def)
    next
      case (Spl m)
      then show ?thesis using one(2) tot by (auto simp: Unshield apply_effect_def bind_eq_Some_conv)
    qed
  qed
qed

lemma apply_txs_conserves:
  assumes "finite A"
  shows "apply_txs svc s run txs = Some (run', rs) \<Longrightarrow> \<forall>t\<in>set txs. parties_ok (config svc) A t
    \<Longrightarrow> total_lamports s (lam run) A < 2 ^ 64 - 1
    \<Longrightarrow> total_lamports s (lam run') A = total_lamports s (lam run) A"
proof (induction txs arbitrary: run rs)
  case (Cons t txs)
  from Cons.prems(1) obtain run1 r rs1 where one: "apply_one svc s run (fst t) (snd t) = Some (run1, r)"
    and rest: "apply_txs svc s run1 txs = Some (run', rs1)"
    by (rule apply_txs_Cons)
  have "total_lamports s (lam run1) A = total_lamports s (lam run) A"
  proof (cases "r = Inr ()")
    case True
    then show ?thesis
      using apply_one_conserves [OF one [unfolded True] assms _ Cons.prems(3)] Cons.prems(2) by simp
  next
    case False
    then show ?thesis using apply_one_rejected [OF one] by simp
  qed
  then show ?case using Cons.IH [OF rest] Cons.prems(2,3) by simp
qed simp


section \<open>Lemmas: account writes\<close>

lemma apply_writes_append [simp]: "apply_writes (xs @ ys) m = apply_writes ys (apply_writes xs m)"
  by (simp add: apply_writes_def)

lemma apply_writes_Nil [simp]: "apply_writes [] m = m"
  by (simp add: apply_writes_def)

lemma apply_writes_Cons [simp]: "apply_writes ((k, a) # ws) m = apply_writes ws (m(k := a))"
  by (simp add: apply_writes_def)

lemma apply_writes_notin: "k \<notin> fst ` set ws \<Longrightarrow> apply_writes ws m k = m k"
  by (induction ws arbitrary: m) auto

lemma apply_writes_map_of:
  "distinct (map fst ws) \<Longrightarrow> apply_writes ws m k = (case map_of ws k of Some a \<Rightarrow> a | None \<Rightarrow> m k)"
proof (induction ws arbitrary: m)
  case (Cons w ws)
  obtain q a where w: "w = (q, a)" by (cases w)
  show ?case
  proof (cases "k = q")
    case True
    then show ?thesis using Cons.prems by (simp add: w apply_writes_notin)
  next
    case False
    then show ?thesis using Cons by (simp add: w split: option.splits)
  qed
qed simp

lemma lookup_write_accounts: "RBT.lookup (fold write_account ws t) = apply_writes ws (RBT.lookup t)"
  by (induction ws arbitrary: t) (auto simp: write_account_def fun_eq_iff split: option.splits)

lemma map_of_map_key: "map_of (map (\<lambda>(k, v). (k, f k v)) xs) k = map_option (f k) (map_of xs k)"
  by (induction xs) auto

lemma apply_writes_entries:
  "apply_writes (map (\<lambda>(k, v). (k, f k v)) (RBT.entries t)) m k
    = (case RBT.lookup t k of Some v \<Rightarrow> f k v | None \<Rightarrow> m k)"
proof -
  have "map fst (map (\<lambda>(k, v). (k, f k v)) (RBT.entries t)) = map fst (RBT.entries t)"
    by (simp add: case_prod_unfold comp_def)
  then have "distinct (map fst (map (\<lambda>(k, v). (k, f k v)) (RBT.entries t)))"
    using RBT.distinct_entries [of t] by metis
  then show ?thesis
    by (simp only: apply_writes_map_of map_of_map_key RBT.map_of_entries) (simp split: option.splits)
qed

lemma entries_empty: "RBT.entries RBT.empty = []"
  by (metis RBT.map_of_entries RBT.lookup_empty map_of_eq_empty_iff)

lemma lamport_write_lamports:
  "(case lamport_write s k l of Some a \<Rightarrow> lamports a | None \<Rightarrow> 0) = l"
  by (simp add: lamport_write_def new_system_def split: option.splits)

lemma writes_lamports:
  assumes "tok run = RBT.empty" and "k \<noteq> pool_state_addr (config svc)"
  shows "lamports_at (apply_writes (assemble_writes svc s run d) (get_account s)) k = balance s (lam run) k"
proof -
  have "apply_writes (assemble_writes svc s run d) (get_account s) k
      = (case RBT.lookup (lam run) k of Some v \<Rightarrow> lamport_write s k v | None \<Rightarrow> get_account s k)"
    using assms by (simp add: assemble_writes_def apply_writes_entries entries_empty)
  then show ?thesis
    using lamport_write_lamports [of s k]
    by (simp add: lamports_at_def balance_def split: option.splits)
qed

lemma apply_one_native:
  assumes "apply_one svc s run p ins = Some (run', r)" and "native_only ins"
  shows "tok run' = tok run"
proof (cases "r = Inr ()")
  case True
  then show ?thesis
    using apply_one_lam(2) [OF assms(1) [unfolded True]] assms(2)
    by (cases ins) (auto simp: apply_effect_def split: if_splits)
next
  case False
  then show ?thesis using apply_one_rejected [OF assms(1)] by simp
qed

lemma apply_txs_native:
  "apply_txs svc s run txs = Some (run', rs) \<Longrightarrow> \<forall>t\<in>set txs. native_only (snd t) \<Longrightarrow> tok run' = tok run"
  by (induction txs arbitrary: run rs) (auto elim!: apply_txs_Cons dest: apply_one_native simp del: apply_txs.simps(2))

lemma process_block_cases:
  assumes "process_block_seeded svc s txs seed = Some (Inr res)" and "txs \<noteq> []"
  obtains st run where "load_state svc s = Inr st"
    and "apply_txs svc s (run_start s st seed) txs = Some (run, statuses res)"
    and "account_writes res = assemble_writes svc s run (Inr () \<in> set (statuses res))"
    and "res_nullifiers res = newly (run_nfs run)" and "res_note_events res = events run"
  using assms by (auto simp: process_block_seeded_def split: sum.splits option.splits)

text \<open>
  C11: Shielded native funds are conserved: whatever pool transactions a block carries, accepted
  or not, the account writes it produces redistribute lamports among the parties without
  creating or destroying any, provided the payers, the vault and the fee collector are
  distinct accounts and the total supply is below \<open>2^64 - 1\<close>.
\<close>

theorem pool_conserves_lamports:
  assumes "process_block_seeded svc s txs seed = Some (Inr res)" and "txs \<noteq> []" and "finite A"
    and "\<forall>t\<in>set txs. parties_ok (config svc) A t \<and> native_only (snd t)"
    and "pool_state_addr (config svc) \<notin> A" and "total_lamports s seed A < 2 ^ 64 - 1"
  shows "(\<Sum>k\<in>A. unat (lamports_at (apply_writes (account_writes res) (get_account s)) k))
    = total_lamports s seed A"
proof -
  obtain st run where run: "apply_txs svc s (run_start s st seed) txs = Some (run, statuses res)"
    and ws: "account_writes res = assemble_writes svc s run (Inr () \<in> set (statuses res))"
    using process_block_cases [OF assms(1,2)] by metis
  have "tok run = RBT.empty" using apply_txs_native [OF run] assms(4) by (simp add: run_start_def)
  then have "(\<Sum>k\<in>A. unat (lamports_at (apply_writes (account_writes res) (get_account s)) k))
      = total_lamports s (lam run) A"
    unfolding total_lamports_def ws using assms(5) by (intro sum.cong refl) (metis writes_lamports)
  also have "\<dots> = total_lamports s seed A"
    using apply_txs_conserves [OF assms(3) run] assms(4,6) by (simp add: run_start_def)
  finally show ?thesis .
qed


section \<open>Lemmas: rejected transactions and the tree\<close>

lemma leaves_of_le: "length (leaves_of c ins) \<le> 2"
  by (cases ins) auto

lemma apply_one_rejected_same:
  assumes "crypto_ok (verifier svc)" and "pool_rep (verifier svc) (run_state run) leaves"
    and "length leaves + length (leaves_of (verifier svc) ins) \<le> 2 ^ TREE_DEPTH"
    and "apply_one svc s run p ins = Some (run', r)" and "r \<noteq> Inr ()"
  shows "run' = run"
proof (cases "precheck svc s (lam run) (tok run) p ins")
  case None
  have "\<not> acceptable (verifier svc) bn_ops (run_state run) (run_nfs run) ins"
    using process_accepts [OF assms(1,2) _ assms(3), of bn_ops "run_nfs run"] assms(4,5) None
    by (auto simp: apply_one_def Let_def split: option.splits prod.splits)
  then show ?thesis
    using process_rejects [of "verifier svc" bn_ops "run_state run" "run_nfs run" ins] assms(4) None
    by (auto simp: apply_one_def)
next
  case (Some e)
  then show ?thesis using assms(4) by (simp add: apply_one_def)
qed

lemma apply_one_accepted_rep:
  assumes "crypto_ok (verifier svc)" and "pool_rep (verifier svc) (run_state run) leaves"
    and "length leaves + length (leaves_of (verifier svc) ins) \<le> 2 ^ TREE_DEPTH"
    and "apply_one svc s run p ins = Some (run', Inr ())"
  shows "pool_rep (verifier svc) (run_state run') (leaves @ leaves_of (verifier svc) ins)"
proof -
  obtain out where out: "pool_process (verifier svc) bn_ops (run_state run) (run_nfs run) ins
      = (run_state run', run_nfs run', Inr out)"
    using apply_one_process [OF assms(4)] by auto
  then have "acceptable (verifier svc) bn_ops (run_state run) (run_nfs run) ins"
    using process_rejects [of "verifier svc" bn_ops "run_state run" "run_nfs run" ins] by auto
  from process_accepts [OF assms(1,2) this assms(3)] out show ?thesis by auto
qed

lemma apply_txs_accepted:
  assumes "crypto_ok (verifier svc)"
  shows "apply_txs svc s run txs = Some (run', rs) \<Longrightarrow> pool_rep (verifier svc) (run_state run) leaves
    \<Longrightarrow> length leaves + 2 * length txs \<le> 2 ^ TREE_DEPTH
    \<Longrightarrow> apply_txs svc s run (accepted_txs txs rs)
          = Some (run', replicate (length (accepted_txs txs rs)) (Inr ()))
      \<and> pool_rep (verifier svc) (run_state run')
          (leaves @ concat (map (leaves_of (verifier svc) \<circ> snd) (accepted_txs txs rs)))"
proof (induction txs arbitrary: run rs leaves)
  case Nil
  then show ?case by auto
next
  case (Cons t txs)
  let ?c = "verifier svc"
  from Cons.prems(1) obtain run1 r rs1 where one: "apply_one svc s run (fst t) (snd t) = Some (run1, r)"
    and rest: "apply_txs svc s run1 txs = Some (run', rs1)" and rs: "rs = r # rs1"
    by (rule apply_txs_Cons)
  have room: "length leaves + length (leaves_of ?c (snd t)) \<le> 2 ^ TREE_DEPTH"
    using Cons.prems(3) leaves_of_le [of ?c "snd t"] by simp
  show ?case
  proof (cases "r = Inr ()")
    case True
    have rep: "pool_rep ?c (run_state run1) (leaves @ leaves_of ?c (snd t))"
      by (rule apply_one_accepted_rep [OF assms Cons.prems(2) room one [unfolded True]])
    have "length (leaves @ leaves_of ?c (snd t)) + 2 * length txs \<le> 2 ^ TREE_DEPTH"
      using Cons.prems(3) leaves_of_le [of ?c "snd t"] by simp
    from Cons.IH [OF rest rep this] show ?thesis by (cases t) (use one in \<open>simp add: rs True\<close>)
  next
    case False
    have "run1 = run" by (rule apply_one_rejected_same [OF assms Cons.prems(2) room one False])
    with Cons.IH [OF rest, of leaves] Cons.prems(2,3) False show ?thesis by (simp add: rs)
  qed
qed

lemma rejected_block_same:
  assumes "accepted_txs txs rs = []" and "apply_txs svc s run txs = Some (run', rs)"
    and "crypto_ok (verifier svc)" and "pool_rep (verifier svc) (run_state run) leaves"
    and "length leaves + 2 * length txs \<le> 2 ^ TREE_DEPTH"
  shows "run' = run"
  using apply_txs_accepted [OF assms(3,2,4,5)] assms(1) by simp

lemma apply_txs_length: "apply_txs svc s run txs = Some (run', rs) \<Longrightarrow> length rs = length txs"
  by (induction txs arbitrary: run rs) (auto elim!: apply_txs_Cons simp del: apply_txs.simps(2))

lemma accepted_nonempty_iff:
  "length txs = length rs \<Longrightarrow> accepted_txs txs rs = [] \<longleftrightarrow> Inr () \<notin> set rs"
  by (induction txs rs rule: list_induct2) auto


section \<open>More properties\<close>

text \<open>
  C29: Rejected pool transactions leave no trace: while the tree has room, a block's writes,
  nullifiers and note events are those of the block that carries only its accepted
  transactions, in the same order.
\<close>

theorem rejected_transactions_are_noops:
  assumes "process_block_seeded svc s txs seed = Some (Inr res)" and "load_state svc s = Inr st"
    and "crypto_ok (verifier svc)" and "pool_rep (verifier svc) st leaves"
    and "length leaves + 2 * length txs \<le> 2 ^ TREE_DEPTH" and "accepted_txs txs (statuses res) \<noteq> []"
  shows "process_block_seeded svc s (accepted_txs txs (statuses res)) seed
    = Some (Inr (res\<lparr> statuses := replicate (length (accepted_txs txs (statuses res))) (Inr ()) \<rparr>))"
proof -
  have "txs \<noteq> []" using assms(6) by auto
  then obtain run where run: "apply_txs svc s (run_start s st seed) txs = Some (run, statuses res)"
    and res: "account_writes res = assemble_writes svc s run (Inr () \<in> set (statuses res))"
      "res_nullifiers res = newly (run_nfs run)" "res_note_events res = events run"
    using process_block_cases [OF assms(1)] assms(2) by (metis sum.inject(2))
  have rep: "pool_rep (verifier svc) (run_state (run_start s st seed)) leaves"
    using assms(4) by (simp add: run_start_def)
  have acc: "apply_txs svc s (run_start s st seed) (accepted_txs txs (statuses res))
      = Some (run, replicate (length (accepted_txs txs (statuses res))) (Inr ()))"
    using apply_txs_accepted [OF assms(3) run rep assms(5)] by simp
  have "Inr () \<in> set (statuses res)"
    using accepted_nonempty_iff [of txs "statuses res"] apply_txs_length [OF run] assms(6) by simp
  then show ?thesis
    using assms(2,6) acc res by (cases res) (simp add: process_block_seeded_def)
qed



section \<open>Lemmas: the sample\<close>

lemma untag_tag: "untag_bytes (tag_bytes bs @ rest) = Some (bs, rest)"
  by (induction bs) (simp_all add: tag_bytes_def)

lemma untag_list_tags:
  "untag_list (length xs) (concat (map tag_bytes xs) @ rest) = Some (xs, rest)"
  by (induction xs) (simp_all add: untag_tag)

lemma sample_decode_encode: "sample_decode (sample_encode st) = Some st"
proof -
  have "drop 8 (sample_encode st) = tag_bytes (replicate (length (filled_subtrees st)) 0)
      @ concat (map tag_bytes (filled_subtrees st))
      @ tag_bytes (replicate (length (roots st)) 0) @ concat (map tag_bytes (roots st)) @ []"
    by (simp add: sample_encode_def)
  moreover have "take 4 (sample_encode st) = u32_le (current_root_index st)"
    "take 4 (drop 4 (sample_encode st)) = u32_le (next_leaf_index st)"
    by (simp_all add: sample_encode_def)
  ultimately show ?thesis
    by (simp only: sample_decode_def untag_tag untag_list_tags length_replicate bind.simps prod.case u32_le_roundtrip) simp
qed

lemma zero_at_byte_Suc: "zero_at byte_pool (Suc n) = 4 * zero_at byte_pool n + 4"
  by (simp add: tree_node_def hash2_def byte_pool_def Let_def algebra_simps)

lemma zero_at_byte_pool: "zero_at byte_pool (n + 4) = 84"
proof (induction n)
  case 0
  have z: "(256 :: u8) = 0" by code_simp
  have "4 * (4 * (4 * (4 * x + 4) + 4) + 4) + 4 = 256 * x + (340 :: u8)" for x
    by (simp only: distrib_left mult.assoc [symmetric] add.assoc) simp
  then have "zero_at byte_pool (Suc (Suc (Suc (Suc 0)))) = 256 * zero_at byte_pool 0 + 340"
    by (simp only: zero_at_byte_Suc)
  also have "\<dots> = 84" unfolding z by simp
  finally show ?case by (simp only: numeral_eq_Suc pred_numeral_simps BitM.simps add_0 One_nat_def)
next
  case (Suc n)
  then show ?case unfolding add_Suc zero_at_byte_Suc by simp
qed

lemma sample_root: "fr_to_bytes byte_pool (zero_at byte_pool TREE_DEPTH) \<noteq> replicate 32 0"
proof -
  have "zero_at byte_pool TREE_DEPTH = 84" using zero_at_byte_pool [of 22] by (simp add: TREE_DEPTH_def)
  then have "hd (fr_to_bytes byte_pool (zero_at byte_pool TREE_DEPTH)) = 84"
    by (simp add: fr_to_bytes_eq) (simp add: byte_pool_def)
  then show ?thesis by auto
qed

lemma sample_root_known: "is_known_root (pool_new byte_pool) (fr_to_bytes byte_pool (zero_at byte_pool TREE_DEPTH))"
proof -
  have "root_at byte_pool [] 0 = fr_to_bytes byte_pool (zero_at byte_pool TREE_DEPTH)"
    by (simp add: root_at_def tree_val_beyond)
  then show ?thesis
    using ring_known [OF pool_new_ring [of byte_pool] sample_root] by (simp add: ROOT_HISTORY_def)
qed

lemma sample_unshield_acceptable:
  "acceptable byte_pool bn_ops (pool_new byte_pool) \<lparr> nf_store = sample_pool_store, within = {}, newly = [] \<rparr> sample_unshield"
  using sample_root_known
  by (simp add: sample_unshield_def bn_ops_def bn_contains_def is_nullifier_spent_def sample_pool_store_def
      store_open_def) (simp add: byte_pool_def)

lemma sample_load: "load_state sample_svc sample_pool_store = Inr (pool_new byte_pool)"
  by (simp add: load_state_def sample_svc_def sample_pool_store_def get_account_def sample_pool_account_def
      genesis_pool_account_def sample_decode_encode)

lemma sample_pool_run:
  "process_block_seeded sample_svc sample_pool_store sample_pool_txs RBT.empty = Some (Inr sample_pool_result)
    \<and> statuses sample_pool_result = [Inr (), Inl (PoolErr ZeroAmount)]"
proof -
  obtain st ns out where ok: "pool_process byte_pool bn_ops (pool_new byte_pool)
      \<lparr> nf_store = sample_pool_store, within = {}, newly = [] \<rparr> sample_unshield = (st, ns, Inr out)"
    and eff: "effects out = [WithdrawFromVault Native 3 [2]]"
    using process_accepts [OF byte_pool_ok pool_new_rep sample_unshield_acceptable]
    by (auto simp: sample_unshield_def TREE_DEPTH_def)
  have acc: "get_account sample_pool_store k = (if k = [1] then Some (new_system 100)
      else if k = [11] then Some (new_system 50) else if k = [10] then Some sample_pool_account else None)" for k
    by (simp add: get_account_def sample_pool_store_def)
  obtain run where one: "apply_one sample_svc sample_pool_store
      (run_start sample_pool_store (pool_new byte_pool) RBT.empty) [1] sample_unshield = Some (run, Inr ())"
    and bal: "balance sample_pool_store (lam run) [1] = 95"
    using ok eff
    by (simp add: apply_one_def run_start_def sample_svc_def precheck_def sample_unshield_def balance_def acc
        new_system_def apply_effect_def move_lamports_def saturating_sub_def Let_def)
  have two: "apply_one sample_svc sample_pool_store run [1] (Shield Native 0 [] []) = Some (run, Inl (PoolErr ZeroAmount))"
    by (simp add: apply_one_def precheck_def bal pool_process_def shield_def sample_svc_def saturating_add_def)
  show ?thesis
    by (simp add: sample_pool_result_def process_block_seeded_def sample_load sample_pool_txs_def one two)
qed

lemma sample_parties: "t \<in> set sample_pool_txs \<Longrightarrow> parties_ok (config sample_svc) {[1], [2], [11], [12]} t \<and> native_only (snd t)"
  by (auto simp: sample_pool_txs_def parties_ok_def sample_svc_def sample_unshield_def)

lemma sample_accepted: "accepted_txs sample_pool_txs (statuses sample_pool_result) = [([1], sample_unshield)]"
  using sample_pool_run by (simp add: sample_pool_txs_def)

lemma sample_svc_simps:
  "verifier sample_svc = byte_pool" "pool_state_addr (config sample_svc) = [10]"
  "decode_state sample_svc = sample_decode" "encode_state sample_svc = sample_encode"
  "sample_pool_txs \<noteq> []" "length sample_pool_txs = 2" "leaves_of byte_pool sample_unshield = [8]"
  by (simp_all add: sample_svc_def sample_pool_txs_def sample_unshield_def)

theorem block_nullifiers_fresh_witness:
  "distinct (res_nullifiers sample_pool_result)
    \<and> set (nullifiers_of sample_unshield) \<subseteq> set (res_nullifiers sample_pool_result)"
  using block_nullifiers_fresh [OF conjunct1 [OF sample_pool_run]] by (simp add: sample_accepted)

theorem pool_conserves_lamports_witness:
  "(\<Sum>k\<in>{[1], [2], [11], [12]}. unat (lamports_at (apply_writes (account_writes sample_pool_result)
      (get_account sample_pool_store)) k)) = 150"
proof -
  have tot: "total_lamports sample_pool_store RBT.empty {[1], [2], [11], [12]} = 150"
    by (simp add: total_lamports_def balance_def get_account_def sample_pool_store_def new_system_def)
  show ?thesis
    using pool_conserves_lamports [OF conjunct1 [OF sample_pool_run], of "{[1], [2], [11], [12]}"]
      sample_parties tot
    by (simp add: sample_svc_simps)
qed

theorem rejected_transactions_are_noops_witness:
  "process_block_seeded sample_svc sample_pool_store [([1], sample_unshield)] RBT.empty
    = Some (Inr (sample_pool_result\<lparr> statuses := [Inr ()] \<rparr>))"
  using rejected_transactions_are_noops [OF conjunct1 [OF sample_pool_run] sample_load, of "[]"]
  by (simp add: sample_accepted sample_svc_simps pool_new_rep TREE_DEPTH_def)



section \<open>Lemmas: moving wrapped tokens\<close>

lemma amount_or_zero_set:
  "set_token_account_amount d a = Some d' \<Longrightarrow> amount_or_zero d' = a"
  using token_account_amount_set(1) by (simp add: amount_or_zero_def)

lemma token_balance_account:
  assumes "digest32 (svc_b3 svc)" and "length own = 32"
  shows "token_balance svc s tv mint own
    = amount_or_zero (data (token_account svc s tv (wrapped_mint_address (svc_b3 svc) mint) own))"
proof -
  have "length (wrapped_mint_address (svc_b3 svc) mint) = 32"
    using assms(1) by (simp add: wrapped_mint_address_def blake3_32_def digest32_def)
  then show ?thesis
    using pack_token_account_fields [of "wrapped_mint_address (svc_b3 svc) mint" own 0] assms(2)
    by (auto simp: token_balance_def token_account_def token_ata_def amount_or_zero_def Let_def split: option.splits)
qed

lemma token_balance_insert:
  "token_balance svc s (RBT.insert a acc tv) mint own
    = (if token_ata svc mint own = a then amount_or_zero (data acc) else token_balance svc s tv mint own)"
  by (simp add: token_balance_def Let_def)

lemma move_wrapped_balances:
  assumes "digest32 (svc_b3 svc)" and "length f = 32" and "length t = 32"
    and "move_wrapped svc s tv mint f t amount = Some tv'"
  shows "token_balance svc s tv' mint own =
    (if token_ata svc mint own = token_ata svc mint t
     then saturating_add (if token_ata svc mint t = token_ata svc mint f
        then saturating_sub (token_balance svc s tv mint f) amount else token_balance svc s tv mint t) amount
     else if token_ata svc mint own = token_ata svc mint f
     then saturating_sub (token_balance svc s tv mint f) amount else token_balance svc s tv mint own)"
proof -
  let ?wm = "wrapped_mint_address (svc_b3 svc) mint"
  let ?src = "token_account svc s tv ?wm f"
  obtain d where d: "set_token_account_amount (data ?src) (saturating_sub (amount_or_zero (data ?src)) amount) = Some d"
    using assms(4) by (auto simp: move_wrapped_def Let_def bind_eq_Some_conv)
  let ?tv = "RBT.insert (token_ata svc mint f) (?src\<lparr> data := d \<rparr>) tv"
  let ?dst = "token_account svc s ?tv ?wm t"
  obtain e where e: "set_token_account_amount (data ?dst) (saturating_add (amount_or_zero (data ?dst)) amount) = Some e"
    and tv': "tv' = RBT.insert (token_ata svc mint t) (?dst\<lparr> data := e \<rparr>) ?tv"
    using assms(4) d by (auto simp: move_wrapped_def Let_def bind_eq_Some_conv token_ata_def)
  have "token_balance svc s ?tv mint t = amount_or_zero (data ?dst)"
    by (rule token_balance_account [OF assms(1,3)])
  moreover have "token_balance svc s tv mint f = amount_or_zero (data ?src)"
    by (rule token_balance_account [OF assms(1,2)])
  ultimately show ?thesis
    using amount_or_zero_set [OF d] amount_or_zero_set [OF e]
    by (auto simp: tv' token_balance_insert)
qed

text \<open>
  C30: Moving wrapped tokens is exact: an affordable move debits the sender's and credits the
  receiver's token account by the amount and leaves every other account of the mint alone,
  and a move within one token account changes no balance.
\<close>

theorem move_wrapped_exact:
  assumes "digest32 (svc_b3 svc)" and "length f = 32" and "length t = 32"
    and "move_wrapped svc s tv mint f t amount = Some tv'" and "amount \<le> token_balance svc s tv mint f"
    and "unat (token_balance svc s tv mint f) + unat (token_balance svc s tv mint t) < 2 ^ 64"
  shows "if token_ata svc mint f = token_ata svc mint t
    then token_balance svc s tv' mint own = token_balance svc s tv mint own
    else unat (token_balance svc s tv' mint f) = unat (token_balance svc s tv mint f) - unat amount
      \<and> unat (token_balance svc s tv' mint t) = unat (token_balance svc s tv mint t) + unat amount
      \<and> (token_ata svc mint own \<notin> {token_ata svc mint f, token_ata svc mint t}
         \<longrightarrow> token_balance svc s tv' mint own = token_balance svc s tv mint own)"
proof -
  note bal = move_wrapped_balances [OF assms(1-4)]
  have le: "unat amount \<le> unat (token_balance svc s tv mint f)" using assms(5) by (simp add: word_le_nat_alt)
  have undo: "saturating_add (saturating_sub (token_balance svc s tv mint f) amount) amount
      = token_balance svc s tv mint f"
    by (rule unat_inj [THEN iffD1]) (use le unat_bound [of "token_balance svc s tv mint f"] in
      \<open>simp add: unat_saturating_add unat_saturating_sub\<close>)
  have same: "token_balance svc s tv mint own = token_balance svc s tv mint o'"
    if "token_ata svc mint own = token_ata svc mint o'" for o'
    using that by (simp add: token_balance_def)
  show ?thesis
  proof (cases "token_ata svc mint f = token_ata svc mint t")
    case True
    then show ?thesis using bal [of own] undo same [of f] by simp
  next
    case False
    then show ?thesis
      using bal [of own] bal [of f] bal [of t] le assms(6) by (auto simp: unat_saturating_add unat_saturating_sub)
  qed
qed

lemma sample_ata: "length own = 32 \<Longrightarrow> associated_token_address (svc_pda sample_svc) own wm = own"
  by (simp add: associated_token_address_def sample_svc_def pad_hash_def)

lemma sample_no_account: "length own = 32 \<Longrightarrow> get_account sample_pool_store own = None"
  by (auto simp: get_account_def sample_pool_store_def)

lemma sample_wmint: "length (wrapped_mint_address (svc_b3 sample_svc) m) = 32"
  by (simp add: wrapped_mint_address_def blake3_32_def sample_svc_def pad_hash_def)

lemma sample_move:
  "\<exists>tv'. move_wrapped sample_svc sample_pool_store sample_token_overlay [3] (replicate 32 1) (replicate 32 2) 4 = Some tv'"
proof -
  have ne: "replicate 32 (1 :: u8) \<noteq> replicate 32 2" by simp
  show ?thesis
    using ne
    by (simp add: move_wrapped_def sample_ata token_account_def sample_no_account sample_token_overlay_def
        set_token_account_amount_Some sample_wmint ACCOUNT_LEN_def Let_def)
qed

lemma sample_token_balances:
  "token_balance sample_svc sample_pool_store sample_token_overlay [3] (replicate 32 1) = 9"
  "token_balance sample_svc sample_pool_store sample_token_overlay [3] (replicate 32 2) = 0"
  using pack_token_account_fields [of "replicate 32 0" "replicate 32 1" 9]
  by (simp_all add: token_balance_def token_ata_def sample_ata sample_no_account sample_token_overlay_def
      amount_or_zero_def Let_def)

theorem move_wrapped_exact_witness:
  "\<exists>tv'. move_wrapped sample_svc sample_pool_store sample_token_overlay [3] (replicate 32 1) (replicate 32 2) 4 = Some tv'
    \<and> unat (token_balance sample_svc sample_pool_store tv' [3] (replicate 32 1)) = 5
    \<and> unat (token_balance sample_svc sample_pool_store tv' [3] (replicate 32 2)) = 4"
proof -
  obtain tv' where tv': "move_wrapped sample_svc sample_pool_store sample_token_overlay [3]
      (replicate 32 1) (replicate 32 2) 4 = Some tv'"
    using sample_move by blast
  have "token_ata sample_svc [3] (replicate 32 1) \<noteq> token_ata sample_svc [3] (replicate 32 2)"
    by (simp add: token_ata_def sample_ata)
  moreover have "digest32 (svc_b3 sample_svc)" by (simp add: sample_svc_def)
  ultimately show ?thesis
    using move_wrapped_exact [OF _ _ _ tv'] tv' by (simp add: sample_token_balances)
qed

end
