(* ===== verification/Executor.thy ===== *)
theory Executor
  imports Store Pool_Service
begin

text \<open>
  The execution layer, \<^verbatim>\<open>zul-executor\<close>: the account overlay the virtual machine reads through
  (\<^verbatim>\<open>callback.rs\<close>), the clock account (\<^verbatim>\<open>sysvars.rs\<close>), and \<^verbatim>\<open>execute_block\<close> of \<^verbatim>\<open>lib.rs\<close> around
  the virtual machine. The virtual machine itself, signature verification, sanitising and the
  compute budget parser are the SDK's and are parameters, collected in the record \<open>svm\<close>. An
  SDK account and a stored account have the same fields, so the conversions between them are
  the identity here.
\<close>

section \<open>Data\<close>

datatype tx_error =
  AlreadyProcessed | SignatureFailure | BlockhashNotFound | InstructionErrorCustom nat nat | OtherTxError string

record block_execution_input =
  in_slot :: u64
  in_timestamp_ms :: u64
  parent_blockhash :: h256
  in_transactions :: "transaction list"
  in_queue :: blockhash_queue

record block_execution_output =
  included :: "(transaction \<times> tx_error executed_meta) list"
  dropped :: "(sigbytes \<times> tx_error) list"
  out_writes :: "account_write list"
  fees_collected :: u64

text \<open>
  A checked transaction as it goes into the batch: the budget the parser found, the signature
  fee and the prioritisation fee. A result of the machine: an error, a transaction that only
  paid its fee (with its rolled back accounts and the load error), or an executed one.
\<close>

record 'b checked =
  ck_tx :: transaction
  ck_budget :: 'b
  ck_signature_fee :: u64
  ck_priority_fee :: u64

datatype processed =
  ProcessingError tx_error
| FeesOnly u64 "(pubkey \<times> stored_account) list" tx_error
| Executed u64 "(pubkey \<times> stored_account) list" "tx_error option" u64 "string list option"

record 'b svm =
  verify_sigs :: "transaction \<Rightarrow> bool"
  sanitize :: "transaction \<Rightarrow> tx_error option"
  budget_limits :: "transaction \<Rightarrow> tx_error + 'b"
  num_transaction_signatures :: "transaction \<Rightarrow> u64"
  num_ed25519_signatures :: "transaction \<Rightarrow> u64"
  num_secp256k1_signatures :: "transaction \<Rightarrow> u64"
  num_secp256r1_signatures :: "transaction \<Rightarrow> u64"
  prioritization_fee :: "'b \<Rightarrow> u64"
  is_writable :: "transaction \<Rightarrow> nat \<Rightarrow> bool"
  load_and_execute :: "(pubkey \<rightharpoonup> stored_account) \<Rightarrow> u64 \<Rightarrow> h256 \<Rightarrow> 'b checked list \<Rightarrow> processed list"
  clock_id :: pubkey
  sysvar_owner :: pubkey
  epoch_of_slot :: "u64 \<Rightarrow> u64"
  ser_clock :: "u64 \<Rightarrow> u64 \<Rightarrow> u64 \<Rightarrow> bytes"


section \<open>callback.rs and sysvars.rs\<close>

record 'e store_callback =
  cb_store :: "'e store"
  cb_overlay :: "(pubkey, stored_account) rbt"

definition callback_new :: "'e store \<Rightarrow> 'e store_callback" where
  "callback_new s = \<lparr> cb_store = s, cb_overlay = RBT.empty \<rparr>"

definition set_account :: "pubkey \<Rightarrow> stored_account \<Rightarrow> 'e store_callback \<Rightarrow> 'e store_callback" where
  "set_account pk a cb = cb\<lparr> cb_overlay := RBT.insert pk a (cb_overlay cb) \<rparr>"

definition cb_get :: "'e store_callback \<Rightarrow> pubkey \<Rightarrow> stored_account option" where
  "cb_get cb pk = (case RBT.lookup (cb_overlay cb) pk of Some a \<Rightarrow> Some a | None \<Rightarrow> get_account (cb_store cb) pk)"

definition cb_lamports :: "'e store_callback \<Rightarrow> pubkey \<Rightarrow> u64" where
  "cb_lamports cb pk = (case cb_get cb pk of Some a \<Rightarrow> lamports a | None \<Rightarrow> 0)"

text \<open>An account without lamports is a deletion.\<close>

definition account_or_delete :: "stored_account \<Rightarrow> stored_account option" where
  "account_or_delete a = (if lamports a = 0 then None else Some a)"

definition take_overlay_writes :: "'e store_callback \<Rightarrow> account_write list" where
  "take_overlay_writes cb = map (\<lambda>(pk, a). (pk, account_or_delete a)) (RBT.entries (cb_overlay cb))"

definition sysvar_account :: "'b svm \<Rightarrow> bytes \<Rightarrow> stored_account" where
  "sysvar_account vm d = \<lparr> lamports = 1, data = d, owner = sysvar_owner vm, executable = False,
    rent_epoch = RENT_EXEMPT_RENT_EPOCH \<rparr>"

definition clock_account :: "'b svm \<Rightarrow> u64 \<Rightarrow> u64 \<Rightarrow> pubkey \<times> stored_account" where
  "clock_account vm sl ts =
    (let epoch = epoch_of_slot vm sl in (clock_id vm, sysvar_account vm (ser_clock vm sl (ts div 1000) epoch)))"


section \<open>lib.rs: admission\<close>

definition signature_count :: "'b svm \<Rightarrow> transaction \<Rightarrow> u64" where
  "signature_count vm tx =
    saturating_add (saturating_add (saturating_add (num_transaction_signatures vm tx)
      (num_ed25519_signatures vm tx)) (num_secp256k1_signatures vm tx)) (num_secp256r1_signatures vm tx)"

text \<open>
  One pass of the admission loop over a transaction: the signatures seen, the dropped
  transactions and the batch. Only a broken transaction index in the store stops the loop.
\<close>

type_synonym 'b admission = "sigbytes set \<times> (sigbytes \<times> tx_error) list \<times> 'b checked list"

definition admit_one ::
  "'b svm \<Rightarrow> tx_error store \<Rightarrow> blockhash_queue \<Rightarrow> transaction \<Rightarrow> 'b admission \<Rightarrow> store_error + 'b admission" where
  "admit_one vm s q tx adm =
    (case adm of (seen, drp, batch) \<Rightarrow>
     (case first (signatures tx) of None \<Rightarrow> Inr (seen, drp, batch)
      | Some sig \<Rightarrow>
        if sig \<in> seen then Inr (seen, drp @ [(sig, AlreadyProcessed)], batch)
        else
         (let seen = insert sig seen
          in case get_transaction s sig of
               Inl e \<Rightarrow> Inl e
             | Inr (Some _) \<Rightarrow> Inr (seen, drp @ [(sig, AlreadyProcessed)], batch)
             | Inr None \<Rightarrow>
                 if \<not> verify_sigs vm tx then Inr (seen, drp @ [(sig, SignatureFailure)], batch)
                 else if \<not> is_valid q (recent_blockhash tx) then Inr (seen, drp @ [(sig, BlockhashNotFound)], batch)
                 else case sanitize vm tx of
                   Some e \<Rightarrow> Inr (seen, drp @ [(sig, e)], batch)
                 | None \<Rightarrow>
                   (case budget_limits vm tx of
                      Inl e \<Rightarrow> Inr (seen, drp @ [(sig, e)], batch)
                    | Inr limits \<Rightarrow>
                        Inr (seen, drp, batch @ [\<lparr> ck_tx = tx, ck_budget = limits,
                          ck_signature_fee = saturating_mul (signature_count vm tx) LAMPORTS_PER_SIGNATURE,
                          ck_priority_fee = prioritization_fee vm limits \<rparr>])))))"

fun admit_all ::
  "'b svm \<Rightarrow> tx_error store \<Rightarrow> blockhash_queue \<Rightarrow> transaction list \<Rightarrow> 'b admission \<Rightarrow> store_error + 'b admission" where
  "admit_all vm s q [] adm = Inr adm"
| "admit_all vm s q (tx # txs) adm =
    (case admit_one vm s q tx adm of Inl e \<Rightarrow> Inl e | Inr adm' \<Rightarrow> admit_all vm s q txs adm')"


section \<open>lib.rs: results\<close>

record collected =
  final_accounts :: "(pubkey, stored_account) rbt"
  col_included :: "(transaction \<times> tx_error executed_meta) list"
  col_dropped :: "(sigbytes \<times> tx_error) list"
  col_fees :: u64

definition lamports_of :: "(pubkey, stored_account) rbt \<Rightarrow> 'e store_callback \<Rightarrow> pubkey \<Rightarrow> u64" where
  "lamports_of fin cb key = (case RBT.lookup fin key of Some a \<Rightarrow> lamports a | None \<Rightarrow> cb_lamports cb key)"

fun insert_writable ::
  "(nat \<Rightarrow> bool) \<Rightarrow> nat \<Rightarrow> (pubkey \<times> stored_account) list \<Rightarrow> (pubkey, stored_account) rbt \<Rightarrow> (pubkey, stored_account) rbt" where
  "insert_writable wr i [] fin = fin"
| "insert_writable wr i ((pk, a) # rest) fin =
    insert_writable wr (Suc i) rest (if wr i then RBT.insert pk a fin else fin)"

definition collect_one ::
  "'b svm \<Rightarrow> 'e store_callback \<Rightarrow> processed \<times> transaction \<Rightarrow> collected \<Rightarrow> collected" where
  "collect_one vm cb rt col =
    (case rt of (result, tx) \<Rightarrow>
     (let pre = map (lamports_of (final_accounts col) cb) (account_keys tx)
      in case result of
        ProcessingError e \<Rightarrow> col\<lparr> col_dropped := col_dropped col @ [(hd (signatures tx), e)] \<rparr>
      | FeesOnly f rollback load_error \<Rightarrow>
          (let fin = fold (\<lambda>(pk, a). RBT.insert pk a) rollback (final_accounts col)
           in col\<lparr> final_accounts := fin, col_fees := saturating_add (col_fees col) f,
                   col_included := col_included col @ [(tx, \<lparr> status = Some load_error, fee = f,
                     compute_units_consumed = 0, log_messages = [], pre_balances = pre,
                     post_balances = map (lamports_of fin cb) (account_keys tx) \<rparr>)] \<rparr>)
      | Executed f accs st units logs \<Rightarrow>
          (let fin = insert_writable (is_writable vm tx) 0 accs (final_accounts col)
           in col\<lparr> final_accounts := fin, col_fees := saturating_add (col_fees col) f,
                   col_included := col_included col @ [(tx, \<lparr> status = st, fee = f,
                     compute_units_consumed = units, log_messages = (case logs of Some l \<Rightarrow> l | None \<Rightarrow> []),
                     pre_balances = pre,
                     post_balances = map (lamports_of fin cb) (account_keys tx) \<rparr>)] \<rparr>)))"

definition credit_fees ::
  "'e store_callback \<Rightarrow> pubkey \<Rightarrow> u64 \<Rightarrow> (pubkey, stored_account) rbt \<Rightarrow> (pubkey, stored_account) rbt" where
  "credit_fees cb collector fees fin =
    (if fees > 0
     then (let acc = (case RBT.lookup fin collector of Some a \<Rightarrow> a
                      | None \<Rightarrow> (case cb_get cb collector of Some a \<Rightarrow> a | None \<Rightarrow> new_system 0))
           in RBT.insert collector (acc\<lparr> lamports := saturating_add (lamports acc) fees \<rparr>) fin)
     else fin)"

definition merge_writes :: "account_write list \<Rightarrow> (pubkey, stored_account) rbt \<Rightarrow> account_write list" where
  "merge_writes overlay fin =
    RBT.entries (fold (\<lambda>(pk, a). RBT.insert pk (account_or_delete a)) (RBT.entries fin)
      (fold (\<lambda>(pk, a). RBT.insert pk a) overlay RBT.empty))"

definition execute_block ::
  "'b svm \<Rightarrow> pubkey \<Rightarrow> tx_error store \<Rightarrow> block_execution_input \<Rightarrow> store_error + block_execution_output" where
  "execute_block vm collector s input =
    (let (ck, ca) = clock_account vm (in_slot input) (in_timestamp_ms input);
         cb = set_account ck ca (callback_new s)
     in case admit_all vm s (in_queue input) (in_transactions input) ({}, [], []) of
          Inl e \<Rightarrow> Inl e
        | Inr (seen, drp, batch) \<Rightarrow>
            (let results = load_and_execute vm (cb_get cb) (in_slot input) (parent_blockhash input) batch;
                 col = fold (collect_one vm cb) (zip results (map ck_tx batch))
                   \<lparr> final_accounts = RBT.empty, col_included = [], col_dropped = drp, col_fees = 0 \<rparr>;
                 fin = credit_fees cb collector (col_fees col) (final_accounts col)
             in Inr \<lparr> included = col_included col, dropped = col_dropped col,
                      out_writes = merge_writes (take_overlay_writes cb) fin,
                      fees_collected = col_fees col \<rparr>))"


section \<open>Invariants and samples\<close>

text \<open>What the admission loop promises of a transaction it puts into the batch.\<close>

definition admitted :: "'b svm \<Rightarrow> tx_error store \<Rightarrow> blockhash_queue \<Rightarrow> transaction \<Rightarrow> bool" where
  "admitted vm s q tx \<longleftrightarrow> signatures tx \<noteq> [] \<and> verify_sigs vm tx \<and> is_valid q (recent_blockhash tx)
    \<and> get_transaction s (hd (signatures tx)) = Inr None"

definition batch_ok :: "'b svm \<Rightarrow> tx_error store \<Rightarrow> blockhash_queue \<Rightarrow> transaction set \<Rightarrow> 'b admission \<Rightarrow> bool" where
  "batch_ok vm s q T adm \<longleftrightarrow> (case adm of (seen, drp, batch) \<Rightarrow>
    distinct (map (hd \<circ> signatures \<circ> ck_tx) batch) \<and> (hd \<circ> signatures \<circ> ck_tx) ` set batch \<subseteq> seen
    \<and> (\<forall>c\<in>set batch. ck_tx c \<in> T \<and> admitted vm s q (ck_tx c)))"

definition sample_svm :: "unit svm" where
  "sample_svm = \<lparr> verify_sigs = (\<lambda>_. True), sanitize = (\<lambda>_. None), budget_limits = (\<lambda>_. Inr ()),
    num_transaction_signatures = (\<lambda>_. 1), num_ed25519_signatures = (\<lambda>_. 0), num_secp256k1_signatures = (\<lambda>_. 0),
    num_secp256r1_signatures = (\<lambda>_. 0), prioritization_fee = (\<lambda>_. 2), is_writable = (\<lambda>_ _. True),
    load_and_execute = (\<lambda>get sl h batch. map (\<lambda>c. Executed (ck_signature_fee c + ck_priority_fee c) [] None 0 None) batch),
    clock_id = replicate 32 7, sysvar_owner = replicate 32 8, epoch_of_slot = (\<lambda>sl. sl div 432000),
    ser_clock = (\<lambda>sl ts ep. u64_le sl @ u64_le ts @ u64_le ep) \<rparr>"

definition sample_input :: block_execution_input where
  "sample_input = \<lparr> in_slot = 1, in_timestamp_ms = 5000, parent_blockhash = recent_blockhash sample_tx,
    in_transactions = [sample_tx, sample_tx],
    in_queue = register (the (with_capacity 5)) 0 (recent_blockhash sample_tx) \<rparr>"


section \<open>Lemmas\<close>

lemma admit_one_cases:
  assumes "admit_one vm s q tx (seen, drp, batch) = Inr adm'"
  shows "(\<exists>seen' drp'. adm' = (seen', drp', batch) \<and> seen \<subseteq> seen')
    \<or> (\<exists>c. adm' = (insert (hd (signatures tx)) seen, drp, batch @ [c]) \<and> ck_tx c = tx
        \<and> admitted vm s q tx \<and> hd (signatures tx) \<notin> seen)"
proof (cases "signatures tx")
  case Nil
  then show ?thesis using assms by (auto simp: admit_one_def)
next
  case (Cons sig sigs)
  then show ?thesis
    using assms
    by (cases "sig \<in> seen"; cases "get_transaction s sig"; cases "verify_sigs vm tx";
        cases "is_valid q (recent_blockhash tx)"; cases "sanitize vm tx"; cases "budget_limits vm tx")
      (auto simp: admit_one_def admitted_def Let_def split: option.splits)
qed

lemma admit_one_ok:
  assumes "admit_one vm s q tx adm = Inr adm'" and "batch_ok vm s q T adm" and "tx \<in> T"
  shows "batch_ok vm s q T adm'"
proof -
  obtain seen drp batch where adm: "adm = (seen, drp, batch)" by (cases adm)
  from admit_one_cases [OF assms(1) [unfolded adm]] show ?thesis
    using assms(2,3) by (auto simp: batch_ok_def adm image_subset_iff)
qed

lemma admit_all_ok:
  "admit_all vm s q txs adm = Inr adm' \<Longrightarrow> batch_ok vm s q T adm \<Longrightarrow> set txs \<subseteq> T \<Longrightarrow> batch_ok vm s q T adm'"
  by (induction txs arbitrary: adm) (auto split: sum.splits dest: admit_one_ok)

lemma collect_one_included:
  "\<exists>new. col_included (collect_one vm cb (r, tx) col) = col_included col @ new
    \<and> (new = [] \<and> col_fees (collect_one vm cb (r, tx) col) = col_fees col
      \<or> (\<exists>m. new = [(tx, m)] \<and> col_fees (collect_one vm cb (r, tx) col) = saturating_add (col_fees col) (fee m)))"
  by (cases r) (auto simp: collect_one_def Let_def)

lemma collect_distinct:
  assumes "distinct (map f (map fst (col_included col) @ map snd rts))"
  shows "distinct (map f (map fst (col_included (fold (collect_one vm cb) rts col))))"
  using assms
proof (induction rts arbitrary: col)
  case (Cons rt rts)
  obtain r tx where rt: "rt = (r, tx)" by (cases rt)
  obtain new where "col_included (collect_one vm cb (r, tx) col) = col_included col @ new" and "new = [] \<or> (\<exists>m. new = [(tx, m)])"
    using collect_one_included [of vm cb r tx col] by blast
  then have "distinct (map f (map fst (col_included (collect_one vm cb rt col)) @ map snd rts))"
    using Cons.prems by (auto simp: rt) force+
  from Cons.IH [OF this] show ?case by simp
qed simp

lemma collect_subset:
  "fst ` set (col_included (fold (collect_one vm cb) rts col)) \<subseteq> fst ` set (col_included col) \<union> snd ` set rts"
proof (induction rts arbitrary: col)
  case (Cons rt rts)
  obtain r tx where rt: "rt = (r, tx)" by (cases rt)
  have "fst ` set (col_included (collect_one vm cb rt col)) \<subseteq> insert tx (fst ` set (col_included col))"
    using collect_one_included [of vm cb r tx col] by (auto simp: rt)
  with Cons.IH [of "collect_one vm cb rt col"] show ?case by (simp add: rt) blast
qed simp

lemma collect_fees:
  "unat (col_fees col) = min (sum_list (map (unat \<circ> fee \<circ> snd) (col_included col))) (2 ^ 64 - 1)
    \<Longrightarrow> unat (col_fees (fold (collect_one vm cb) rts col))
      = min (sum_list (map (unat \<circ> fee \<circ> snd) (col_included (fold (collect_one vm cb) rts col)))) (2 ^ 64 - 1)"
proof (induction rts arbitrary: col)
  case (Cons rt rts)
  obtain r tx where rt: "rt = (r, tx)" by (cases rt)
  have "unat (col_fees (collect_one vm cb rt col))
      = min (sum_list (map (unat \<circ> fee \<circ> snd) (col_included (collect_one vm cb rt col)))) (2 ^ 64 - 1)"
    using collect_one_included [of vm cb r tx col] Cons.prems by (auto simp: rt unat_saturating_add comp_def)
  from Cons.IH [OF this] show ?case by simp
qed simp

lemma execute_block_cases:
  assumes "execute_block vm collector s input = Inr out"
  obtains seen drp batch results and cb :: "tx_error store_callback" where
    "admit_all vm s (in_queue input) (in_transactions input) ({}, [], []) = Inr (seen, drp, batch)"
    and "included out = col_included (fold (collect_one vm cb) (zip results (map ck_tx batch))
      \<lparr> final_accounts = RBT.empty, col_included = [], col_dropped = drp, col_fees = 0 \<rparr>)"
    and "fees_collected out = col_fees (fold (collect_one vm cb) (zip results (map ck_tx batch))
      \<lparr> final_accounts = RBT.empty, col_included = [], col_dropped = drp, col_fees = 0 \<rparr>)"
proof -
  obtain ck ca where clock: "clock_account vm (in_slot input) (in_timestamp_ms input) = (ck, ca)"
    by (cases "clock_account vm (in_slot input) (in_timestamp_ms input)")
  let ?cb = "set_account ck ca (callback_new s)"
  obtain seen drp batch where
    adm: "admit_all vm s (in_queue input) (in_transactions input) ({}, [], []) = Inr (seen, drp, batch)"
    using assms
    by (cases "admit_all vm s (in_queue input) (in_transactions input) ({}, [], [])")
      (auto simp: execute_block_def clock Let_def)
  show thesis
    by (rule that [OF adm, of ?cb "load_and_execute vm (cb_get ?cb) (in_slot input) (parent_blockhash input) batch"])
      (use assms in \<open>auto simp: execute_block_def clock adm Let_def\<close>)
qed

lemma execute_block_included:
  assumes "execute_block vm collector s input = Inr out"
  shows "distinct (map (hd \<circ> signatures \<circ> fst) (included out))"
    and "(tx, m) \<in> set (included out) \<Longrightarrow> tx \<in> set (in_transactions input) \<and> admitted vm s (in_queue input) tx"
proof -
  obtain seen drp batch results and cb :: "tx_error store_callback" where
    adm: "admit_all vm s (in_queue input) (in_transactions input) ({}, [], []) = Inr (seen, drp, batch)"
    and inc: "included out = col_included (fold (collect_one vm cb) (zip results (map ck_tx batch))
      \<lparr> final_accounts = RBT.empty, col_included = [], col_dropped = drp, col_fees = 0 \<rparr>)"
    by (rule execute_block_cases [OF assms]) (erule (1) that)
  have ok: "batch_ok vm s (in_queue input) (set (in_transactions input)) (seen, drp, batch)"
    by (rule admit_all_ok [OF adm]) (simp_all add: batch_ok_def)
  have "map (hd \<circ> signatures) (map snd (zip results (map ck_tx batch)))
      = take (length results) (map (hd \<circ> signatures \<circ> ck_tx) batch)"
    by (simp add: map_snd_zip_take take_map min_def)
  then have "distinct (map (hd \<circ> signatures) (map snd (zip results (map ck_tx batch))))"
    using ok by (simp add: batch_ok_def distinct_take)
  then show "distinct (map (hd \<circ> signatures \<circ> fst) (included out))"
    using collect_distinct [of "hd \<circ> signatures" "\<lparr> final_accounts = RBT.empty, col_included = [],
      col_dropped = drp, col_fees = 0 \<rparr>" "zip results (map ck_tx batch)" vm cb]
    by (simp add: inc comp_assoc)
  have "snd ` set (zip results (map ck_tx batch)) \<subseteq> ck_tx ` set batch"
    by (auto dest: set_zip_rightD)
  then have "fst ` set (included out) \<subseteq> ck_tx ` set batch"
    using collect_subset [of vm cb "zip results (map ck_tx batch)" "\<lparr> final_accounts = RBT.empty,
      col_included = [], col_dropped = drp, col_fees = 0 \<rparr>"]
    unfolding inc by simp
  then show "(tx, m) \<in> set (included out) \<Longrightarrow> tx \<in> set (in_transactions input) \<and> admitted vm s (in_queue input) tx"
    using ok by (force simp: batch_ok_def)
qed

lemma execute_block_fees:
  assumes "execute_block vm collector s input = Inr out"
  shows "unat (fees_collected out) = min (sum_list (map (unat \<circ> fee \<circ> snd) (included out))) (2 ^ 64 - 1)"
proof (rule execute_block_cases [OF assms])
  fix seen drp batch results and cb :: "tx_error store_callback"
  assume inc: "included out = col_included (fold (collect_one vm cb) (zip results (map ck_tx batch))
      \<lparr> final_accounts = RBT.empty, col_included = [], col_dropped = drp, col_fees = 0 \<rparr>)"
    and fees: "fees_collected out = col_fees (fold (collect_one vm cb) (zip results (map ck_tx batch))
      \<lparr> final_accounts = RBT.empty, col_included = [], col_dropped = drp, col_fees = 0 \<rparr>)"
  show ?thesis unfolding inc fees by (rule collect_fees) simp
qed


section \<open>Properties\<close>

text \<open>
  C16: The execution layer never replays: whatever the virtual machine does with the batch, the
  included transactions are input transactions with pairwise distinct signatures, each
  verified, with a recent blockhash, and not in the store before; the collected fees are the
  sum of the included transactions' fees, capped at the maximum.
\<close>

theorem executor_never_replays:
  assumes "execute_block vm collector s input = Inr out"
  shows "distinct (map (hd \<circ> signatures \<circ> fst) (included out))
    \<and> (\<forall>x\<in>set (included out). fst x \<in> set (in_transactions input) \<and> admitted vm s (in_queue input) (fst x))
    \<and> unat (fees_collected out) = min (sum_list (map (unat \<circ> fee \<circ> snd) (included out))) (2 ^ 64 - 1)"
  using execute_block_included [OF assms] execute_block_fees [OF assms] by auto

theorem executor_never_replays_witness:
  "\<exists>out. execute_block sample_svm (replicate 32 1) store_open sample_input = Inr out
    \<and> map fst (included out) = [sample_tx] \<and> distinct (map (hd \<circ> signatures \<circ> fst) (included out))
    \<and> unat (fees_collected out) = 5002"
proof -
  obtain out where out: "execute_block sample_svm (replicate 32 1) store_open sample_input = Inr out"
    and inc: "map fst (included out) = [sample_tx]" "map (fee \<circ> snd) (included out) = [5002]"
    by (simp add: execute_block_def sample_input_def sample_svm_def admit_one_def sample_tx_def
        get_transaction_def store_open_def collect_one_def clock_account_def saturating_mul_def
        signature_count_def saturating_add_def LAMPORTS_PER_SIGNATURE_def Let_def register_def is_valid_def
        with_capacity_def)
  from inc(2) have "map unat (map (fee \<circ> snd) (included out)) = [5002]" by simp
  then have "map (unat \<circ> fee \<circ> snd) (included out) = [5002]" by (simp add: comp_assoc)
  then show ?thesis using executor_never_replays [OF out] out inc(1) by simp
qed

end
