(* ===== verification/Withdraw_Smt.thy ===== *)
theory Withdraw_Smt
  imports State_Smt
begin

text \<open>
  The withdrawals tree: \<^verbatim>\<open>chain/zul-node/src/withdraw_smt.rs\<close>, kept in memory by the node, and
  the proof check of the settlement program, \<^verbatim>\<open>programs/zul-settlement/src/smt.rs\<close>, which walks
  the same tree at depth 32 with its own copies of the hash helpers. The settlement program
  reads the empty hashes from an embedded file; its content is the parameter \<open>tbl\<close>, and what
  the program relies on (and a unit test of it checks) is that it is the computed table.
\<close>

unbundle bit_operations_syntax

section \<open>withdraw_smt.rs\<close>

definition WITHDRAW_DEPTH :: nat where
  "WITHDRAW_DEPTH = 32"

definition withdraw_empties :: "hasher \<Rightarrow> h256 list" where
  "withdraw_empties b3 =
    fill_empties (smt_node_hash b3) WITHDRAW_DEPTH [blake3_32 b3 (ascii ''PL2:smt:empty'') []]"

definition withdraw_path_bit :: "h256 \<Rightarrow> nat \<Rightarrow> bool" where
  "withdraw_path_bit path i \<longleftrightarrow> drop_bit (7 - i mod 8) (path ! (i div 8)) AND 1 = 1"

definition withdraw_flip_bit :: "h256 \<Rightarrow> nat \<Rightarrow> h256" where
  "withdraw_flip_bit path i = path[i div 8 := path ! (i div 8) XOR push_bit (7 - i mod 8) 1]"

fun withdraw_apply_loop :: "hasher \<Rightarrow> h256 \<Rightarrow> nat \<Rightarrow> h256 \<Rightarrow> node_source \<Rightarrow> node_source" where
  "withdraw_apply_loop b3 path 0 current tree = tree"
| "withdraw_apply_loop b3 path (Suc i) current tree =
    (let sibling = (case tree (node_key (Suc i) (withdraw_flip_bit path i)) of Some h \<Rightarrow> h
                    | None \<Rightarrow> withdraw_empties b3 ! Suc i);
         current' = (if withdraw_path_bit path i then smt_node_hash b3 sibling current
                     else smt_node_hash b3 current sibling)
     in withdraw_apply_loop b3 path i current' (tree(node_key i path \<mapsto> current')))"

definition withdraw_apply :: "hasher \<Rightarrow> node_source \<Rightarrow> pubkey \<Rightarrow> h256 \<Rightarrow> node_source" where
  "withdraw_apply b3 tree pubkey account_hash =
    (let path = key_path b3 pubkey;
         current = smt_leaf_hash b3 pubkey account_hash
     in withdraw_apply_loop b3 path WITHDRAW_DEPTH current
          (tree(node_key WITHDRAW_DEPTH path \<mapsto> current)))"

definition withdraw_root :: "hasher \<Rightarrow> node_source \<Rightarrow> h256" where
  "withdraw_root b3 tree =
    (case tree (node_key 0 (replicate 32 0)) of Some h \<Rightarrow> h | None \<Rightarrow> withdraw_empties b3 ! 0)"

fun withdraw_prove_loop ::
  "hasher \<Rightarrow> node_source \<Rightarrow> h256 \<Rightarrow> nat \<Rightarrow> bytes \<Rightarrow> h256 list \<Rightarrow> bytes \<times> h256 list" where
  "withdraw_prove_loop b3 tree path 0 bm sibs = (bm, sibs)"
| "withdraw_prove_loop b3 tree path (Suc k) bm sibs =
    (let depth = Suc k;
         i = WITHDRAW_DEPTH - depth;
         sibling = (case tree (node_key depth (withdraw_flip_bit path k)) of Some h \<Rightarrow> h
                    | None \<Rightarrow> withdraw_empties b3 ! depth)
     in if sibling \<noteq> withdraw_empties b3 ! depth
        then withdraw_prove_loop b3 tree path k
               (bm[i div 8 := bm ! (i div 8) OR push_bit (7 - i mod 8) 1]) (sibs @ [sibling])
        else withdraw_prove_loop b3 tree path k bm sibs)"

definition withdraw_prove :: "hasher \<Rightarrow> node_source \<Rightarrow> pubkey \<Rightarrow> smt_proof" where
  "withdraw_prove b3 tree pubkey =
    (let r = withdraw_prove_loop b3 tree (key_path b3 pubkey) WITHDRAW_DEPTH (replicate 32 0) []
     in \<lparr> bitmap = fst r, siblings = snd r \<rparr>)"

fun withdraw_verify_loop ::
  "hasher \<Rightarrow> h256 \<Rightarrow> smt_proof \<Rightarrow> nat \<Rightarrow> nat \<Rightarrow> h256 \<Rightarrow> (nat \<times> h256) option" where
  "withdraw_verify_loop b3 path prf 0 cursor current = Some (cursor, current)"
| "withdraw_verify_loop b3 path prf (Suc k) cursor current =
    (let depth = Suc k;
         i = WITHDRAW_DEPTH - depth;
         step = (\<lambda>cursor sibling.
           withdraw_verify_loop b3 path prf k cursor
             (if withdraw_path_bit path k then smt_node_hash b3 sibling current
              else smt_node_hash b3 current sibling))
     in if drop_bit (7 - i mod 8) (bitmap prf ! (i div 8)) AND 1 = 1
        then (if cursor < length (siblings prf)
              then step (cursor + 1) (siblings prf ! cursor) else None)
        else step cursor (withdraw_empties b3 ! depth))"

definition withdraw_verify :: "hasher \<Rightarrow> h256 \<Rightarrow> pubkey \<Rightarrow> h256 \<Rightarrow> smt_proof \<Rightarrow> bool" where
  "withdraw_verify b3 root pubkey account_hash prf =
    (case withdraw_verify_loop b3 (key_path b3 pubkey) prf WITHDRAW_DEPTH 0
            (smt_leaf_hash b3 pubkey account_hash)
     of None \<Rightarrow> False
     | Some (cursor, current) \<Rightarrow> cursor = length (siblings prf) \<and> current = root)"


section \<open>smt.rs of the settlement program\<close>

definition L1_SMT_DEPTH :: nat where
  "L1_SMT_DEPTH = 32"

definition hashv :: "hasher \<Rightarrow> bytes list \<Rightarrow> h256" where
  "hashv b3 slices = b3 (concat slices)"

definition l1_node_hash :: "hasher \<Rightarrow> h256 \<Rightarrow> h256 \<Rightarrow> h256" where
  "l1_node_hash b3 left right = hashv b3 [ascii ''PL2:smt:node'', left, right]"

text \<open>\<^verbatim>\<open>chunks_exact\<close> of the standard library: the remainder is dropped.\<close>

function chunks_exact :: "nat \<Rightarrow> 'a list \<Rightarrow> 'a list list" where
  "chunks_exact n xs =
    (if n = 0 \<or> length xs < n then [] else take n xs # chunks_exact n (drop n xs))"
  by auto
termination
  by (relation "measure (\<lambda>(n, xs). length xs)") auto

declare chunks_exact.simps [simp del]

definition l1_empty_hashes :: "bytes \<Rightarrow> h256 list" where
  "l1_empty_hashes tbl = chunks_exact 32 tbl"

fun l1_fill_empties :: "hasher \<Rightarrow> nat \<Rightarrow> h256 list \<Rightarrow> h256 list" where
  "l1_fill_empties b3 0 e = e"
| "l1_fill_empties b3 (Suc d) e =
    l1_fill_empties b3 d (e[d := l1_node_hash b3 (e ! (d + 1)) (e ! (d + 1))])"

definition l1_compute_empty_hashes :: "hasher \<Rightarrow> h256 list" where
  "l1_compute_empty_hashes b3 =
    (let e = replicate (L1_SMT_DEPTH + 1) (replicate 32 0)
     in l1_fill_empties b3 L1_SMT_DEPTH (e[L1_SMT_DEPTH := hashv b3 [ascii ''PL2:smt:empty'', []]]))"

definition l1_key_path :: "hasher \<Rightarrow> pubkey \<Rightarrow> h256" where
  "l1_key_path b3 pubkey = hashv b3 [ascii ''PL2:smt:key'', pubkey]"

definition l1_leaf_hash :: "hasher \<Rightarrow> pubkey \<Rightarrow> h256 \<Rightarrow> h256" where
  "l1_leaf_hash b3 pubkey account_hash = hashv b3 [ascii ''PL2:smt:leaf'', pubkey, account_hash]"

definition l1_path_bit :: "h256 \<Rightarrow> nat \<Rightarrow> bool" where
  "l1_path_bit path i \<longleftrightarrow> drop_bit (7 - i mod 8) (path ! (i div 8)) AND 1 = 1"

record l1_smt_proof =
  l1_bitmap :: bytes
  l1_siblings :: "h256 list"

fun l1_verify_loop ::
  "hasher \<Rightarrow> h256 list \<Rightarrow> h256 \<Rightarrow> l1_smt_proof \<Rightarrow> nat \<Rightarrow> nat \<Rightarrow> h256 \<Rightarrow> (nat \<times> h256) option" where
  "l1_verify_loop b3 empties path prf 0 cursor current = Some (cursor, current)"
| "l1_verify_loop b3 empties path prf (Suc k) cursor current =
    (let depth = Suc k;
         i = L1_SMT_DEPTH - depth;
         step = (\<lambda>cursor sibling.
           l1_verify_loop b3 empties path prf k cursor
             (if l1_path_bit path k then l1_node_hash b3 sibling current
              else l1_node_hash b3 current sibling))
     in if drop_bit (7 - i mod 8) (l1_bitmap prf ! (i div 8)) AND 1 = 1
        then (if cursor < length (l1_siblings prf)
              then step (cursor + 1) (l1_siblings prf ! cursor) else None)
        else step cursor (empties ! depth))"

definition l1_verify :: "hasher \<Rightarrow> bytes \<Rightarrow> h256 \<Rightarrow> pubkey \<Rightarrow> h256 \<Rightarrow> l1_smt_proof \<Rightarrow> bool" where
  "l1_verify b3 tbl root pubkey account_hash prf =
    (case l1_verify_loop b3 (l1_empty_hashes tbl) (l1_key_path b3 pubkey) prf L1_SMT_DEPTH 0
            (l1_leaf_hash b3 pubkey account_hash)
     of None \<Rightarrow> False
     | Some (cursor, current) \<Rightarrow> cursor = length (l1_siblings prf) \<and> current = root)"


section \<open>The leaf assignment of the withdrawals tree\<close>

definition withdraw_bits :: "hasher \<Rightarrow> pubkey \<Rightarrow> bool list" where
  "withdraw_bits b3 pubkey = path_prefix withdraw_path_bit WITHDRAW_DEPTH (key_path b3 pubkey)"

definition withdraw_rep :: "hasher \<Rightarrow> node_source \<Rightarrow> (bool list \<Rightarrow> h256) \<Rightarrow> bool" where
  "withdraw_rep b3 = represents WITHDRAW_DEPTH (smt_node_hash b3) node_key withdraw_path_bit
    (\<lambda>d. withdraw_empties b3 ! d) (\<lambda>p. length p = 32)"

definition withdraw_tree_root :: "hasher \<Rightarrow> (bool list \<Rightarrow> h256) \<Rightarrow> h256" where
  "withdraw_tree_root b3 L = ref_hash (smt_node_hash b3) L WITHDRAW_DEPTH []"

text \<open>
  The tree after a sequence of committed withdrawals, oldest first, and its leaves: the last
  entry of a position wins.
\<close>

definition withdraw_tree :: "hasher \<Rightarrow> (pubkey \<times> h256) list \<Rightarrow> node_source" where
  "withdraw_tree b3 ws = fold (\<lambda>(pk, ah) t. withdraw_apply b3 t pk ah) ws Map.empty"

definition withdraw_leaves :: "hasher \<Rightarrow> (pubkey \<times> h256) list \<Rightarrow> bool list \<Rightarrow> h256" where
  "withdraw_leaves b3 ws =
    fold (\<lambda>(pk, ah) L. L(withdraw_bits b3 pk := smt_leaf_hash b3 pk ah)) ws
      (\<lambda>_. withdraw_empties b3 ! WITHDRAW_DEPTH)"

text \<open>The proof in the layout the settlement program takes.\<close>

definition to_l1_proof :: "smt_proof \<Rightarrow> l1_smt_proof" where
  "to_l1_proof prf = \<lparr> l1_bitmap = bitmap prf, l1_siblings = siblings prf \<rparr>"

text \<open>The hashes joined at depth \<open>e\<close> by a verification and by the tree.\<close>

definition withdraw_verify_pair ::
  "hasher \<Rightarrow> pubkey \<Rightarrow> h256 \<Rightarrow> smt_proof \<Rightarrow> nat \<Rightarrow> h256 \<times> h256" where
  "withdraw_verify_pair b3 pk ah prf = walk_pair WITHDRAW_DEPTH (smt_node_hash b3) withdraw_path_bit
    (proof_sibling WITHDRAW_DEPTH (\<lambda>d. withdraw_empties b3 ! d) (bitmap prf) (siblings prf))
    (key_path b3 pk) (smt_leaf_hash b3 pk ah)"

definition withdraw_tree_pair ::
  "hasher \<Rightarrow> (bool list \<Rightarrow> h256) \<Rightarrow> pubkey \<Rightarrow> nat \<Rightarrow> h256 \<times> h256" where
  "withdraw_tree_pair b3 L pk =
    tree_pair WITHDRAW_DEPTH (smt_node_hash b3) withdraw_path_bit L (key_path b3 pk)"


section \<open>The withdrawals tree is a sparse tree\<close>

lemma withdraw_bit_eqs: "withdraw_path_bit = path_bit" "withdraw_flip_bit = flip_bit_at"
  by (auto simp: fun_eq_iff withdraw_path_bit_def path_bit_def withdraw_flip_bit_def flip_bit_at_def)

interpretation withdraw_sparse: sparse_tree WITHDRAW_DEPTH "smt_node_hash b3" node_key
  withdraw_path_bit withdraw_flip_bit "\<lambda>d. withdraw_empties b3 ! d" "\<lambda>p. length p = 32" for b3
proof unfold_locales
  show "length p = 32 \<Longrightarrow> length q = 32 \<Longrightarrow> d \<le> WITHDRAW_DEPTH \<Longrightarrow> e \<le> WITHDRAW_DEPTH \<Longrightarrow>
    (node_key d p = node_key e q)
      = (d = e \<and> path_prefix withdraw_path_bit d p = path_prefix withdraw_path_bit d q)"
    for p q d e unfolding withdraw_bit_eqs
    by (rule node_key_eq_iff) (simp_all add: WITHDRAW_DEPTH_def)
  show "length p = 32 \<Longrightarrow> i < WITHDRAW_DEPTH \<Longrightarrow> j < WITHDRAW_DEPTH \<Longrightarrow>
    withdraw_path_bit (withdraw_flip_bit p i) j = (withdraw_path_bit p j \<noteq> (i = j))" for p i j
    unfolding withdraw_bit_eqs by (rule path_bit_flip) (simp_all add: WITHDRAW_DEPTH_def)
  show "d < WITHDRAW_DEPTH \<Longrightarrow> withdraw_empties b3 ! d
    = smt_node_hash b3 (withdraw_empties b3 ! Suc d) (withdraw_empties b3 ! Suc d)" for d
    unfolding withdraw_empties_def by (rule fill_empties_node)
qed (simp add: withdraw_bit_eqs)

lemma withdraw_apply_loop_climb:
  "withdraw_apply_loop b3 path d current tree =
    climb (smt_node_hash b3) node_key withdraw_path_bit withdraw_flip_bit
      (\<lambda>d. withdraw_empties b3 ! d) tree path d current"
  by (induction d arbitrary: current tree) (simp_all add: Let_def node_at_def join_def)

lemma withdraw_apply_rep:
  assumes "digest32 b3" and "withdraw_rep b3 tree L"
  shows "withdraw_rep b3 (withdraw_apply b3 tree pk ah)
    (L(withdraw_bits b3 pk := smt_leaf_hash b3 pk ah))"
  using withdraw_sparse.climb_rep [of b3 tree L "key_path b3 pk"] assms
  by (simp add: withdraw_apply_def withdraw_apply_loop_climb withdraw_rep_def withdraw_bits_def Let_def)

lemma withdraw_rep_empty:
  "withdraw_rep b3 Map.empty (\<lambda>_. withdraw_empties b3 ! WITHDRAW_DEPTH)"
  unfolding withdraw_rep_def by (rule withdraw_sparse.rep_empty)

lemma withdraw_tree_rep_aux:
  assumes "digest32 b3" and "withdraw_rep b3 t L"
  shows "withdraw_rep b3 (fold (\<lambda>(pk, ah) t. withdraw_apply b3 t pk ah) ws t)
    (fold (\<lambda>(pk, ah) L. L(withdraw_bits b3 pk := smt_leaf_hash b3 pk ah)) ws L)"
  using assms(2)
proof (induction ws arbitrary: t L)
  case (Cons w ws)
  obtain pk ah where w: "w = (pk, ah)" by (cases w)
  show ?case
    using Cons.IH [OF withdraw_apply_rep [OF assms(1) Cons.prems, of pk ah]]
    by (simp add: w del: fun_upd_apply)
qed simp

lemma withdraw_tree_rep:
  "digest32 b3 \<Longrightarrow> withdraw_rep b3 (withdraw_tree b3 ws) (withdraw_leaves b3 ws)"
  unfolding withdraw_tree_def withdraw_leaves_def
  by (rule withdraw_tree_rep_aux [OF _ withdraw_rep_empty])

lemma withdraw_root_rep: "withdraw_rep b3 t L \<Longrightarrow> withdraw_root b3 t = withdraw_tree_root b3 L"
  using withdraw_sparse.rep_root [of b3 t L "replicate 32 0"]
  by (simp add: withdraw_rep_def withdraw_root_def withdraw_tree_root_def node_at_def)

lemma withdraw_leaves_snoc:
  "withdraw_leaves b3 (ws @ [(pk, ah)])
    = (withdraw_leaves b3 ws)(withdraw_bits b3 pk := smt_leaf_hash b3 pk ah)"
  by (simp add: withdraw_leaves_def)

lemma withdraw_leaves_last:
  assumes "\<forall>w\<in>set later. withdraw_bits b3 (fst w) \<noteq> withdraw_bits b3 pk"
  shows "withdraw_leaves b3 (earlier @ (pk, ah) # later) (withdraw_bits b3 pk)
    = smt_leaf_hash b3 pk ah"
  using assms
proof (induction later rule: rev_induct)
  case Nil
  then show ?case by (simp add: withdraw_leaves_snoc)
next
  case (snoc w later)
  then show ?case
    using withdraw_leaves_snoc [of b3 "earlier @ (pk, ah) # later" "fst w" "snd w"] by auto
qed

lemma withdraw_leaves_cases:
  "withdraw_leaves b3 ws x = withdraw_empties b3 ! WITHDRAW_DEPTH
    \<or> (\<exists>(pk, ah)\<in>set ws. x = withdraw_bits b3 pk \<and> withdraw_leaves b3 ws x = smt_leaf_hash b3 pk ah)"
proof (induction ws rule: rev_induct)
  case Nil
  then show ?case by (simp add: withdraw_leaves_def)
next
  case (snoc w ws)
  obtain pk ah where "w = (pk, ah)" by (cases w)
  with snoc show ?case by (auto simp: withdraw_leaves_snoc)
qed


section \<open>Proofs on both sides\<close>

lemma withdraw_prove_loop_walk:
  "withdraw_prove_loop b3 tree path d bm sibs =
    prove_walk WITHDRAW_DEPTH
      (\<lambda>d. node_at node_key (\<lambda>d. withdraw_empties b3 ! d) tree d (withdraw_flip_bit path (d - 1)))
      (\<lambda>d. withdraw_empties b3 ! d) d bm sibs"
  by (induction d arbitrary: bm sibs) (simp_all add: Let_def node_at_def bitmap_set_def)

lemma withdraw_verify_loop_walk:
  "withdraw_verify_loop b3 path prf d cursor current =
    verify_walk WITHDRAW_DEPTH (smt_node_hash b3) withdraw_path_bit (\<lambda>d. withdraw_empties b3 ! d)
      (bitmap prf) (siblings prf) path d cursor current"
  by (induction d arbitrary: cursor current) (simp_all add: Let_def bitmap_get_def join_def)

lemma withdraw_prove_verifies:
  assumes "digest32 b3" and "withdraw_rep b3 tree L"
    and "L (withdraw_bits b3 pk) = smt_leaf_hash b3 pk ah"
  shows "withdraw_verify b3 (withdraw_root b3 tree) pk ah (withdraw_prove b3 tree pk)"
proof -
  let ?p = "key_path b3 pk"
  let ?e = "\<lambda>d. withdraw_empties b3 ! d"
  let ?w = "prove_walk WITHDRAW_DEPTH (\<lambda>d. node_at node_key ?e tree d (withdraw_flip_bit ?p (d - 1)))
    ?e WITHDRAW_DEPTH (replicate 32 0) []"
  have "verify_walk WITHDRAW_DEPTH (smt_node_hash b3) withdraw_path_bit ?e (fst ?w) (snd ?w) ?p
      WITHDRAW_DEPTH 0 (L (path_prefix withdraw_path_bit WITHDRAW_DEPTH ?p))
    = Some (length (snd ?w), ref_hash (smt_node_hash b3) L WITHDRAW_DEPTH [])"
    by (rule withdraw_sparse.prove_complete)
      (use assms in \<open>simp_all add: withdraw_rep_def WITHDRAW_DEPTH_def\<close>)
  then show ?thesis
    using assms
    by (simp add: withdraw_verify_def withdraw_prove_def withdraw_verify_loop_walk
        withdraw_prove_loop_walk withdraw_root_rep withdraw_tree_root_def withdraw_bits_def Let_def)
qed

lemma withdraw_verify_leaf:
  assumes "withdraw_verify b3 (withdraw_tree_root b3 L) pk ah prf"
    and "\<And>e. e < WITHDRAW_DEPTH \<Longrightarrow>
      case_prod (smt_node_hash b3) (withdraw_verify_pair b3 pk ah prf e)
        = case_prod (smt_node_hash b3) (withdraw_tree_pair b3 L pk e) \<Longrightarrow>
      withdraw_verify_pair b3 pk ah prf e = withdraw_tree_pair b3 L pk e"
  shows "smt_leaf_hash b3 pk ah = L (withdraw_bits b3 pk)"
proof -
  let ?e = "\<lambda>d. withdraw_empties b3 ! d"
  obtain c where c: "verify_walk WITHDRAW_DEPTH (smt_node_hash b3) withdraw_path_bit ?e
      (bitmap prf) (siblings prf) (key_path b3 pk) WITHDRAW_DEPTH 0 (smt_leaf_hash b3 pk ah)
    = Some (c, ref_hash (smt_node_hash b3) L WITHDRAW_DEPTH [])"
    using assms(1)
    by (auto simp: withdraw_verify_def withdraw_verify_loop_walk withdraw_tree_root_def
        split: option.splits)
  show ?thesis
    unfolding withdraw_bits_def
    by (rule withdraw_sparse.verify_sound [OF c])
      (use assms(2) in \<open>simp add: withdraw_verify_pair_def withdraw_tree_pair_def\<close>)
qed

lemma l1_hash_eqs:
  "l1_node_hash = smt_node_hash" "l1_leaf_hash = smt_leaf_hash" "l1_key_path = key_path"
  "l1_path_bit = withdraw_path_bit"
  by (auto simp: fun_eq_iff l1_node_hash_def smt_node_hash_def l1_leaf_hash_def smt_leaf_hash_def
      l1_key_path_def key_path_def l1_path_bit_def withdraw_path_bit_def hashv_def
      blake3_concat_def blake3_32_def SMT_NODE_DOMAIN_def SMT_LEAF_DOMAIN_def SMT_KEY_DOMAIN_def)

lemma l1_fill_empties_fill:
  assumes "length es = Suc d" and "fs \<noteq> []"
  shows "l1_fill_empties b3 (Suc d) (es @ fs) = fill_empties (smt_node_hash b3) (Suc d) fs"
  using assms
proof (induction d arbitrary: es fs)
  case 0
  then obtain x where "es = [x]" by (metis length_0_conv length_Suc_conv)
  with 0 show ?case
    by (cases fs) (simp_all add: l1_hash_eqs)
next
  case (Suc d)
  then obtain es' x where es: "es = es' @ [x]" "length es' = Suc d"
    by (metis length_Suc_conv_rev)
  let ?y = "smt_node_hash b3 (fs ! 0) (fs ! 0)"
  have "(es @ fs)[Suc d := l1_node_hash b3 ((es @ fs) ! (Suc d + 1)) ((es @ fs) ! (Suc d + 1))]
      = es' @ ?y # fs"
    using Suc.prems es by (simp add: nth_append list_update_append l1_hash_eqs)
  then have "l1_fill_empties b3 (Suc (Suc d)) (es @ fs) = l1_fill_empties b3 (Suc d) (es' @ ?y # fs)"
    by (metis l1_fill_empties.simps(2))
  also have "\<dots> = fill_empties (smt_node_hash b3) (Suc d) (?y # fs)"
    by (rule Suc.IH) (use es in simp_all)
  finally show ?case by simp
qed

lemma l1_compute_empty_hashes_eq: "l1_compute_empty_hashes b3 = withdraw_empties b3"
proof -
  have "(replicate (L1_SMT_DEPTH + 1) (replicate 32 0 :: h256))[L1_SMT_DEPTH := h]
      = replicate (Suc 31) (replicate 32 0) @ [h]" for h
    by (intro nth_equalityI) (auto simp: L1_SMT_DEPTH_def nth_append nth_list_update)
  moreover have "L1_SMT_DEPTH = Suc 31" "WITHDRAW_DEPTH = Suc 31"
    by (simp_all add: L1_SMT_DEPTH_def WITHDRAW_DEPTH_def)
  moreover have "hashv b3 [ascii ''PL2:smt:empty'', []] = blake3_32 b3 (ascii ''PL2:smt:empty'') []"
    by (simp add: hashv_def blake3_32_def)
  ultimately show ?thesis
    using l1_fill_empties_fill
      [of "replicate (Suc 31) (replicate 32 0)" 31 "[blake3_32 b3 (ascii ''PL2:smt:empty'') []]" b3]
    by (simp only: l1_compute_empty_hashes_def withdraw_empties_def Let_def)
      (simp only: length_replicate simp_thms list.distinct)
qed

lemma l1_siblings_to_l1_proof [simp]: "l1_siblings (to_l1_proof prf) = siblings prf"
  by (simp add: to_l1_proof_def)

lemma l1_verify_loop_eq:
  "l1_verify_loop b3 (withdraw_empties b3) path (to_l1_proof prf) d cursor current
    = withdraw_verify_loop b3 path prf d cursor current"
  by (induction d arbitrary: cursor current)
    (simp_all add: Let_def to_l1_proof_def l1_hash_eqs L1_SMT_DEPTH_def WITHDRAW_DEPTH_def)

lemma l1_verify_eq:
  assumes "l1_empty_hashes tbl = l1_compute_empty_hashes b3"
  shows "l1_verify b3 tbl root pk ah (to_l1_proof prf) = withdraw_verify b3 root pk ah prf"
  using assms
  by (simp add: l1_verify_def withdraw_verify_def l1_compute_empty_hashes_eq l1_hash_eqs
      l1_verify_loop_eq L1_SMT_DEPTH_def WITHDRAW_DEPTH_def split: option.splits)


section \<open>Properties\<close>

text \<open>
  A committed withdrawal can be claimed on L1: whatever was committed before and after it,
  as long as no later withdrawal shares its 32-bit position, the settlement program accepts the
  proof the node makes for it against the root of the node's tree.
\<close>

theorem withdrawal_claimable:
  assumes "digest32 b3" and "l1_empty_hashes tbl = l1_compute_empty_hashes b3"
    and "\<forall>w\<in>set later. withdraw_bits b3 (fst w) \<noteq> withdraw_bits b3 pk"
    and "t = withdraw_tree b3 (earlier @ (pk, ah) # later)"
  shows "l1_verify b3 tbl (withdraw_root b3 t) pk ah (to_l1_proof (withdraw_prove b3 t pk))"
  unfolding l1_verify_eq [OF assms(2)] assms(4)
  by (rule withdraw_prove_verifies
      [OF assms(1) withdraw_tree_rep [OF assms(1)] withdraw_leaves_last [OF assms(3)]])

text \<open>
  C9: The settlement program accepts nothing that was not committed: if it accepts a proof for
  \<open>(pk, ah)\<close> against the root of the node's tree, then that withdrawal is one the node committed,
  or the acceptance exhibits a collision of blake3: with another committed leaf, with the
  empty leaf, or between two joined pairs at some depth.
\<close>

theorem l1_verify_sound:
  assumes "digest32 b3" and "l1_empty_hashes tbl = l1_compute_empty_hashes b3"
    and "l1_verify b3 tbl (withdraw_root b3 (withdraw_tree b3 ws)) pk ah (to_l1_proof prf)"
  shows "(pk, ah) \<in> set ws
    \<or> (\<exists>(pk', ah')\<in>set ws. (pk', ah') \<noteq> (pk, ah) \<and> smt_leaf_hash b3 pk' ah' = smt_leaf_hash b3 pk ah)
    \<or> smt_leaf_hash b3 pk ah = withdraw_empties b3 ! WITHDRAW_DEPTH
    \<or> (\<exists>e<WITHDRAW_DEPTH.
         withdraw_verify_pair b3 pk ah prf e \<noteq> withdraw_tree_pair b3 (withdraw_leaves b3 ws) pk e
         \<and> case_prod (smt_node_hash b3) (withdraw_verify_pair b3 pk ah prf e)
           = case_prod (smt_node_hash b3) (withdraw_tree_pair b3 (withdraw_leaves b3 ws) pk e))"
proof -
  have "withdraw_verify b3 (withdraw_tree_root b3 (withdraw_leaves b3 ws)) pk ah prf"
    using assms(3) withdraw_root_rep [OF withdraw_tree_rep [OF assms(1)]]
    by (simp add: l1_verify_eq [OF assms(2)])
  from withdraw_verify_leaf [OF this] show ?thesis
    using withdraw_leaves_cases [of b3 ws "withdraw_bits b3 pk"] by fastforce
qed

text \<open>
  The table for the witnesses: 33 rows of 32 bytes, the empty hashes of \<open>pad_hash\<close>.
\<close>

definition pad_table :: bytes where
  "pad_table = concat (l1_compute_empty_hashes pad_hash)"

lemma chunks_exact_concat:
  "0 < n \<Longrightarrow> \<forall>x\<in>set xs. length x = n \<Longrightarrow> chunks_exact n (concat xs) = xs"
proof (induction xs)
  case Nil
  then show ?case by (subst chunks_exact.simps) simp
next
  case (Cons x xs)
  then show ?case by (subst chunks_exact.simps) simp
qed

lemma fill_empties_lengths:
  "(\<And>l r. length (node l r) = 32) \<Longrightarrow> \<forall>x\<in>set es. length x = 32 \<Longrightarrow>
    \<forall>x\<in>set (fill_empties node n es). length x = 32"
  by (induction node n es rule: fill_empties.induct) simp_all

lemma pad_table_ok: "l1_empty_hashes pad_table = l1_compute_empty_hashes pad_hash"
  unfolding l1_empty_hashes_def pad_table_def
proof (rule chunks_exact_concat)
  show "\<forall>x\<in>set (l1_compute_empty_hashes pad_hash). length x = 32"
    unfolding l1_compute_empty_hashes_eq withdraw_empties_def
    by (rule fill_empties_lengths) (simp_all add: smt_node_hash_def)
qed simp

theorem withdrawal_claimable_witness:
  "l1_verify pad_hash pad_table (withdraw_root pad_hash (withdraw_tree pad_hash ([] @ ([5], [6]) # [])))
    [5] [6] (to_l1_proof (withdraw_prove pad_hash (withdraw_tree pad_hash ([] @ ([5], [6]) # [])) [5]))"
  by (rule withdrawal_claimable [OF digest32_pad_hash pad_table_ok _ refl]) simp

theorem l1_verify_sound_witness:
  "([5 :: u8], [6 :: u8]) \<in> set [([5], [6])]
    \<or> (\<exists>(pk', ah')\<in>set [([5], [6])]. (pk', ah') \<noteq> ([5], [6])
         \<and> smt_leaf_hash pad_hash pk' ah' = smt_leaf_hash pad_hash [5] [6])
    \<or> smt_leaf_hash pad_hash [5] [6] = withdraw_empties pad_hash ! WITHDRAW_DEPTH
    \<or> (\<exists>e<WITHDRAW_DEPTH.
         withdraw_verify_pair pad_hash [5] [6]
             (withdraw_prove pad_hash (withdraw_tree pad_hash [([5], [6])]) [5]) e
           \<noteq> withdraw_tree_pair pad_hash (withdraw_leaves pad_hash [([5], [6])]) [5] e
         \<and> case_prod (smt_node_hash pad_hash) (withdraw_verify_pair pad_hash [5] [6]
             (withdraw_prove pad_hash (withdraw_tree pad_hash [([5], [6])]) [5]) e)
           = case_prod (smt_node_hash pad_hash)
             (withdraw_tree_pair pad_hash (withdraw_leaves pad_hash [([5], [6])]) [5] e))"
proof (rule l1_verify_sound [OF digest32_pad_hash pad_table_ok])
  show "l1_verify pad_hash pad_table (withdraw_root pad_hash (withdraw_tree pad_hash [([5], [6])]))
    [5] [6] (to_l1_proof (withdraw_prove pad_hash (withdraw_tree pad_hash [([5], [6])]) [5]))"
    unfolding l1_verify_eq [OF pad_table_ok]
    by (rule withdraw_prove_verifies [OF digest32_pad_hash withdraw_tree_rep [OF digest32_pad_hash]])
      (simp add: withdraw_leaves_def)
qed

end
