(* ===== verification/Bridge.thy ===== *)
theory Bridge
  imports Executor Withdraw_Smt
begin


text \<open>
  Pool and bridge transactions in the node: \<^verbatim>\<open>pool.rs\<close> and \<^verbatim>\<open>bridge.rs\<close> of \<^verbatim>\<open>zul-node\<close>, and the
  deposit and withdrawal handlers of \<^verbatim>\<open>node.rs\<close>. A block's pending account writes are an
  ordered map from keys to an account or a deletion. The decoder of pool instructions (bincode)
  is the parameter \<open>de_ins\<close>. A panic, on account data too short for a token layout, is \<open>None\<close>.
\<close>

section \<open>pool.rs\<close>

record pool_tx =
  pt_transaction :: transaction
  pt_fee_payer :: pubkey
  pt_instruction :: pool_instruction

definition try_parse_pool_tx ::
  "(bytes \<Rightarrow> pool_instruction option) \<Rightarrow> transaction \<Rightarrow> (pubkey \<times> pool_instruction) option" where
  "try_parse_pool_tx de_ins tx =
    (case instructions tx of
       [ix] \<Rightarrow> do {
         program_id \<leftarrow> get_at (account_keys tx) (unat (program_id_index ix));
         if program_id \<noteq> POOL_PROGRAM_ID then None
         else do {
           payer \<leftarrow> first (account_keys tx);
           ins \<leftarrow> de_ins (ix_data ix);
           Some (payer, ins)
         }
       }
     | _ \<Rightarrow> None)"

fun pool_partition ::
  "(bytes \<Rightarrow> pool_instruction option) \<Rightarrow> transaction list \<Rightarrow> pool_tx list \<times> transaction list" where
  "pool_partition de_ins [] = ([], [])"
| "pool_partition de_ins (tx # txs) =
    (let (pool, regular) = pool_partition de_ins txs
     in case try_parse_pool_tx de_ins tx of
          Some (payer, ins) \<Rightarrow> (\<lparr> pt_transaction = tx, pt_fee_payer = payer, pt_instruction = ins \<rparr> # pool, regular)
        | None \<Rightarrow> (pool, tx # regular))"

definition pool_meta ::
  "bool \<Rightarrow> string option \<Rightarrow> u64 \<Rightarrow> u64 \<Rightarrow> u64 \<Rightarrow> string list \<Rightarrow> tx_error executed_meta" where
  "pool_meta success status_err f pre post logs =
    \<lparr> status = (if success then None else Some (InstructionErrorCustom 0 1)), fee = f,
      compute_units_consumed = 0,
      log_messages = (case status_err of Some e \<Rightarrow> [''Program log: pool rejected: '' @ e] | None \<Rightarrow> logs),
      pre_balances = [pre], post_balances = [post] \<rparr>"

definition POOL_TX_FEE :: u64 where
  "POOL_TX_FEE = LAMPORTS_PER_SIGNATURE"

definition lamports_in_writes :: "account_write list \<Rightarrow> pubkey \<Rightarrow> u64 option" where
  "lamports_in_writes ws key =
    map_option (\<lambda>acc. case acc of Some a \<Rightarrow> lamports a | None \<Rightarrow> 0) (map_of ws key)"


section \<open>bridge.rs\<close>

definition BRIDGE_RECEIPT_OWNER :: pubkey where
  "BRIDGE_RECEIPT_OWNER = [0x06, 0x21] @ replicate 30 0"

definition RECEIPT_DOMAIN :: bytes where
  "RECEIPT_DOMAIN = ascii ''PL2:bridge:deposit-receipt:v1''"

definition deposit_receipt_address :: "hasher \<Rightarrow> bytes \<Rightarrow> pubkey" where
  "deposit_receipt_address b3 l1_sig = blake3_32 b3 RECEIPT_DOMAIN l1_sig"

definition BRIDGE_WITHDRAW_PROGRAM_ID :: pubkey where
  "BRIDGE_WITHDRAW_PROGRAM_ID = [0x06, 0x21] @ replicate 29 0 @ [0x01]"

definition WITHDRAW_DOMAIN :: bytes where
  "WITHDRAW_DOMAIN = ascii ''PL2:bridge:withdraw:v1''"

definition WITHDRAW_ADDR_DOMAIN :: bytes where
  "WITHDRAW_ADDR_DOMAIN = ascii ''PL2:bridge:withdraw-addr:v1''"

definition withdrawal_pubkey :: "hasher \<Rightarrow> bytes \<Rightarrow> u64 \<Rightarrow> pubkey" where
  "withdrawal_pubkey b3 recipient nonce = blake3_concat b3 WITHDRAW_ADDR_DOMAIN [recipient, u64_le nonce]"

definition NATIVE_ASSET_ID :: bytes where
  "NATIVE_ASSET_ID = replicate 32 0"

definition withdrawal_account_hash :: "hasher \<Rightarrow> bytes \<Rightarrow> bytes \<Rightarrow> u64 \<Rightarrow> u64 \<Rightarrow> h256" where
  "withdrawal_account_hash b3 recipient asset_id amount nonce =
    blake3_concat b3 WITHDRAW_DOMAIN [recipient, asset_id, u64_le amount, u64_le nonce]"

record withdraw_tx =
  w_transaction :: transaction
  w_fee_payer :: pubkey
  w_recipient :: bytes
  w_asset_id :: bytes
  w_amount :: u64
  w_nonce :: u64

definition parse_withdraw :: "transaction \<Rightarrow> (pubkey \<times> bytes \<times> bytes \<times> u64 \<times> u64) option" where
  "parse_withdraw tx =
    (case instructions tx of
       [ix] \<Rightarrow> do {
         program_id \<leftarrow> get_at (account_keys tx) (unat (program_id_index ix));
         if program_id \<noteq> BRIDGE_WITHDRAW_PROGRAM_ID then None
         else do {
           payer \<leftarrow> first (account_keys tx);
           recipient \<leftarrow> get_range (ix_data ix) 0 32;
           if length (ix_data ix) = 48
           then Some (payer, recipient, NATIVE_ASSET_ID, u64_of_le (take 8 (drop 32 (ix_data ix))),
             u64_of_le (take 8 (drop 40 (ix_data ix))))
           else if length (ix_data ix) = 80
           then Some (payer, recipient, take 32 (drop 32 (ix_data ix)), u64_of_le (take 8 (drop 64 (ix_data ix))),
             u64_of_le (take 8 (drop 72 (ix_data ix))))
           else None
         }
       }
     | _ \<Rightarrow> None)"

fun partition_withdraws :: "transaction list \<Rightarrow> withdraw_tx list \<times> transaction list" where
  "partition_withdraws [] = ([], [])"
| "partition_withdraws (tx # txs) =
    (let (withdraws, regular) = partition_withdraws txs
     in case parse_withdraw tx of
          Some (payer, recipient, asset_id, amount, nonce) \<Rightarrow>
            (\<lparr> w_transaction = tx, w_fee_payer = payer, w_recipient = recipient, w_asset_id = asset_id,
               w_amount = amount, w_nonce = nonce \<rparr> # withdraws, regular)
        | None \<Rightarrow> (withdraws, tx # regular))"

record deposit_event =
  l1_signature :: bytes
  mint :: "pubkey option"
  dep_decimals :: u8
  dep_amount :: u64
  l2_recipient :: pubkey

text \<open>One round of the deposit watcher: what it queues of the deposits it fetched.\<close>

definition watcher_fresh :: "hasher \<Rightarrow> 'e store \<Rightarrow> deposit_event list \<Rightarrow> deposit_event list" where
  "watcher_fresh b3 s deposits =
    List.filter (\<lambda>d. get_account s (deposit_receipt_address b3 (l1_signature d)) = None) deposits"


section \<open>node.rs: deposits\<close>

type_synonym writes = "(pubkey, stored_account option) rbt"

text \<open>The parts of the node the handlers read: the gas mint of its options and the fee collector.\<close>

record bridge_env =
  br_b3 :: hasher
  br_pda :: "bytes list \<Rightarrow> pubkey \<Rightarrow> pubkey"
  gas_mint :: "pubkey option"
  br_collector :: pubkey

definition native_sol_mint :: pubkey where
  "native_sol_mint = [6, 155, 136, 87, 254, 171, 129, 132, 251, 104, 127, 99, 70, 24, 192, 53,
    218, 196, 57, 220, 26, 235, 59, 85, 152, 160, 240, 0, 0, 0, 0, 1]"

text \<open>
  \<^verbatim>\<open>writes.get(k).cloned().flatten().or(store.get_account(k))\<close>: a deletion pending in this
  block falls through to the committed account.
\<close>

definition current :: "'e store \<Rightarrow> writes \<Rightarrow> pubkey \<Rightarrow> stored_account option" where
  "current s w k = (case RBT.lookup w k of Some (Some a) \<Rightarrow> Some a | _ \<Rightarrow> get_account s k)"

definition credit_wrapped_spl ::
  "bridge_env \<Rightarrow> 'e store \<Rightarrow> pubkey \<Rightarrow> pubkey \<Rightarrow> u64 \<Rightarrow> u8 \<Rightarrow> writes \<Rightarrow> writes option" where
  "credit_wrapped_spl env s l1_mint recipient amount decimals w = do {
     let wmint = wrapped_mint_address (br_b3 env) l1_mint;
     mint_acc \<leftarrow> (case current s w wmint of
         Some acc \<Rightarrow>
           (let supply = saturating_add (case mint_supply (data acc) of Some x \<Rightarrow> x | None \<Rightarrow> 0) amount
            in map_option (\<lambda>d. acc\<lparr> data := d \<rparr>) (set_mint_supply (data acc) supply))
       | None \<Rightarrow> Some \<lparr> lamports = rent_exempt_lamports MINT_LEN,
           data = pack_mint BRIDGE_MINT_AUTHORITY amount decimals, owner = TOKEN_PROGRAM_ID,
           executable = False, rent_epoch = - 1 \<rparr>);
     let w = RBT.insert wmint (Some mint_acc) w;
     let ata = associated_token_address (br_pda env) recipient wmint;
     ata_acc \<leftarrow> (case current s w ata of
         Some acc \<Rightarrow>
           (let bal = saturating_add (amount_or_zero (data acc)) amount
            in map_option (\<lambda>d. acc\<lparr> data := d \<rparr>) (set_token_account_amount (data acc) bal))
       | None \<Rightarrow> Some \<lparr> lamports = rent_exempt_lamports ACCOUNT_LEN,
           data = pack_token_account wmint recipient amount, owner = TOKEN_PROGRAM_ID,
           executable = False, rent_epoch = - 1 \<rparr>);
     Some (RBT.insert ata (Some ata_acc) w)
   }"

definition credits_native_gas :: "bridge_env \<Rightarrow> deposit_event \<Rightarrow> bool" where
  "credits_native_gas env d =
    (case mint d of Some m \<Rightarrow> Some m = gas_mint env | None \<Rightarrow> gas_mint env = None)"

definition receipt_account :: "deposit_event \<Rightarrow> stored_account" where
  "receipt_account d = \<lparr> lamports = 0, data = u64_le (dep_amount d) @ l2_recipient d,
    owner = BRIDGE_RECEIPT_OWNER, executable = False, rent_epoch = - 1 \<rparr>"

definition already_credited :: "bridge_env \<Rightarrow> 'e store \<Rightarrow> writes \<Rightarrow> deposit_event \<Rightarrow> bool" where
  "already_credited env s w d \<longleftrightarrow>
    (let receipt = deposit_receipt_address (br_b3 env) (l1_signature d)
     in RBT.lookup w receipt \<noteq> None \<or> get_account s receipt \<noteq> None)"

definition credit_deposit :: "bridge_env \<Rightarrow> 'e store \<Rightarrow> deposit_event \<Rightarrow> writes \<Rightarrow> writes option" where
  "credit_deposit env s d w = do {
     w \<leftarrow> (if credits_native_gas env d
       then (let account = (case current s w (l2_recipient d) of Some a \<Rightarrow> a | None \<Rightarrow> new_system 0)
             in Some (RBT.insert (l2_recipient d)
                  (Some (account\<lparr> lamports := saturating_add (lamports account) (dep_amount d) \<rparr>)) w))
       else (let (m, decimals) = (case mint d of Some m \<Rightarrow> (m, dep_decimals d) | None \<Rightarrow> (native_sol_mint, 9))
             in credit_wrapped_spl env s m (l2_recipient d) (dep_amount d) decimals w));
     Some (RBT.insert (deposit_receipt_address (br_b3 env) (l1_signature d)) (Some (receipt_account d)) w)
   }"

fun apply_deposits ::
  "bridge_env \<Rightarrow> 'e store \<Rightarrow> deposit_event list \<Rightarrow> writes \<Rightarrow> (writes \<times> nat) option" where
  "apply_deposits env s [] w = Some (w, 0)"
| "apply_deposits env s (d # ds) w =
    (if already_credited env s w d then apply_deposits env s ds w
     else do {
       w' \<leftarrow> credit_deposit env s d w;
       (w'', n) \<leftarrow> apply_deposits env s ds w';
       Some (w'', Suc n)
     })"


section \<open>node.rs: withdrawals\<close>

definition burn_wrapped_spl ::
  "bridge_env \<Rightarrow> 'e store \<Rightarrow> pubkey \<Rightarrow> pubkey \<Rightarrow> u64 \<Rightarrow> writes \<Rightarrow> (writes \<times> bool) option" where
  "burn_wrapped_spl env s l1_mint own amount w =
    (if amount = 0 then Some (w, False)
     else
      (let wmint = wrapped_mint_address (br_b3 env) l1_mint;
           ata = associated_token_address (br_pda env) own wmint
       in case current s w ata of None \<Rightarrow> Some (w, False)
        | Some acc \<Rightarrow>
          (let bal = amount_or_zero (data acc)
           in if bal < amount then Some (w, False)
              else do {
                d \<leftarrow> set_token_account_amount (data acc) (bal - amount);
                let w = RBT.insert ata (Some (acc\<lparr> data := d \<rparr>)) w;
                case current s w wmint of
                  None \<Rightarrow> Some (w, True)
                | Some macc \<Rightarrow> do {
                    let supply = saturating_sub (case mint_supply (data macc) of Some x \<Rightarrow> x | None \<Rightarrow> 0) amount;
                    md \<leftarrow> set_mint_supply (data macc) supply;
                    Some (RBT.insert wmint (Some (macc\<lparr> data := md \<rparr>)) w, True)
                  }
              })))"

definition is_native_withdraw :: "bridge_env \<Rightarrow> withdraw_tx \<Rightarrow> bool" where
  "is_native_withdraw env w \<longleftrightarrow>
    w_asset_id w = NATIVE_ASSET_ID \<or> (case gas_mint env of Some m \<Rightarrow> m = w_asset_id w | None \<Rightarrow> False)"

definition needed_native :: "bridge_env \<Rightarrow> withdraw_tx \<Rightarrow> u64" where
  "needed_native env w =
    (if is_native_withdraw env w then saturating_add (w_amount w) POOL_TX_FEE else POOL_TX_FEE)"

text \<open>The debit of a withdrawal: the writes, and the payer's balance afterwards if it was accepted.\<close>

definition debit_withdraw ::
  "bridge_env \<Rightarrow> 'e store \<Rightarrow> withdraw_tx \<Rightarrow> writes \<Rightarrow> (writes \<times> u64 option) option" where
  "debit_withdraw env s w ws =
    (case current s ws (w_fee_payer w) of None \<Rightarrow> Some (ws, None)
     | Some acc \<Rightarrow>
       if lamports acc \<ge> needed_native env w \<and> w_amount w > 0
       then do {
         (ws', token_ok) \<leftarrow> (if is_native_withdraw env w then Some (ws, True)
           else burn_wrapped_spl env s (w_asset_id w) (w_fee_payer w) (w_amount w) ws);
         Some (if token_ok
           then (let post = lamports acc - needed_native env w
                 in (RBT.insert (w_fee_payer w) (Some (acc\<lparr> lamports := post \<rparr>)) ws', Some post))
           else (ws', None))
       }
       else Some (ws, None))"

definition credit_collector :: "bridge_env \<Rightarrow> 'e store \<Rightarrow> writes \<Rightarrow> writes" where
  "credit_collector env s ws =
    (let collector = (case current s ws (br_collector env) of Some a \<Rightarrow> a | None \<Rightarrow> new_system 0)
     in RBT.insert (br_collector env)
          (Some (collector\<lparr> lamports := saturating_add (lamports collector) POOL_TX_FEE \<rparr>)) ws)"

definition withdraw_leaf :: "hasher \<Rightarrow> withdraw_tx \<Rightarrow> pubkey \<times> h256" where
  "withdraw_leaf b3 w = (withdrawal_pubkey b3 (w_recipient w) (w_nonce w),
    withdrawal_account_hash b3 (w_recipient w) (w_asset_id w) (w_amount w) (w_nonce w))"

text \<open>Decimal digits of a number, as the format macro prints it.\<close>

fun decimal :: "nat \<Rightarrow> string" where
  "decimal n = (if n < 10 then [char_of (48 + n)] else decimal (n div 10) @ [char_of (48 + n mod 10)])"

declare decimal.simps [simp del]

definition withdraw_log :: "withdraw_tx \<Rightarrow> string" where
  "withdraw_log w = ''Program log: withdraw '' @ decimal (unat (w_amount w)) @ '' to L1, nonce ''
    @ decimal (unat (w_nonce w))"

fun apply_withdraws ::
  "bridge_env \<Rightarrow> 'e store \<Rightarrow> withdraw_tx list \<Rightarrow> writes
    \<Rightarrow> (writes \<times> (transaction \<times> tx_error executed_meta) list \<times> (pubkey \<times> h256) list) option" where
  "apply_withdraws env s [] ws = Some (ws, [], [])"
| "apply_withdraws env s (w # rest) ws = do {
     (ws1, post) \<leftarrow> debit_withdraw env s w ws;
     (case post of
        Some post \<Rightarrow> do {
          (ws2, inc, leaves) \<leftarrow> apply_withdraws env s rest (credit_collector env s ws1);
          Some (ws2, (w_transaction w, pool_meta True None POOL_TX_FEE 0 post [withdraw_log w]) # inc,
            withdraw_leaf (br_b3 env) w # leaves)
        }
      | None \<Rightarrow> do {
          (ws2, inc, leaves) \<leftarrow> apply_withdraws env s rest ws1;
          Some (ws2, (w_transaction w,
            pool_meta False (Some ''insufficient balance for withdrawal'') 0 0 0 []) # inc, leaves)
        })
   }"


section \<open>Invariants and samples\<close>

definition receipt_of :: "bridge_env \<Rightarrow> deposit_event \<Rightarrow> pubkey" where
  "receipt_of env d = deposit_receipt_address (br_b3 env) (l1_signature d)"

text \<open>The lamports of an account as the handlers see them.\<close>

definition seen_lamports :: "'e store \<Rightarrow> writes \<Rightarrow> pubkey \<Rightarrow> u64" where
  "seen_lamports s w k = (case current s w k of Some a \<Rightarrow> lamports a | None \<Rightarrow> 0)"

text \<open>The deposits that are due: the first of each receipt address that is not yet taken.\<close>

fun due_deposits :: "bridge_env \<Rightarrow> pubkey set \<Rightarrow> deposit_event list \<Rightarrow> deposit_event list" where
  "due_deposits env R [] = []"
| "due_deposits env R (d # ds) =
    (if receipt_of env d \<in> R then due_deposits env R ds
     else d # due_deposits env (insert (receipt_of env d) R) ds)"

definition credited_receipts :: "'e store \<Rightarrow> writes \<Rightarrow> pubkey set" where
  "credited_receipts s w = {k. RBT.lookup w k \<noteq> None \<or> get_account s k \<noteq> None}"

text \<open>Keys are only added or overwritten by accounts.\<close>

definition only_adds :: "writes \<Rightarrow> writes \<Rightarrow> bool" where
  "only_adds w w' \<longleftrightarrow> (\<forall>k. RBT.lookup w' k = RBT.lookup w k \<or> (\<exists>a. RBT.lookup w' k = Some (Some a)))"

text \<open>The withdrawals that were accepted, by the status recorded for them.\<close>

definition accepted_withdraws ::
  "withdraw_tx list \<Rightarrow> (transaction \<times> tx_error executed_meta) list \<Rightarrow> withdraw_tx list" where
  "accepted_withdraws ws inc = map fst (List.filter (\<lambda>(w, x). is_success (snd x)) (zip ws inc))"

definition burned :: "bridge_env \<Rightarrow> withdraw_tx \<Rightarrow> nat" where
  "burned env w = (if is_native_withdraw env w then unat (w_amount w) else 0)"

text \<open>What a list of deposits brings to a recipient.\<close>

fun deposited_to :: "pubkey \<Rightarrow> deposit_event list \<Rightarrow> nat" where
  "deposited_to r [] = 0"
| "deposited_to r (d # ds) = (if l2_recipient d = r then unat (dep_amount d) else 0) + deposited_to r ds"

definition seen_total :: "'e store \<Rightarrow> writes \<Rightarrow> pubkey set \<Rightarrow> nat" where
  "seen_total s w A = (\<Sum>k\<in>A. unat (seen_lamports s w k))"

text \<open>The parsed withdrawal of a transaction.\<close>

definition withdraw_of :: "transaction \<Rightarrow> withdraw_tx option" where
  "withdraw_of tx = map_option (\<lambda>(payer, recipient, asset_id, amount, nonce).
    \<lparr> w_transaction = tx, w_fee_payer = payer, w_recipient = recipient, w_asset_id = asset_id,
      w_amount = amount, w_nonce = nonce \<rparr>) (parse_withdraw tx)"

definition sample_env :: bridge_env where
  "sample_env = \<lparr> br_b3 = pad_hash, br_pda = (\<lambda>seeds p. pad_hash (concat seeds @ p)), gas_mint = None,
    br_collector = [12] \<rparr>"

definition sample_bridge_store :: "tx_error store" where
  "sample_bridge_store = store_open\<lparr> accounts := RBT.insert [1] (new_system 10000) RBT.empty \<rparr>"

definition sample_deposit :: deposit_event where
  "sample_deposit = \<lparr> l1_signature = [1, 2], mint = None, dep_decimals = 9, dep_amount = 7, l2_recipient = [1] \<rparr>"

definition sample_withdraw_tx :: transaction where
  "sample_withdraw_tx = \<lparr> signatures = [[5]], account_keys = [[1], BRIDGE_WITHDRAW_PROGRAM_ID],
    recent_blockhash = ZERO_HASH, instructions = [\<lparr> program_id_index = 1, ix_accounts = [],
      ix_data = replicate 32 9 @ u64_le 30 @ u64_le 4 \<rparr>], message_rest = [] \<rparr>"

definition sample_withdraw :: withdraw_tx where
  "sample_withdraw = \<lparr> w_transaction = sample_withdraw_tx, w_fee_payer = [1], w_recipient = replicate 32 9,
    w_asset_id = NATIVE_ASSET_ID, w_amount = 30, w_nonce = 4 \<rparr>"


section \<open>Lemmas: deposits\<close>

lemma already_credited_iff: "already_credited env s w d \<longleftrightarrow> receipt_of env d \<in> credited_receipts s w"
  by (simp add: already_credited_def credited_receipts_def receipt_of_def Let_def)

lemma only_adds_refl [simp]: "only_adds w w"
  by (simp add: only_adds_def)

lemma only_adds_insert: "only_adds w w' \<Longrightarrow> only_adds w (RBT.insert k (Some a) w')"
  by (auto simp: only_adds_def)

lemma only_adds_trans: "only_adds w w' \<Longrightarrow> only_adds w' w'' \<Longrightarrow> only_adds w w''"
  unfolding only_adds_def by metis

lemma credit_wrapped_adds: "credit_wrapped_spl env s m r amount dec w = Some w' \<Longrightarrow> only_adds w w'"
  by (auto simp: credit_wrapped_spl_def Let_def bind_eq_Some_conv intro!: only_adds_insert)

lemma credit_deposit_adds:
  assumes "credit_deposit env s d w = Some w'"
  shows "only_adds w w'" and "RBT.lookup w' (receipt_of env d) = Some (Some (receipt_account d))"
proof -
  obtain w1 where w': "w' = RBT.insert (receipt_of env d) (Some (receipt_account d)) w1"
    and "credits_native_gas env d \<and> (\<exists>a. w1 = RBT.insert (l2_recipient d) (Some a) w)
      \<or> (\<exists>m dec. credit_wrapped_spl env s m (l2_recipient d) (dep_amount d) dec w = Some w1)"
    using assms
    by (cases "credits_native_gas env d"; cases "mint d")
      (auto simp: credit_deposit_def receipt_of_def Let_def bind_eq_Some_conv)
  then have "only_adds w w1" using credit_wrapped_adds only_adds_insert [OF only_adds_refl] by blast
  then show "only_adds w w'" unfolding w' by (rule only_adds_insert)
  show "RBT.lookup w' (receipt_of env d) = Some (Some (receipt_account d))" by (simp add: w')
qed

lemma apply_deposits_adds: "apply_deposits env s ds w = Some (w', n) \<Longrightarrow> only_adds w w'"
proof (induction ds arbitrary: w n)
  case (Cons d ds)
  show ?case
  proof (cases "already_credited env s w d")
    case True
    then show ?thesis using Cons by simp
  next
    case False
    then obtain w1 m where "credit_deposit env s d w = Some w1" and "apply_deposits env s ds w1 = Some (w', m)"
      using Cons.prems by (auto simp: bind_eq_Some_conv)
    then show ?thesis using Cons.IH credit_deposit_adds(1) only_adds_trans by blast
  qed
qed simp

lemma apply_deposits_receipts:
  assumes "apply_deposits env s ds w = Some (w', n)" and "d \<in> set ds"
    and "RBT.lookup w (receipt_of env d) \<noteq> Some None"
  shows "(\<exists>a. RBT.lookup w' (receipt_of env d) = Some (Some a))
    \<or> (RBT.lookup w' (receipt_of env d) = None \<and> get_account s (receipt_of env d) \<noteq> None)"
  using assms
proof (induction ds arbitrary: w n)
  case (Cons e ds)
  have kept: ?case if "RBT.lookup v (receipt_of env d) \<noteq> Some None"
      "RBT.lookup v (receipt_of env d) \<noteq> None \<or> get_account s (receipt_of env d) \<noteq> None" "only_adds v w'" for v
    using that unfolding only_adds_def by (metis not_Some_eq)
  show ?case
  proof (cases "already_credited env s w e")
    case True
    then have rest: "apply_deposits env s ds w = Some (w', n)" using Cons.prems(1) by simp
    show ?thesis
    proof (cases "d = e")
      case d: True
      show ?thesis
        by (rule kept [OF Cons.prems(3) _ apply_deposits_adds [OF rest]])
          (use True in \<open>simp add: d already_credited_iff credited_receipts_def\<close>)
    next
      case False
      then show ?thesis using Cons.IH [OF rest] Cons.prems(2,3) by simp
    qed
  next
    case False
    then obtain w1 m where c: "credit_deposit env s e w = Some w1" and rest: "apply_deposits env s ds w1 = Some (w', m)"
      using Cons.prems(1) by (auto simp: bind_eq_Some_conv)
    show ?thesis
    proof (cases "d = e")
      case True
      show ?thesis
        by (rule kept [OF _ _ apply_deposits_adds [OF rest]]) (simp_all add: True credit_deposit_adds(2) [OF c])
    next
      case d: False
      have "RBT.lookup w1 (receipt_of env d) \<noteq> Some None"
        using credit_deposit_adds(1) [OF c] Cons.prems(3) unfolding only_adds_def by (metis option.distinct(1) option.inject)
      with Cons.IH [OF rest] Cons.prems(2) d show ?thesis by simp
    qed
  qed
qed simp

lemma apply_deposits_none:
  "\<forall>d\<in>set ds. already_credited env s w d \<Longrightarrow> apply_deposits env s ds w = Some (w, 0)"
  by (induction ds) auto

text \<open>An account that sits at the receipt address, whoever made it, blocks the deposit.\<close>

lemma squatted_receipt_blocks_deposit:
  "get_account s (deposit_receipt_address (br_b3 env) (l1_signature d)) = Some a
    \<Longrightarrow> apply_deposits env s [d] w = Some (w, 0)"
  by (simp add: already_credited_def)


section \<open>Properties\<close>



section \<open>Lemmas: what deposits credit\<close>

lemma due_cong:
  "\<forall>d\<in>set ds. receipt_of env d \<in> R \<longleftrightarrow> receipt_of env d \<in> R' \<Longrightarrow> due_deposits env R ds = due_deposits env R' ds"
proof (induction ds arbitrary: R R')
  case (Cons d ds)
  show ?case
    using Cons.prems Cons.IH [of R R'] Cons.IH [of "insert (receipt_of env d) R" "insert (receipt_of env d) R'"]
    by simp
qed simp

lemma seen_insert: "seen_lamports s (RBT.insert k (Some a) w) k' = (if k' = k then lamports a else seen_lamports s w k')"
  by (simp add: seen_lamports_def current_def)

lemma credit_native:
  assumes "credits_native_gas env d" and "l2_recipient d \<noteq> receipt_of env d"
  obtains w' where "credit_deposit env s d w = Some w'"
    and "\<And>r. r \<noteq> receipt_of env d \<Longrightarrow> seen_lamports s w' r =
      (if r = l2_recipient d then saturating_add (seen_lamports s w r) (dep_amount d) else seen_lamports s w r)"
    and "credited_receipts s w' = insert (l2_recipient d) (insert (receipt_of env d) (credited_receipts s w))"
proof -
  let ?acc = "case current s w (l2_recipient d) of Some a \<Rightarrow> a | None \<Rightarrow> new_system 0"
  let ?w1 = "RBT.insert (l2_recipient d) (Some (?acc\<lparr> lamports := saturating_add (lamports ?acc) (dep_amount d) \<rparr>)) w"
  let ?w' = "RBT.insert (receipt_of env d) (Some (receipt_account d)) ?w1"
  have "credit_deposit env s d w = Some ?w'"
    using assms(1) by (simp add: credit_deposit_def receipt_of_def Let_def)
  moreover have "lamports ?acc = seen_lamports s w (l2_recipient d)"
    by (simp add: seen_lamports_def new_system_def split: option.splits)
  moreover have "credited_receipts s ?w' = insert (l2_recipient d) (insert (receipt_of env d) (credited_receipts s w))"
    by (auto simp: credited_receipts_def)
  ultimately show thesis by (intro that) (simp_all add: seen_insert)
qed

lemma deposits_native:
  assumes "\<forall>d\<in>set ds. credits_native_gas env d" and "l2_recipient ` set ds \<inter> receipt_of env ` set ds = {}"
    and "r \<notin> receipt_of env ` set ds"
    and "unat (seen_lamports s w r) + deposited_to r (due_deposits env (credited_receipts s w) ds) < 2 ^ 64"
  shows "\<exists>w'. apply_deposits env s ds w = Some (w', length (due_deposits env (credited_receipts s w) ds))
    \<and> unat (seen_lamports s w' r) = unat (seen_lamports s w r) + deposited_to r (due_deposits env (credited_receipts s w) ds)"
  using assms
proof (induction ds arbitrary: w)
  case Nil
  then show ?case by simp
next
  case (Cons d ds)
  have disj: "l2_recipient ` set ds \<inter> receipt_of env ` set ds = {}" using Cons.prems(2) by auto
  show ?case
  proof (cases "already_credited env s w d")
    case True
    then have "due_deposits env (credited_receipts s w) (d # ds) = due_deposits env (credited_receipts s w) ds"
      by (simp add: already_credited_iff)
    with Cons.IH [of w] Cons.prems disj True show ?thesis by simp
  next
    case False
    have "l2_recipient d \<noteq> receipt_of env d" using Cons.prems(2) by auto
    then obtain w1 where c: "credit_deposit env s d w = Some w1"
      and bal: "\<And>r. r \<noteq> receipt_of env d \<Longrightarrow> seen_lamports s w1 r =
        (if r = l2_recipient d then saturating_add (seen_lamports s w r) (dep_amount d) else seen_lamports s w r)"
      and cr: "credited_receipts s w1 = insert (l2_recipient d) (insert (receipt_of env d) (credited_receipts s w))"
      using credit_native [of env d s w] Cons.prems(1) by auto
    let ?due = "due_deposits env (credited_receipts s w1) ds"
    have due: "due_deposits env (credited_receipts s w) (d # ds) = d # ?due"
    proof -
      have "receipt_of env e \<noteq> l2_recipient d" if "e \<in> set ds" for e using Cons.prems(2) that by (force simp: disjoint_iff)
      then have "due_deposits env (insert (receipt_of env d) (credited_receipts s w)) ds = ?due"
        by (intro due_cong) (auto simp: cr)
      then show ?thesis using False by (simp add: already_credited_iff)
    qed
    have r: "seen_lamports s w1 r = (if r = l2_recipient d then saturating_add (seen_lamports s w r) (dep_amount d)
        else seen_lamports s w r)"
      using Cons.prems(3) by (intro bal) simp
    have step: "unat (seen_lamports s w1 r) + deposited_to r ?due
        = unat (seen_lamports s w r) + deposited_to r (d # ?due)"
      using Cons.prems(4) unfolding due r by (auto simp: unat_saturating_add)
    with Cons.prems(4) have "unat (seen_lamports s w1 r) + deposited_to r ?due < 2 ^ 64" unfolding due by simp
    with Cons.IH [of w1] Cons.prems(1,3) disj obtain w' where
      "apply_deposits env s ds w1 = Some (w', length ?due)"
      "unat (seen_lamports s w' r) = unat (seen_lamports s w1 r) + deposited_to r ?due" by auto
    then show ?thesis unfolding due using False c step by simp
  qed
qed


section \<open>Lemmas: withdrawals\<close>

lemma seen_total_insert:
  assumes "finite A" and "k \<in> A"
  shows "seen_total s (RBT.insert k (Some a) w) A + unat (seen_lamports s w k) = seen_total s w A + unat (lamports a)"
proof -
  have "seen_total s v A = unat (seen_lamports s v k) + (\<Sum>i\<in>A - {k}. unat (seen_lamports s v i))" for v
    unfolding seen_total_def using assms by (simp add: sum.remove)
  then show ?thesis by (simp add: seen_insert)
qed

lemma seen_le_total: "finite A \<Longrightarrow> k \<in> A \<Longrightarrow> unat (seen_lamports s w k) \<le> seen_total s w A"
  unfolding seen_total_def by (rule member_le_sum) auto

lemma burn_cases:
  assumes "burn_wrapped_spl env s m own amount w = Some (w', b)"
  obtains "w' = w" and "\<not> b"
  | i acc d w1 where "b" and "current s w i = Some acc" and "w1 = RBT.insert i (Some (acc\<lparr> data := d \<rparr>)) w" and "w' = w1"
  | i acc d w1 j macc md where "b" and "current s w i = Some acc" and "w1 = RBT.insert i (Some (acc\<lparr> data := d \<rparr>)) w"
      and "current s w1 j = Some macc" and "w' = RBT.insert j (Some (macc\<lparr> data := md \<rparr>)) w1"
proof -
  let ?wm = "wrapped_mint_address (br_b3 env) m"
  let ?ata = "associated_token_address (br_pda env) own ?wm"
  show thesis
  proof (cases "current s w ?ata")
    case None
    then show thesis using assms that(1) by (auto simp: burn_wrapped_spl_def Let_def split: if_splits)
  next
    case acc: (Some acc)
    let ?d = "set_token_account_amount (data acc) (amount_or_zero (data acc) - amount)"
    show thesis
    proof (cases "amount = 0 \<or> amount_or_zero (data acc) < amount \<or> ?d = None")
      case True
      then show thesis using assms that(1) acc by (auto simp: burn_wrapped_spl_def Let_def split: if_splits)
    next
      case False
      then obtain d where d: "?d = Some d" by blast
      let ?w1 = "RBT.insert ?ata (Some (acc\<lparr> data := d \<rparr>)) w"
      show thesis
      proof (cases "current s ?w1 ?wm")
        case None
        then show thesis using assms that(2) [OF _ acc refl, of d] acc d False by (auto simp: burn_wrapped_spl_def Let_def)
      next
        case (Some macc)
        then show thesis
          using assms that(3) [OF _ acc refl Some] acc d False
          by (auto simp: burn_wrapped_spl_def Let_def bind_eq_Some_conv)
      qed
    qed
  qed
qed

lemma burn_keeps_lamports:
  assumes "burn_wrapped_spl env s m own amount w = Some (w', b)"
  shows "seen_lamports s w' k = seen_lamports s w k"
proof -
  have keep: "seen_lamports s (RBT.insert i (Some (a\<lparr> data := d \<rparr>)) v) k = seen_lamports s v k"
    if "current s v i = Some a" for i a d v
    using that by (auto simp: seen_insert) (simp add: seen_lamports_def)
  from assms show ?thesis by (cases rule: burn_cases) (simp_all add: keep)
qed

lemma burn_false: "burn_wrapped_spl env s m own amount w = Some (w', False) \<Longrightarrow> w' = w"
  by (erule burn_cases) simp_all

lemma debit_rejected: "debit_withdraw env s w ws = Some (ws', None) \<Longrightarrow> ws' = ws"
  by (auto simp: debit_withdraw_def Let_def bind_eq_Some_conv dest: burn_false split: if_splits option.splits)

lemma debit_accepted:
  assumes "debit_withdraw env s w ws = Some (ws', Some post)"
  shows "needed_native env w \<le> seen_lamports s ws (w_fee_payer w)"
    and "seen_lamports s ws' k = (if k = w_fee_payer w then seen_lamports s ws k - needed_native env w
      else seen_lamports s ws k)"
proof -
  obtain acc ws1 where acc: "current s ws (w_fee_payer w) = Some acc" and le: "needed_native env w \<le> lamports acc"
    and ws1: "\<And>k. seen_lamports s ws1 k = seen_lamports s ws k"
    and ws': "ws' = RBT.insert (w_fee_payer w) (Some (acc\<lparr> lamports := lamports acc - needed_native env w \<rparr>)) ws1"
    using assms
    by (auto simp: debit_withdraw_def Let_def bind_eq_Some_conv dest: burn_keeps_lamports
        split: if_splits option.splits)
  have seen: "seen_lamports s ws (w_fee_payer w) = lamports acc" by (simp add: seen_lamports_def acc)
  show "needed_native env w \<le> seen_lamports s ws (w_fee_payer w)" by (simp add: seen le)
  show "seen_lamports s ws' k = (if k = w_fee_payer w then seen_lamports s ws k - needed_native env w
      else seen_lamports s ws k)"
    by (simp add: ws' seen_insert ws1 seen)
qed

lemma withdraw_step_total:
  assumes "debit_withdraw env s w ws = Some (ws1, Some post)" and "finite A" and "w_fee_payer w \<in> A"
    and "br_collector env \<in> A" and "seen_total s ws A < 2 ^ 64 - 1"
  shows "seen_total s (credit_collector env s ws1) A + burned env w = seen_total s ws A"
proof -
  let ?p = "w_fee_payer w" and ?n = "needed_native env w"
  note acc = debit_accepted [OF assms(1)]
  have bound: "unat (seen_lamports s ws ?p) < 2 ^ 64 - 1"
    using seen_le_total [OF assms(2,3), of s ws] assms(5) by simp
  have need: "unat ?n = burned env w + unat POOL_TX_FEE"
    using no_saturation [of "w_amount w" POOL_TX_FEE "seen_lamports s ws ?p"] acc(1) bound unat_bound [of POOL_TX_FEE]
    by (auto simp: needed_native_def burned_def unat_saturating_add)
  have "seen_total s ws1 A = seen_total s (RBT.insert ?p (Some (new_system (seen_lamports s ws ?p - ?n))) ws) A"
    unfolding seen_total_def by (rule sum.cong) (auto simp: acc(2) seen_insert new_system_def)
  then have debit: "seen_total s ws1 A + unat ?n = seen_total s ws A"
    using seen_total_insert [OF assms(2,3), of s "new_system (seen_lamports s ws ?p - ?n)" ws] acc(1)
    by (simp add: new_system_def unat_sub word_le_nat_alt)
  have le: "unat (seen_lamports s ws1 (br_collector env)) \<le> seen_total s ws1 A" by (rule seen_le_total [OF assms(2,4)])
  have "seen_total s (credit_collector env s ws1) A = seen_total s ws1 A + unat POOL_TX_FEE"
  proof -
    let ?a = "case current s ws1 (br_collector env) of Some a \<Rightarrow> a | None \<Rightarrow> new_system 0"
    have "lamports ?a = seen_lamports s ws1 (br_collector env)"
      by (simp add: seen_lamports_def new_system_def split: option.splits)
    moreover have "unat (saturating_add (lamports ?a) POOL_TX_FEE) = unat (lamports ?a) + unat POOL_TX_FEE"
      using le debit need assms(5) calculation by (simp add: unat_saturating_add)
    ultimately show ?thesis
      using seen_total_insert [OF assms(2,4), of s "?a\<lparr> lamports := saturating_add (lamports ?a) POOL_TX_FEE \<rparr>" ws1]
      by (simp add: credit_collector_def Let_def)
  qed
  with debit need show ?thesis by simp
qed

lemma pool_meta_success [simp]: "is_success (pool_meta b e f pre post logs) \<longleftrightarrow> b"
  by (simp add: is_success_def pool_meta_def)

lemma accepted_withdraws_Cons [simp]:
  "accepted_withdraws (w # ws) (x # inc) = (if is_success (snd x) then [w] else []) @ accepted_withdraws ws inc"
  by (simp add: accepted_withdraws_def)

lemma accepted_withdraws_Nil [simp]: "accepted_withdraws [] inc = []"
  by (simp add: accepted_withdraws_def)

lemma apply_withdraws_Cons:
  assumes "apply_withdraws env s (w # rest) ws = Some (ws', inc, leaves)"
  obtains (accepted) ws1 post inc1 leaves1 where "debit_withdraw env s w ws = Some (ws1, Some post)"
      and "apply_withdraws env s rest (credit_collector env s ws1) = Some (ws', inc1, leaves1)"
      and "inc = (w_transaction w, pool_meta True None POOL_TX_FEE 0 post [withdraw_log w]) # inc1"
      and "leaves = withdraw_leaf (br_b3 env) w # leaves1"
  | (rejected) inc1 where "debit_withdraw env s w ws = Some (ws, None)"
      and "apply_withdraws env s rest ws = Some (ws', inc1, leaves)"
      and "inc = (w_transaction w, pool_meta False (Some ''insufficient balance for withdrawal'') 0 0 0 []) # inc1"
proof -
  obtain ws1 p where d: "debit_withdraw env s w ws = Some (ws1, p)" using assms by (auto simp: bind_eq_Some_conv)
  show thesis
  proof (cases p)
    case None
    then have "ws1 = ws" using debit_rejected d by simp
    with None d assms show thesis by (auto simp: bind_eq_Some_conv intro: rejected)
  next
    case (Some post)
    with d assms show thesis by (auto simp: bind_eq_Some_conv intro: accepted)
  qed
qed

lemma apply_withdraws_leaves:
  "apply_withdraws env s wts ws = Some (ws', inc, leaves)
    \<Longrightarrow> map fst inc = map w_transaction wts \<and> leaves = map (withdraw_leaf (br_b3 env)) (accepted_withdraws wts inc)"
proof (induction wts arbitrary: ws inc leaves)
  case (Cons w wts)
  from Cons.prems show ?case by (cases rule: apply_withdraws_Cons) (auto dest: Cons.IH)
qed auto

lemma apply_withdraws_total:
  assumes "finite A" and "br_collector env \<in> A"
  shows "apply_withdraws env s wts ws = Some (ws', inc, leaves) \<Longrightarrow> w_fee_payer ` set wts \<subseteq> A
    \<Longrightarrow> seen_total s ws A < 2 ^ 64 - 1
    \<Longrightarrow> seen_total s ws' A + sum_list (map (burned env) (accepted_withdraws wts inc)) = seen_total s ws A"
proof (induction wts arbitrary: ws inc leaves)
  case (Cons w wts)
  from Cons.prems(1) show ?case
  proof (cases rule: apply_withdraws_Cons)
    case (accepted ws1 post inc1 leaves1)
    have step: "seen_total s (credit_collector env s ws1) A + burned env w = seen_total s ws A"
      by (rule withdraw_step_total [OF accepted(1) assms(1) _ assms(2)]) (use Cons.prems in auto)
    with Cons.IH [OF accepted(2)] Cons.prems(2,3) accepted(3) show ?thesis by simp
  next
    case (rejected inc1)
    with Cons.IH [OF rejected(2)] Cons.prems(2,3) show ?thesis by simp
  qed
qed simp


section \<open>Lemmas: parsing\<close>

lemma partition_withdraws_eq:
  "partition_withdraws txs = (List.map_filter withdraw_of txs, List.filter (\<lambda>tx. parse_withdraw tx = None) txs)"
  by (induction txs) (auto simp: withdraw_of_def List.map_filter_simps split: option.splits prod.splits)

lemma pool_partition_rest:
  "snd (pool_partition de_ins txs) = List.filter (\<lambda>tx. try_parse_pool_tx de_ins tx = None) txs"
  "map pt_transaction (fst (pool_partition de_ins txs)) = List.filter (\<lambda>tx. try_parse_pool_tx de_ins tx \<noteq> None) txs"
  by (induction txs) (auto simp: case_prod_unfold Let_def split: option.splits)

lemma withdraw_of_transaction: "withdraw_of tx = Some w \<Longrightarrow> w_transaction w = tx"
  by (auto simp: withdraw_of_def)

lemma sample_parse: "withdraw_of sample_withdraw_tx = Some sample_withdraw"
  by (simp add: withdraw_of_def parse_withdraw_def sample_withdraw_tx_def sample_withdraw_def get_at_def get_range_def)

text \<open>
  A payer whose account an earlier transaction of the same block deleted is judged by the
  committed balance from before the block.
\<close>

lemma deleted_payer_withdraws_again:
  assumes "RBT.lookup ws (w_fee_payer w) = Some None" and "get_account s (w_fee_payer w) = Some acc"
    and "is_native_withdraw env w" and "needed_native env w \<le> lamports acc" and "0 < w_amount w"
  shows "\<exists>ws' post. debit_withdraw env s w ws = Some (ws', Some post)"
  using assms by (simp add: debit_withdraw_def current_def Let_def)


section \<open>More properties\<close>






end
