(* ===== verification/Mempool.thy ===== *)
theory Mempool
  imports Block
begin

text \<open>
  The bounded FIFO mempool, \<^verbatim>\<open>chain/zul-node/src/mempool.rs\<close>. A \<^verbatim>\<open>usize\<close> is a natural
  number; the one subtraction wraps as it does in a release build, and the invariant shows
  that it never does.
\<close>

datatype mempool_error = Full | Duplicate | Unsigned | PayerLimit

record mempool =
  mp_capacity :: nat
  max_per_payer :: nat
  queue :: "transaction list"
  pending :: "sigbytes set"
  per_payer :: "pubkey \<rightharpoonup> nat"

definition fee_payer :: "transaction \<Rightarrow> pubkey option" where
  "fee_payer tx = first (account_keys tx)"

definition mempool_new :: "nat \<Rightarrow> nat \<Rightarrow> mempool" where
  "mempool_new cap per = \<lparr> mp_capacity = cap, max_per_payer = max per 1, queue = [],
    pending = {}, per_payer = Map.empty \<rparr>"

definition mempool_len :: "mempool \<Rightarrow> nat" where
  "mempool_len mp = length (queue mp)"

definition push :: "mempool \<Rightarrow> transaction \<Rightarrow> mempool \<times> (mempool_error + sigbytes)" where
  "push mp tx =
    (case first (signatures tx) of None \<Rightarrow> (mp, Inl Unsigned)
     | Some sig \<Rightarrow>
    (case fee_payer tx of None \<Rightarrow> (mp, Inl Unsigned)
     | Some payer \<Rightarrow>
       let count = (case per_payer mp payer of Some c \<Rightarrow> c | None \<Rightarrow> 0)
       in if sig \<in> pending mp then (mp, Inl Duplicate)
          else if count \<ge> max_per_payer mp then (mp, Inl PayerLimit)
          else if length (queue mp) \<ge> mp_capacity mp then (mp, Inl Full)
          else (mp\<lparr> pending := insert sig (pending mp),
                    per_payer := (per_payer mp)(payer \<mapsto> count + 1),
                    queue := queue mp @ [tx] \<rparr>, Inr sig)))"

definition dec_usize :: "nat \<Rightarrow> nat" where
  "dec_usize c = (if c = 0 then 2 ^ 64 - 1 else c - 1)"

text \<open>The loop body of \<^verbatim>\<open>drain\<close>: forget one drained transaction.\<close>

definition forget :: "transaction \<Rightarrow> mempool \<Rightarrow> mempool" where
  "forget tx mp =
    (let mp = (case first (signatures tx) of
                 Some sig \<Rightarrow> mp\<lparr> pending := pending mp - {sig} \<rparr> | None \<Rightarrow> mp)
     in case fee_payer tx of None \<Rightarrow> mp
        | Some payer \<Rightarrow>
          (case per_payer mp payer of None \<Rightarrow> mp
           | Some count \<Rightarrow>
             (let count = dec_usize count
              in if count = 0 then mp\<lparr> per_payer := (per_payer mp)(payer := None) \<rparr>
                 else mp\<lparr> per_payer := (per_payer mp)(payer \<mapsto> count) \<rparr>)))"

definition drain :: "mempool \<Rightarrow> nat \<Rightarrow> mempool \<times> transaction list" where
  "drain mp limit =
    (let n = min limit (length (queue mp));
         drained = take n (queue mp)
     in (fold forget drained (mp\<lparr> queue := drop n (queue mp) \<rparr>), drained))"


section \<open>Invariant\<close>

definition first_sig :: "transaction \<Rightarrow> sigbytes" where
  "first_sig tx = hd (signatures tx)"

definition payer_count :: "pubkey \<Rightarrow> transaction list \<Rightarrow> nat" where
  "payer_count p txs = length (List.filter (\<lambda>tx. fee_payer tx = Some p) txs)"

definition admissible :: "transaction \<Rightarrow> bool" where
  "admissible tx \<longleftrightarrow> signatures tx \<noteq> [] \<and> account_keys tx \<noteq> []"

text \<open>
  The set and the counters say what a queue \<open>txs\<close> says. In \<open>mempool_inv\<close> that is the queue of
  the pool; during a drain it is the rest of the drained part followed by the queue.
\<close>

definition tracks :: "mempool \<Rightarrow> transaction list \<Rightarrow> bool" where
  "tracks mp txs \<longleftrightarrow>
    (\<forall>tx\<in>set txs. admissible tx) \<and> distinct (map first_sig txs)
    \<and> pending mp = first_sig ` set txs
    \<and> (\<forall>p. per_payer mp p = (if payer_count p txs = 0 then None else Some (payer_count p txs)))"

definition mempool_inv :: "mempool \<Rightarrow> bool" where
  "mempool_inv mp \<longleftrightarrow> tracks mp (queue mp) \<and> length (queue mp) \<le> mp_capacity mp
    \<and> (\<forall>p. payer_count p (queue mp) \<le> max_per_payer mp)"

text \<open>A run of the pool: what was accepted and what came out.\<close>

datatype mempool_op = Push transaction | Drain nat

fun run :: "mempool_op list \<Rightarrow> mempool \<Rightarrow> mempool \<times> transaction list \<times> transaction list" where
  "run [] mp = (mp, [], [])"
| "run (Push tx # ops) mp =
    (let (mp', r) = push mp tx; (mp'', acc, out) = run ops mp'
     in (mp'', (case r of Inr _ \<Rightarrow> [tx] | Inl _ \<Rightarrow> []) @ acc, out))"
| "run (Drain n # ops) mp =
    (let (mp', txs) = drain mp n; (mp'', acc, out) = run ops mp'
     in (mp'', acc, txs @ out))"


section \<open>Lemmas\<close>

lemma payer_count_simps [simp]:
  "payer_count p [] = 0"
  "payer_count p (tx # txs) = (if fee_payer tx = Some p then 1 else 0) + payer_count p txs"
  "payer_count p (txs @ us) = payer_count p txs + payer_count p us"
  by (simp_all add: payer_count_def)

lemma push_cases:
  obtains (unsigned) "first (signatures tx) = None \<or> fee_payer tx = None" "push mp tx = (mp, Inl Unsigned)"
  | (duplicate) sig where "first (signatures tx) = Some sig" "sig \<in> pending mp"
      "push mp tx = (mp, Inl Duplicate)"
  | (limit) payer where "fee_payer tx = Some payer"
      "max_per_payer mp \<le> (case per_payer mp payer of Some c \<Rightarrow> c | None \<Rightarrow> 0)"
      "push mp tx = (mp, Inl PayerLimit)"
  | (full) "mp_capacity mp \<le> length (queue mp)" "push mp tx = (mp, Inl Full)"
  | (accepted) sig payer where "first (signatures tx) = Some sig" "fee_payer tx = Some payer"
      "sig \<notin> pending mp" "(case per_payer mp payer of Some c \<Rightarrow> c | None \<Rightarrow> 0) < max_per_payer mp"
      "length (queue mp) < mp_capacity mp"
      "push mp tx = (mp\<lparr> pending := insert sig (pending mp),
         per_payer := (per_payer mp)(payer \<mapsto> (case per_payer mp payer of Some c \<Rightarrow> c | None \<Rightarrow> 0) + 1),
         queue := queue mp @ [tx] \<rparr>, Inr sig)"
proof (cases "first (signatures tx)")
  case None
  then show ?thesis using unsigned by (simp add: push_def)
next
  case sig: (Some sig)
  show ?thesis
  proof (cases "fee_payer tx")
    case None
    then show ?thesis using unsigned sig by (simp add: push_def)
  next
    case (Some payer)
    let ?c = "case per_payer mp payer of Some c \<Rightarrow> c | None \<Rightarrow> 0"
    consider "sig \<in> pending mp" | "sig \<notin> pending mp" "max_per_payer mp \<le> ?c"
      | "sig \<notin> pending mp" "?c < max_per_payer mp" "mp_capacity mp \<le> length (queue mp)"
      | "sig \<notin> pending mp" "?c < max_per_payer mp" "length (queue mp) < mp_capacity mp"
      by linarith
    then show ?thesis
    proof cases
      case 1 with sig Some show ?thesis by (intro duplicate) (simp_all add: push_def)
    next
      case 2 with sig Some show ?thesis by (intro limit) (simp_all add: push_def Let_def)
    next
      case 3 with sig Some show ?thesis by (intro full) (simp_all add: push_def Let_def)
    next
      case 4 with sig Some show ?thesis by (intro accepted) (simp_all add: push_def Let_def)
    qed
  qed
qed

lemma tracks_count:
  "tracks mp txs \<Longrightarrow> (case per_payer mp p of Some c \<Rightarrow> c | None \<Rightarrow> 0) = payer_count p txs"
  by (simp add: tracks_def)

lemma first_sig_eq: "first (signatures tx) = Some sig \<Longrightarrow> first_sig tx = sig"
  by (auto simp: first_sig_def first_Some)

lemma push_preserves_inv:
  assumes "mempool_inv mp"
  shows "mempool_inv (fst (push mp tx))"
proof (cases rule: push_cases [of tx mp])
  case (accepted sig payer)
  have c: "(case per_payer mp payer of Some c \<Rightarrow> c | None \<Rightarrow> 0) = payer_count payer (queue mp)"
    using assms tracks_count by (simp add: mempool_inv_def)
  have sig: "first_sig tx = sig" using accepted(1) by (rule first_sig_eq)
  have "admissible tx"
    using accepted(1,2) by (auto simp: admissible_def fee_payer_def first_Some)
  moreover have "payer_count p (queue mp @ [tx]) \<le> max_per_payer mp" for p
    using assms accepted(2,4) c by (auto simp: mempool_inv_def)
  ultimately show ?thesis
    using assms accepted c sig by (auto simp: mempool_inv_def tracks_def)
qed (use assms in simp_all)

lemma forget_tracks:
  assumes "tracks mp (tx # txs)"
  shows "tracks (forget tx mp) txs"
proof -
  obtain sig sigs where s: "signatures tx = sig # sigs"
    using assms by (auto simp: tracks_def admissible_def neq_Nil_conv)
  obtain payer keys where p: "account_keys tx = payer # keys"
    using assms by (auto simp: tracks_def admissible_def neq_Nil_conv)
  have "first_sig tx = sig" and "fee_payer tx = Some payer"
    by (simp_all add: first_sig_def s fee_payer_def p)
  with assms s show ?thesis
    by (auto simp: tracks_def forget_def dec_usize_def Let_def)
qed

lemma forget_other [simp]:
  "queue (forget tx mp) = queue mp" "mp_capacity (forget tx mp) = mp_capacity mp"
  "max_per_payer (forget tx mp) = max_per_payer mp"
  by (simp_all add: forget_def Let_def split: option.splits)

lemma fold_forget_other [simp]:
  "queue (fold forget txs mp) = queue mp" "mp_capacity (fold forget txs mp) = mp_capacity mp"
  "max_per_payer (fold forget txs mp) = max_per_payer mp"
  by (induction txs arbitrary: mp) simp_all

lemma fold_forget_tracks:
  "tracks mp (txs @ rest) \<Longrightarrow> tracks (fold forget txs mp) rest"
  by (induction txs arbitrary: mp) (simp_all add: forget_tracks)

lemma tracks_queue_update [simp]: "tracks (mp\<lparr> queue := q \<rparr>) txs = tracks mp txs"
  by (simp add: tracks_def)

lemma payer_count_drop: "payer_count p (drop n txs) \<le> payer_count p txs"
  by (metis append_take_drop_id le_add2 payer_count_simps(3))

lemma drain_preserves_inv:
  assumes "mempool_inv mp"
  shows "mempool_inv (fst (drain mp n))"
proof -
  let ?n = "min n (length (queue mp))"
  have "tracks (mp\<lparr> queue := drop ?n (queue mp) \<rparr>) (take ?n (queue mp) @ drop ?n (queue mp))"
    using assms by (simp add: mempool_inv_def)
  then have "tracks (fst (drain mp n)) (drop ?n (queue mp))"
    unfolding drain_def Let_def fst_conv by (rule fold_forget_tracks)
  moreover have "payer_count p (drop ?n (queue mp)) \<le> max_per_payer mp" for p
    using assms payer_count_drop [of p ?n "queue mp"] by (auto simp: mempool_inv_def intro: le_trans)
  ultimately show ?thesis
    using assms by (auto simp: mempool_inv_def drain_def Let_def)
qed

lemma drain_result:
  "snd (drain mp n) = take n (queue mp)" "queue (fst (drain mp n)) = drop n (queue mp)"
  by (simp_all add: drain_def Let_def min_def)

lemma push_queue:
  "queue (fst (push mp tx)) = queue mp @ (case snd (push mp tx) of Inr _ \<Rightarrow> [tx] | Inl _ \<Rightarrow> [])"
  by (cases rule: push_cases [of tx mp]) simp_all

lemma run_inv: "mempool_inv mp \<Longrightarrow> mempool_inv (fst (run ops mp))"
proof (induction ops arbitrary: mp)
  case (Cons op ops)
  then show ?case
    by (cases op)
      (simp_all add: Let_def case_prod_unfold push_preserves_inv drain_preserves_inv)
qed simp

lemma run_fifo:
  "queue mp @ fst (snd (run ops mp)) = snd (snd (run ops mp)) @ queue (fst (run ops mp))"
proof (induction ops arbitrary: mp)
  case (Cons op ops)
  show ?case
  proof (cases op)
    case (Push tx)
    then show ?thesis
      using push_queue [of mp tx] Cons.IH [of "fst (push mp tx)"]
      by (simp add: Let_def case_prod_unfold)
  next
    case (Drain n)
    have "take n (queue mp) @ drop n (queue mp) = queue mp" by simp
    with Drain show ?thesis
      using Cons.IH [of "fst (drain mp n)"]
      by (simp add: Let_def case_prod_unfold drain_result del: append_take_drop_id)
        (metis append.assoc)
  qed
qed simp

lemma mempool_inv_new: "mempool_inv (mempool_new cap per)"
  by (simp add: mempool_inv_def mempool_new_def tracks_def)


section \<open>Properties\<close>

text \<open>
  C39: From a new pool, every sequence of pushes and drains keeps the pool's invariant: the
  pending set and the per-payer counters say exactly what the queue holds, no signature is
  queued twice, the queue is within its capacity and no fee payer is above the limit.
\<close>

theorem mempool_invariant: "mempool_inv (fst (run ops (mempool_new cap per)))"
  by (rule run_inv [OF mempool_inv_new])

text \<open>
  The pool is a FIFO queue: over any sequence of pushes and drains from a new pool, what
  has come out, followed by what is still queued, is the accepted transactions in arrival
  order.
\<close>

theorem mempool_fifo:
  assumes "run ops (mempool_new cap per) = (mp, accepted, drained)"
  shows "accepted = drained @ queue mp"
  using run_fifo [of "mempool_new cap per" ops] assms by (simp add: mempool_new_def)

theorem mempool_fifo_witness:
  "[sample_tx] = [sample_tx] @ queue (fst (run [Push sample_tx, Push sample_tx, Drain 5] (mempool_new 3 1)))"
  by (rule mempool_fifo [of "[Push sample_tx, Push sample_tx, Drain 5]" 3 1])
    (simp add: prod_eq_iff push_def drain_def mempool_new_def fee_payer_def sample_tx_def forget_def)

text \<open>
  A push is accepted exactly when the transaction has a signature and a fee payer, its
  signature is not pending, its payer is below the limit and the queue has room; a rejected
  push leaves the pool unchanged.
\<close>

theorem push_accepts_iff:
  assumes "mempool_inv mp"
  shows "(snd (push mp tx) \<in> range Inl \<longrightarrow> fst (push mp tx) = mp)
    \<and> ((\<exists>sig. snd (push mp tx) = Inr sig) \<longleftrightarrow>
      admissible tx \<and> first_sig tx \<notin> first_sig ` set (queue mp)
      \<and> payer_count (hd (account_keys tx)) (queue mp) < max_per_payer mp
      \<and> length (queue mp) < mp_capacity mp)"
proof -
  have p: "pending mp = first_sig ` set (queue mp)"
    and c: "\<And>p. (case per_payer mp p of Some c \<Rightarrow> c | None \<Rightarrow> 0) = payer_count p (queue mp)"
    using assms tracks_count by (auto simp: mempool_inv_def tracks_def)
  show ?thesis
    by (cases rule: push_cases [of tx mp])
      (auto simp: p c admissible_def fee_payer_def first_Some first_sig_def image_iff)
qed

theorem push_accepts_iff_witness:
  "((\<exists>sig. snd (push (mempool_new 3 1) sample_tx) = Inr sig) \<longleftrightarrow>
      admissible sample_tx \<and> first_sig sample_tx \<notin> first_sig ` set (queue (mempool_new 3 1))
      \<and> payer_count (hd (account_keys sample_tx)) (queue (mempool_new 3 1)) < max_per_payer (mempool_new 3 1)
      \<and> length (queue (mempool_new 3 1)) < mp_capacity (mempool_new 3 1))"
  by (rule push_accepts_iff [OF mempool_inv_new, THEN conjunct2])

end
