(* ===== verification/Node.thy ===== *)
theory Node
  imports Bridge Mempool
begin

text \<open>
  The sequencer node, \<^verbatim>\<open>node.rs\<close> of \<^verbatim>\<open>zul-node\<close>: start-up, block production and the operations
  behind the RPC interface. \<open>node_env\<close> holds what a node never changes: the options, the
  configured pool service and virtual machine, the encodings of headers and transactions, the
  sequencer's signature and the accounts the runtime adds to genesis. \<open>node\<close> is the mutable
  state behind the locks. The time is an argument. An operation returns the node as it leaves
  it, on errors too. Notifications of subscribers and logging are left out.
\<close>

section \<open>State\<close>

record node_options =
  opt_slot_duration :: u64
  opt_heartbeat :: u64
  opt_mempool_capacity :: nat
  opt_max_per_payer :: nat
  opt_max_block_transactions :: nat
  opt_faucet :: "pubkey option"
  opt_faucet_max_lamports :: u64
  opt_gas_mint :: "pubkey option"

definition DEFAULT_SLOT_DURATION_MS :: u64 where
  "DEFAULT_SLOT_DURATION_MS = 500"

definition node_options_default :: node_options where
  "node_options_default = \<lparr> opt_slot_duration = DEFAULT_SLOT_DURATION_MS, opt_heartbeat = 10000,
    opt_mempool_capacity = 10000, opt_max_per_payer = 128, opt_max_block_transactions = 1024,
    opt_faucet = None, opt_faucet_max_lamports = 10000000000, opt_gas_mint = None \<rparr>"

record ('b, 'f) node_env =
  options :: node_options
  vm :: "'b svm"
  pool_template :: "'f pool_service"
  ser_hdr :: "block_header \<Rightarrow> bytes"
  ser_tx :: "transaction \<Rightarrow> bytes"
  seq_pubkey :: pubkey
  seq_sign :: "bytes \<Rightarrow> sigbytes"
  de_ins :: "bytes \<Rightarrow> pool_instruction option"
  runtime_accounts :: "(pubkey \<times> stored_account) list"
  faucet_transfer :: "pubkey \<Rightarrow> pubkey \<Rightarrow> u64 \<Rightarrow> h256 \<Rightarrow> transaction"

record node =
  nd_collector :: pubkey
  nd_store :: "tx_error store"
  tip_queue :: blockhash_queue
  tip_slot :: u64
  tip_blockhash :: h256
  last_block_unix_ms :: u64
  nd_mempool :: mempool
  draining :: bool
  total_txs :: u64
  pending_deposits :: "deposit_event list"
  withdrawals :: node_source

datatype node_error =
  SequencerMismatch | NodeStore store_error | NodePool pool_service_error | NoBlockhashQueue
  | LatestBlockMissing | WithdrawalNotFound

abbreviation nd_b3 :: "('b, 'f) node_env \<Rightarrow> hasher" where
  "nd_b3 env \<equiv> svc_b3 (pool_template env)"

text \<open>The pool service of a node: the fixed addresses, and the fee collector of the genesis.\<close>

definition pool_service_for :: "('b, 'f) node_env \<Rightarrow> pubkey \<Rightarrow> 'f pool_service" where
  "pool_service_for env collector =
    (pool_template env)\<lparr> config := pool_config_new POOL_STATE_ADDRESS POOL_VAULT_ADDRESS collector \<rparr>"

definition bridge_of :: "('b, 'f) node_env \<Rightarrow> node \<Rightarrow> bridge_env" where
  "bridge_of env n = \<lparr> br_b3 = nd_b3 env, br_pda = svc_pda (pool_template env),
    gas_mint = opt_gas_mint (options env), br_collector = nd_collector n \<rparr>"


section \<open>Start-up\<close>

text \<open>
  The leaves of the successful withdrawals of a block, as the rebuild finds them: by the status
  recorded for the transaction's signature.
\<close>

definition withdraw_succeeded :: "tx_error store \<Rightarrow> withdraw_tx \<Rightarrow> bool" where
  "withdraw_succeeded s w =
    (case first (signatures (w_transaction w)) of None \<Rightarrow> False
     | Some sig \<Rightarrow> (case get_transaction s sig of Inr (Some (_, _, m)) \<Rightarrow> is_success m | _ \<Rightarrow> False))"

definition rebuild_block :: "hasher \<Rightarrow> tx_error store \<Rightarrow> u64 \<Rightarrow> node_source \<Rightarrow> node_source" where
  "rebuild_block b3 s sl tree =
    (case get_block s sl of None \<Rightarrow> tree
     | Some b \<Rightarrow>
        fold (\<lambda>w t. if withdraw_succeeded s w
            then withdraw_apply b3 t (withdrawal_pubkey b3 (w_recipient w) (w_nonce w))
              (withdrawal_account_hash b3 (w_recipient w) (w_asset_id w) (w_amount w) (w_nonce w))
            else t)
          (fst (partition_withdraws (transactions b))) tree)"

definition USIZE_MAX :: nat where
  "USIZE_MAX = 2 ^ 64 - 1"

definition rebuild_tree :: "hasher \<Rightarrow> tx_error store \<Rightarrow> node_source \<Rightarrow> node_source" where
  "rebuild_tree b3 s tree =
    (let newest = (case meta_latest_slot s of Some l \<Rightarrow> l | None \<Rightarrow> 0)
     in if newest > 0 then fold (rebuild_block b3 s) (block_slots_in_range s 1 newest USIZE_MAX) tree else tree)"

definition rebuild_withdrawals :: "('b, 'f) node_env \<Rightarrow> node \<Rightarrow> node" where
  "rebuild_withdrawals env n =
    (let tree = rebuild_tree (nd_b3 env) (nd_store n) (withdrawals n)
     in n\<lparr> withdrawals := tree, nd_store := set_withdrawals_root (nd_store n) (withdraw_root (nd_b3 env) tree) \<rparr>)"

definition restore_tip ::
  "('b, 'f) node_env \<Rightarrow> tx_error store \<Rightarrow> h256 \<Rightarrow> node_error + (blockhash_queue \<times> u64 \<times> h256)" where
  "restore_tip env s g_hash =
    (case meta_latest_slot s of
       Some newest \<Rightarrow>
         (case load_blockhash_queue s of None \<Rightarrow> Inl NoBlockhashQueue
          | Some q \<Rightarrow>
            (case get_block s newest of None \<Rightarrow> Inl LatestBlockMissing
             | Some b \<Rightarrow> Inr (q, newest, header_hash (nd_b3 env) (ser_hdr env) (header b))))
     | None \<Rightarrow>
         Inr (register (the (with_capacity BLOCKHASH_QUEUE_CAPACITY)) 0 g_hash, 0, g_hash))"

definition node_new ::
  "('b, 'f) node_env \<Rightarrow> tx_error store \<Rightarrow> genesis_config \<Rightarrow> u64 \<Rightarrow> node_error + node" where
  "node_new env s genesis now =
    (if seq_pubkey env \<noteq> sequencer genesis then Inl SequencerMismatch
     else case initialize_genesis (nd_b3 env) s genesis
            (runtime_accounts env @ [genesis_pool_account (pool_service_for env (genesis_config.fee_collector genesis))]) of
       Inl e \<Rightarrow> Inl (NodeStore e)
     | Inr (s1, root) \<Rightarrow>
       (case restore_tip env s1 (genesis_hash (nd_b3 env) genesis) of
          Inl e \<Rightarrow> Inl e
        | Inr (q, sl, bh) \<Rightarrow>
            Inr (rebuild_withdrawals env \<lparr> nd_collector = genesis_config.fee_collector genesis, nd_store = s1, tip_queue = q, tip_slot = sl, tip_blockhash = bh,
              last_block_unix_ms = now,
              nd_mempool = mempool_new (opt_mempool_capacity (options env)) (opt_max_per_payer (options env)),
              draining = False, total_txs = 0, pending_deposits = [], withdrawals = Map.empty \<rparr>)))"

definition enqueue_deposits :: "node \<Rightarrow> deposit_event list \<Rightarrow> node" where
  "enqueue_deposits n ds = n\<lparr> pending_deposits := pending_deposits n @ ds \<rparr>"

definition compute_withdrawal_proof ::
  "('b, 'f) node_env \<Rightarrow> node \<Rightarrow> bytes \<Rightarrow> bytes \<Rightarrow> u64 \<Rightarrow> u64 \<Rightarrow> node_error + (h256 \<times> smt_proof)" where
  "compute_withdrawal_proof env n recipient asset_id amount nonce =
    (let leaf = withdrawal_pubkey (nd_b3 env) recipient nonce;
         ah = withdrawal_account_hash (nd_b3 env) recipient asset_id amount nonce;
         pf = withdraw_prove (nd_b3 env) (withdrawals n) leaf;
         root = withdraw_root (nd_b3 env) (withdrawals n)
     in if withdraw_verify (nd_b3 env) root leaf ah pf then Inr (root, pf) else Inl WithdrawalNotFound)"

definition begin_draining :: "node \<Rightarrow> node" where
  "begin_draining n = n\<lparr> draining := True \<rparr>"

definition last_block_age_ms :: "node \<Rightarrow> u64 \<Rightarrow> u64" where
  "last_block_age_ms n now = saturating_sub now (last_block_unix_ms n)"

definition mempool_depth :: "node \<Rightarrow> nat" where
  "mempool_depth n = mempool_len (nd_mempool n)"


section \<open>Block production\<close>

text \<open>The messages of the pool's errors, as the statuses of a pool block carry them.\<close>

fun pool_error_text :: "pool_error \<Rightarrow> string" where
  "pool_error_text BadField = ''malformed field element in instruction''"
| "pool_error_text UnknownRoot = ''unknown or stale merkle root''"
| "pool_error_text DoubleSpend = ''nullifier already spent (double spend)''"
| "pool_error_text DuplicateNullifier = ''duplicate nullifier within one transaction''"
| "pool_error_text ZeroAmount = ''zero amount is not allowed''"
| "pool_error_text TreeFull = ''commitment tree is full''"
| "pool_error_text InvalidProof = ''proof verification failed''"
| "pool_error_text NoVerifyingKey = ''verifying key unavailable for this operation''"

fun pool_service_error_text :: "pool_service_error \<Rightarrow> string" where
  "pool_service_error_text CorruptState = ''pool state account is corrupt''"
| "pool_service_error_text (PoolErr e) = ''pool error: '' @ pool_error_text e"
| "pool_service_error_text (InsufficientFunds what) = ''insufficient funds for '' @ what"

definition pool_seed :: "writes \<Rightarrow> overlay" where
  "pool_seed w = RBT.bulkload
    (List.map_filter (\<lambda>(pk, acc). map_option (\<lambda>a. (pk, lamports a)) acc) (RBT.entries w))"

definition merge_pool_write :: "account_write \<Rightarrow> writes \<Rightarrow> writes" where
  "merge_pool_write pw w = (case pw of (pubkey, pool_account) \<Rightarrow>
    RBT.insert pubkey
      (case (RBT.lookup w pubkey, pool_account) of
         (Some (Some svm_account), Some pool_account) \<Rightarrow> Some (svm_account\<lparr> lamports := lamports pool_account \<rparr>)
       | (_, other) \<Rightarrow> other) w)"

definition pool_included ::
  "writes \<Rightarrow> pool_tx \<times> (pool_service_error + unit) \<Rightarrow> transaction \<times> tx_error executed_meta" where
  "pool_included w = (\<lambda>(pt, st).
    (pt_transaction pt,
     pool_meta (st = Inr ()) (case st of Inl e \<Rightarrow> Some (pool_service_error_text e) | Inr _ \<Rightarrow> None)
       (if st = Inr () then POOL_TX_FEE else 0) 0
       (case lamports_in_writes (RBT.entries w) (pt_fee_payer pt) of Some l \<Rightarrow> l | None \<Rightarrow> 0) []))"

definition pool_stage ::
  "'f pool_service \<Rightarrow> tx_error store \<Rightarrow> pool_tx list \<Rightarrow> writes
    \<Rightarrow> (pool_service_error + (writes \<times> (transaction \<times> tx_error executed_meta) list \<times> bytes list)) option" where
  "pool_stage svc s pool_txs w =
    (if pool_txs = [] then Some (Inr (w, [], []))
     else case process_block_seeded svc s (map (\<lambda>pt. (pt_fee_payer pt, pt_instruction pt)) pool_txs) (pool_seed w) of
       None \<Rightarrow> None
     | Some (Inl e) \<Rightarrow> Some (Inl e)
     | Some (Inr res) \<Rightarrow>
         (let w' = fold merge_pool_write (account_writes res) w
          in Some (Inr (w', map (pool_included w') (zip pool_txs (statuses res)), res_nullifiers res))))"

text \<open>
  What a block will contain: the pending account writes, the included transactions with their
  metadata, the new nullifiers and the leaves of the withdrawals, in this order of stages:
  virtual machine, pool, deposits, withdrawals.
\<close>

type_synonym block_content =
  "writes \<times> (transaction \<times> tx_error executed_meta) list \<times> bytes list \<times> (pubkey \<times> h256) list"

definition run_block ::
  "('b, 'f) node_env \<Rightarrow> u64 \<Rightarrow> node \<Rightarrow> transaction list \<Rightarrow> deposit_event list
    \<Rightarrow> (node_error + block_content) option" where
  "run_block env now n txs deposits =
    (let (withdraw_txs, rest) = partition_withdraws txs;
         (pool_txs, regular_txs) = pool_partition (de_ins env) rest
     in case execute_block (vm env) (nd_collector n) (nd_store n)
          \<lparr> in_slot = tip_slot n + 1, in_timestamp_ms = now, parent_blockhash = tip_blockhash n,
            in_transactions = regular_txs, in_queue = tip_queue n \<rparr> of
       Inl e \<Rightarrow> Some (Inl (NodeStore e))
     | Inr out \<Rightarrow>
       (case pool_stage (pool_service_for env (nd_collector n)) (nd_store n) pool_txs
          (fold (\<lambda>(k, a). RBT.insert k a) (out_writes out) RBT.empty) of
          None \<Rightarrow> None
        | Some (Inl e) \<Rightarrow> Some (Inl (NodePool e))
        | Some (Inr (w1, pool_inc, nulls)) \<Rightarrow> do {
            (w2, credited) \<leftarrow> apply_deposits (bridge_of env n) (nd_store n) deposits w1;
            (w3, wd_inc, leaves) \<leftarrow> apply_withdraws (bridge_of env n) (nd_store n) withdraw_txs w2;
            Some (Inr (w3, included out @ pool_inc @ wd_inc, nulls, leaves))
          }))"

definition make_block ::
  "('b, 'f) node_env \<Rightarrow> u64 \<Rightarrow> node \<Rightarrow> h256 \<Rightarrow> transaction list \<Rightarrow> block" where
  "make_block env now n root txs =
    seal (nd_b3 env) (ser_hdr env) (\<lambda>_. seq_sign env)
      \<lparr> slot = tip_slot n + 1, parent_hash = tip_blockhash n, state_root = root,
        transactions_root = compute_transactions_root (nd_b3 env) (ser_tx env) txs,
        timestamp_ms = now, transaction_count = of_nat (length txs) \<rparr> txs ()"

definition insert_leaves ::
  "hasher \<Rightarrow> (pubkey \<times> h256) list \<Rightarrow> node \<Rightarrow> node" where
  "insert_leaves b3 leaves n =
    (if leaves = [] then n
     else (let tree = fold (\<lambda>(pk, ah) t. withdraw_apply b3 t pk ah) leaves (withdrawals n)
           in n\<lparr> withdrawals := tree, nd_store := set_withdrawals_root (nd_store n) (withdraw_root b3 tree) \<rparr>))"

definition commit_content ::
  "('b, 'f) node_env \<Rightarrow> u64 \<Rightarrow> node \<Rightarrow> block_content \<Rightarrow> node_error + node" where
  "commit_content env now n content = (case content of (w, inc, nulls, leaves) \<Rightarrow>
    (let b3 = nd_b3 env;
         ws = RBT.entries w;
         update = prepare_state_update b3 (nd_store n) (leaf_updates b3 ws);
         b = make_block env now n (new_root update) (map fst inc);
         blockhash = header_hash b3 (ser_hdr env) (header b);
         q = register (tip_queue n) (tip_slot n + 1) blockhash
     in case commit_block b3 (nd_store n) b (map snd inc) ws update q nulls of
          Inl e \<Rightarrow> Inl (NodeStore e)
        | Inr s \<Rightarrow>
            Inr ((insert_leaves b3 leaves
              (n\<lparr> nd_store := s, tip_queue := q, tip_slot := tip_slot n + 1, tip_blockhash := blockhash,
                 last_block_unix_ms := now \<rparr>))
              \<lparr> total_txs := total_txs n + ucast (transaction_count (header b)) \<rparr>)))"

text \<open>
  Production takes the work out of the queues first and only then takes the tip lock, so other
  requests can run between \<open>take_work\<close> and \<open>finish_block\<close>.
\<close>

definition take_work :: "('b, 'f) node_env \<Rightarrow> node \<Rightarrow> node \<times> transaction list \<times> deposit_event list" where
  "take_work env n =
    (let (mp, txs) = drain (nd_mempool n) (opt_max_block_transactions (options env))
     in (n\<lparr> nd_mempool := mp, pending_deposits := [] \<rparr>, txs, pending_deposits n))"

definition finish_block ::
  "('b, 'f) node_env \<Rightarrow> u64 \<Rightarrow> node \<Rightarrow> transaction list \<Rightarrow> deposit_event list
    \<Rightarrow> (node \<times> (node_error + u64 option)) option" where
  "finish_block env now n txs deposits =
    (if txs = [] \<and> deposits = [] \<and> saturating_sub now (last_block_unix_ms n) < opt_heartbeat (options env)
     then Some (n, Inr None)
     else case run_block env now n txs deposits of
       None \<Rightarrow> None
     | Some (Inl e) \<Rightarrow> Some (n, Inl e)
     | Some (Inr content) \<Rightarrow>
       (case commit_content env now n content of
          Inl e \<Rightarrow> Some (n, Inl e)
        | Inr n' \<Rightarrow> Some (n', Inr (Some (tip_slot n + 1)))))"

definition try_produce_block ::
  "('b, 'f) node_env \<Rightarrow> u64 \<Rightarrow> node \<Rightarrow> (node \<times> (node_error + u64 option)) option" where
  "try_produce_block env now n =
    (let (n1, txs, deposits) = take_work env n in finish_block env now n1 txs deposits)"


section \<open>The RPC backend\<close>

datatype backend_error = Rejected string | FaucetDisabled | FaucetLimit | Internal store_error | EmptySimulation

record simulation_result =
  sim_err :: "tx_error option"
  sim_logs :: "string list"
  units_consumed :: u64

definition admit :: "('b, 'f) node_env \<Rightarrow> node \<Rightarrow> transaction \<Rightarrow> backend_error + sigbytes" where
  "admit env n tx =
    (case first (signatures tx) of None \<Rightarrow> Inl (Rejected ''missing signature'')
     | Some sig \<Rightarrow>
       if \<not> verify_sigs (vm env) tx then Inl (Rejected ''signature verification failed'')
       else if \<not> is_valid (tip_queue n) (recent_blockhash tx) then Inl (Rejected ''blockhash not found'')
       else case get_transaction (nd_store n) sig of
              Inl e \<Rightarrow> Inl (Internal e)
            | Inr (Some _) \<Rightarrow> Inl (Rejected ''already processed'')
            | Inr None \<Rightarrow> Inr sig)"

definition current_slot :: "node \<Rightarrow> u64" where
  "current_slot n = tip_slot n"

definition latest_blockhash :: "node \<Rightarrow> u64 \<times> h256" where
  "latest_blockhash n = (tip_slot n, tip_blockhash n)"

definition is_blockhash_valid :: "node \<Rightarrow> h256 \<Rightarrow> bool" where
  "is_blockhash_valid n h = is_valid (tip_queue n) h"

definition is_healthy :: "('b, 'f) node_env \<Rightarrow> u64 \<Rightarrow> node \<Rightarrow> bool" where
  "is_healthy env now n =
    (if draining n then False
     else last_block_age_ms n now < max (saturating_mul (opt_heartbeat (options env)) 3) 30000)"

definition submit_transaction ::
  "('b, 'f) node_env \<Rightarrow> node \<Rightarrow> transaction \<Rightarrow> node \<times> (backend_error + sigbytes)" where
  "submit_transaction env n tx =
    (case admit env n tx of Inl e \<Rightarrow> (n, Inl e)
     | Inr sig \<Rightarrow>
       (let (mp, r) = push (nd_mempool n) tx; n' = n\<lparr> nd_mempool := mp \<rparr>
        in case r of
             Inr _ \<Rightarrow> (n', Inr sig)
           | Inl Duplicate \<Rightarrow> (n', Inr sig)
           | Inl Full \<Rightarrow> (n', Inl (Rejected ''mempool full''))
           | Inl PayerLimit \<Rightarrow> (n', Inl (Rejected ''fee payer has too many pending transactions''))
           | Inl Unsigned \<Rightarrow> (n', Inl (Rejected ''missing signature''))))"

definition simulate_transaction ::
  "('b, 'f) node_env \<Rightarrow> u64 \<Rightarrow> node \<Rightarrow> transaction \<Rightarrow> backend_error + simulation_result" where
  "simulate_transaction env now n tx =
    (case execute_block (vm env) (nd_collector n) (nd_store n)
        \<lparr> in_slot = tip_slot n + 1, in_timestamp_ms = now, parent_blockhash = tip_blockhash n,
          in_transactions = [tx], in_queue = tip_queue n \<rparr> of
       Inl e \<Rightarrow> Inl (Internal e)
     | Inr out \<Rightarrow>
       (case included out of
          (_, m) # _ \<Rightarrow> Inr \<lparr> sim_err = status m, sim_logs = log_messages m, units_consumed = compute_units_consumed m \<rparr>
        | [] \<Rightarrow>
          (case dropped out of
             (_, e) # _ \<Rightarrow> Inr \<lparr> sim_err = Some e, sim_logs = [], units_consumed = 0 \<rparr>
           | [] \<Rightarrow> Inl EmptySimulation)))"

definition request_airdrop ::
  "('b, 'f) node_env \<Rightarrow> node \<Rightarrow> pubkey \<Rightarrow> u64 \<Rightarrow> node \<times> (backend_error + sigbytes)" where
  "request_airdrop env n pubkey amount =
    (case opt_faucet (options env) of None \<Rightarrow> (n, Inl FaucetDisabled)
     | Some faucet \<Rightarrow>
       if amount = 0 \<or> opt_faucet_max_lamports (options env) < amount then (n, Inl FaucetLimit)
       else submit_transaction env n (faucet_transfer env faucet pubkey amount (tip_blockhash n)))"

end
