(* ===== verification/Chain.thy ===== *)
theory Chain
  imports Node
begin

text \<open>
  The chain a node builds. \<open>node_reach\<close> has every node that can come about, with requests
  running between the two halves of block production and with restarts at any time;
  \<open>node_serial\<close> has those whose productions run undisturbed. The first is enough for the chain of
  headers; the second is what the index of transactions and the rebuilt withdrawal tree need.
\<close>

section \<open>Reachable nodes\<close>

inductive node_reach :: "('b, 'f) node_env \<Rightarrow> genesis_config \<Rightarrow> node \<Rightarrow> bool" for env g where
  started: "node_new env store_open g now = Inr n \<Longrightarrow> node_reach env g n"
| restarted: "node_reach env g n \<Longrightarrow> node_new env (nd_store n) g now = Inr n' \<Longrightarrow> node_reach env g n'"
| submitted: "node_reach env g n \<Longrightarrow> node_reach env g (fst (submit_transaction env n tx))"
| airdropped: "node_reach env g n \<Longrightarrow> node_reach env g (fst (request_airdrop env n pk amount))"
| enqueued: "node_reach env g n \<Longrightarrow> node_reach env g (enqueue_deposits n ds)"
| drained: "node_reach env g n \<Longrightarrow> node_reach env g (begin_draining n)"
| taken: "node_reach env g n \<Longrightarrow> node_reach env g (fst (take_work env n))"
| finished: "node_reach env g n \<Longrightarrow> finish_block env now n txs ds = Some (n', r) \<Longrightarrow> node_reach env g n'"

text \<open>
  The serial runs: a production takes its work and commits it before the next request.
\<close>

inductive node_serial :: "('b, 'f) node_env \<Rightarrow> genesis_config \<Rightarrow> node \<Rightarrow> bool" for env g where
  serial_started: "node_new env store_open g now = Inr n \<Longrightarrow> node_serial env g n"
| serial_restarted: "node_serial env g n \<Longrightarrow> node_new env (nd_store n) g now = Inr n' \<Longrightarrow> node_serial env g n'"
| serial_submitted: "node_serial env g n \<Longrightarrow> node_serial env g (fst (submit_transaction env n tx))"
| serial_airdropped: "node_serial env g n \<Longrightarrow> node_serial env g (fst (request_airdrop env n pk amount))"
| serial_enqueued: "node_serial env g n \<Longrightarrow> node_serial env g (enqueue_deposits n ds)"
| serial_drained: "node_serial env g n \<Longrightarrow> node_serial env g (begin_draining n)"
| serial_produced: "node_serial env g n \<Longrightarrow> try_produce_block env now n = Some (n', r) \<Longrightarrow> node_serial env g n'"


section \<open>The invariant of the chain\<close>

text \<open>The hash the block after slot \<open>sl\<close> names as its parent: of the genesis for slot 0.\<close>

definition slot_hash :: "('b, 'f) node_env \<Rightarrow> h256 \<Rightarrow> tx_error store \<Rightarrow> u64 \<Rightarrow> h256" where
  "slot_hash env gh s sl =
    (if sl = 0 then gh else header_hash (nd_b3 env) (ser_hdr env) (header (the (get_block s sl))))"

definition sealed_ok :: "('b, 'f) node_env \<Rightarrow> block \<Rightarrow> bool" where
  "sealed_ok env b \<longleftrightarrow> transaction_count (header b) = of_nat (length (transactions b))
    \<and> transactions_root (header b) = compute_transactions_root (nd_b3 env) (ser_tx env) (transactions b)
    \<and> sequencer_signature b = seq_sign env (header_hash (nd_b3 env) (ser_hdr env) (header b))"

definition blocks_ok :: "('b, 'f) node_env \<Rightarrow> h256 \<Rightarrow> tx_error store \<Rightarrow> u64 \<Rightarrow> bool" where
  "blocks_ok env gh s tip \<longleftrightarrow>
    (\<forall>sl. (get_block s sl \<noteq> None) = (0 < sl \<and> sl \<le> tip))
    \<and> (\<forall>sl b. get_block s sl = Some b \<longrightarrow> slot (header b) = sl
        \<and> parent_hash (header b) = slot_hash env gh s (sl - 1) \<and> sealed_ok env b)"

definition tip_ok :: "('b, 'f) node_env \<Rightarrow> h256 \<Rightarrow> node \<Rightarrow> bool" where
  "tip_ok env gh n \<longleftrightarrow> tip_blockhash n = slot_hash env gh (nd_store n) (tip_slot n)
    \<and> meta_genesis_hash (nd_store n) = Some gh \<and> meta_state_root (nd_store n) \<noteq> None
    \<and> (if tip_slot n = 0 then meta_latest_slot (nd_store n) = None
         \<and> tip_queue n = register (the (with_capacity BLOCKHASH_QUEUE_CAPACITY)) 0 gh
       else meta_latest_slot (nd_store n) = Some (tip_slot n)
         \<and> meta_blockhash_queue (nd_store n) = Some (capacity (tip_queue n), entries (tip_queue n))
         \<and> meta_state_root (nd_store n) = Some (state_root (header (the (get_block (nd_store n) (tip_slot n))))))"

definition chain_ok :: "('b, 'f) node_env \<Rightarrow> genesis_config \<Rightarrow> node \<Rightarrow> bool" where
  "chain_ok env g n \<longleftrightarrow> blocks_ok env (genesis_hash (nd_b3 env) g) (nd_store n) (tip_slot n)
    \<and> tip_ok env (genesis_hash (nd_b3 env) g) n \<and> seq_pubkey env = sequencer g
    \<and> nd_collector n = genesis_config.fee_collector g"


section \<open>Lemmas: what the operations leave alone\<close>

definition core :: "node \<Rightarrow> tx_error store \<times> blockhash_queue \<times> u64 \<times> h256 \<times> node_source \<times> pubkey" where
  "core n = (nd_store n, tip_queue n, tip_slot n, tip_blockhash n, withdrawals n, nd_collector n)"

lemma core_submit [simp]: "core (fst (submit_transaction env n tx)) = core n"
  by (auto simp: submit_transaction_def core_def Let_def split: sum.split prod.split mempool_error.split)

lemma core_airdrop [simp]: "core (fst (request_airdrop env n pk amount)) = core n"
  by (simp add: request_airdrop_def split: option.split)

lemma core_others [simp]:
  "core (enqueue_deposits n ds) = core n" "core (begin_draining n) = core n" "core (fst (take_work env n)) = core n"
  by (simp_all add: enqueue_deposits_def begin_draining_def take_work_def core_def case_prod_unfold Let_def)

lemma chain_ok_core: "core n' = core n \<Longrightarrow> chain_ok env g n' = chain_ok env g n"
  by (simp add: core_def chain_ok_def tip_ok_def)

lemma slot_hash_root [simp]: "slot_hash env gh (set_withdrawals_root s r) = slot_hash env gh s"
  by (simp add: slot_hash_def fun_eq_iff get_block_def set_withdrawals_root_def)

lemma chain_ok_root:
  "chain_ok env g (n\<lparr> withdrawals := t, nd_store := set_withdrawals_root (nd_store n) r \<rparr>) = chain_ok env g n"
  by (simp add: chain_ok_def tip_ok_def blocks_ok_def get_block_def) (simp add: set_withdrawals_root_def)


section \<open>Lemmas: commits extend the chain\<close>

lemma make_block_header [simp]:
  "slot (header (make_block env now n root txs)) = tip_slot n + 1"
  "parent_hash (header (make_block env now n root txs)) = tip_blockhash n"
  "state_root (header (make_block env now n root txs)) = root"
  "transactions (make_block env now n root txs) = txs"
  "sealed_ok env (make_block env now n root txs)"
  by (simp_all add: make_block_def seal_def sealed_ok_def)

lemma le_next_slot: "(t :: u64) < t + 1 \<Longrightarrow> x \<le> t + 1 \<longleftrightarrow> x = t + 1 \<or> x \<le> t"
  by (meson inc_le leD le_less less_imp_le not_le order_trans)

lemma pred_slot: "(x :: u64) \<noteq> 0 \<Longrightarrow> x - 1 < x"
  by (simp add: word_less_nat_alt unat_minus_one unat_gt_0)

lemma blocks_ok_extend:
  assumes "blocks_ok env gh s tip" and "blocks s' = RBT.insert (tip + 1) b (blocks s)" and "tip < tip + 1"
    and "slot (header b) = tip + 1" and "parent_hash (header b) = slot_hash env gh s tip" and "sealed_ok env b"
  shows "blocks_ok env gh s' (tip + 1)"
proof -
  have get: "get_block s' sl = (if sl = tip + 1 then Some b else get_block s sl)" for sl
    using assms(2) by (simp add: get_block_def)
  have pos: "0 < tip + 1" using assms(3) by (metis word_gt_0 word_not_simps(1))
  have old: "sl - 1 \<noteq> tip + 1" if "get_block s sl \<noteq> None" for sl
  proof -
    have "0 < sl" "sl \<le> tip" using assms(1) that by (simp_all add: blocks_ok_def)
    then have "sl - 1 \<le> tip" using pred_slot [of sl] by (simp add: word_gt_0)
    then show ?thesis using assms(3) by (metis not_le)
  qed
  have hash: "slot_hash env gh s' sl = slot_hash env gh s sl" if "sl \<noteq> tip + 1" for sl
    using that by (simp add: slot_hash_def get)
  show ?thesis
    using assms(1,4-6) pos assms(3) old hash unfolding blocks_ok_def get le_next_slot [OF assms(3)]
    by auto
qed

text \<open>The block and the store of a commit that succeeds.\<close>

definition content_update :: "('b, 'f) node_env \<Rightarrow> node \<Rightarrow> writes \<Rightarrow> state_update" where
  "content_update env n w =
    prepare_state_update (nd_b3 env) (nd_store n) (leaf_updates (nd_b3 env) (RBT.entries w))"

lemma commit_content_cases:
  assumes "commit_content env now n (w, inc, nulls, leaves) = Inr n'"
  obtains s b q where "b = make_block env now n (new_root (content_update env n w)) (map fst inc)"
    and "q = register (tip_queue n) (tip_slot n + 1) (header_hash (nd_b3 env) (ser_hdr env) (header b))"
    and "commit_block (nd_b3 env) (nd_store n) b (map snd inc) (RBT.entries w) (content_update env n w) q nulls = Inr s"
    and "n' = (insert_leaves (nd_b3 env) leaves (n\<lparr> nd_store := s, tip_queue := q, tip_slot := tip_slot n + 1,
        tip_blockhash := header_hash (nd_b3 env) (ser_hdr env) (header b), last_block_unix_ms := now \<rparr>))
      \<lparr> total_txs := total_txs n + ucast (transaction_count (header b)) \<rparr>"
  using assms by (auto simp: commit_content_def content_update_def Let_def split: sum.splits)

lemma core_total_txs [simp]: "core (n\<lparr> total_txs := t \<rparr>) = core n"
  by (simp add: core_def)

lemma insert_leaves_chain [simp]: "chain_ok env g (insert_leaves b3 leaves n) = chain_ok env g n"
  by (simp add: insert_leaves_def Let_def chain_ok_root)

lemma commit_block_slot:
  "commit_block b3 s b metas ws u q nulls = Inr s' \<Longrightarrow> meta_latest_slot s = Some l \<Longrightarrow> l < slot (header b)"
  by (simp add: commit_block_def Let_def not_le split: if_splits)

lemma commit_content_chain:
  assumes "chain_ok env g n" and "commit_content env now n content = Inr n'"
  shows "chain_ok env g n'"
proof -
  obtain w inc nulls leaves where content: "content = (w, inc, nulls, leaves)" by (cases content)
  obtain s b q where b: "b = make_block env now n (new_root (content_update env n w)) (map fst inc)"
    and commit: "commit_block (nd_b3 env) (nd_store n) b (map snd inc) (RBT.entries w) (content_update env n w) q nulls = Inr s"
    and n': "n' = (insert_leaves (nd_b3 env) leaves (n\<lparr> nd_store := s, tip_queue := q, tip_slot := tip_slot n + 1,
        tip_blockhash := header_hash (nd_b3 env) (ser_hdr env) (header b), last_block_unix_ms := now \<rparr>))
      \<lparr> total_txs := total_txs n + ucast (transaction_count (header b)) \<rparr>"
    using assms(2) unfolding content by (rule commit_content_cases)
  note fields = commit_block_fields [OF commit]
  let ?gh = "genesis_hash (nd_b3 env) g"
  have lt: "tip_slot n < tip_slot n + 1"
  proof (cases "tip_slot n = 0")
    case False
    then have "meta_latest_slot (nd_store n) = Some (tip_slot n)"
      using assms(1) by (simp add: chain_ok_def tip_ok_def)
    then have "tip_slot n < slot (header b)" by (rule commit_block_slot [OF commit])
    then show ?thesis by (simp add: b)
  qed simp
  then have pos: "tip_slot n + 1 \<noteq> 0" by (metis word_not_simps(1))
  have "blocks_ok env ?gh s (tip_slot n + 1)"
    using assms(1) fields(3) lt by (intro blocks_ok_extend [where b = b]) (auto simp: chain_ok_def tip_ok_def b)
  moreover have "get_block s (tip_slot n + 1) = Some b" using fields(3) by (simp add: get_block_def b)
  moreover have "state_root (header b) = new_root (content_update env n w)" by (simp add: b)
  ultimately show ?thesis
    using assms(1) fields(5-8) pos unfolding n' chain_ok_core [OF core_total_txs] insert_leaves_chain
    by (simp add: chain_ok_def tip_ok_def slot_hash_def b)
qed

lemma finish_block_cases:
  assumes "finish_block env now n txs ds = Some (n', r)"
  obtains "n' = n" and "\<nexists>sl. r = Inr (Some sl)"
  | content where "run_block env now n txs ds = Some (Inr content)" and "commit_content env now n content = Inr n'"
      and "r = Inr (Some (tip_slot n + 1))"
  using assms by (auto simp: finish_block_def split: if_splits option.splits sum.splits)

lemma finish_block_chain:
  "chain_ok env g n \<Longrightarrow> finish_block env now n txs ds = Some (n', r) \<Longrightarrow> chain_ok env g n'"
  by (auto elim!: finish_block_cases intro: commit_content_chain)


section \<open>Lemmas: starting and restarting\<close>

definition boot :: "('b, 'f) node_env \<Rightarrow> genesis_config \<Rightarrow> u64 \<Rightarrow> tx_error store \<Rightarrow> blockhash_queue \<Rightarrow> u64 \<Rightarrow> h256 \<Rightarrow> node" where
  "boot env g now s q sl bh = rebuild_withdrawals env \<lparr> nd_collector = genesis_config.fee_collector g,
    nd_store = s, tip_queue = q, tip_slot = sl, tip_blockhash = bh, last_block_unix_ms = now,
    nd_mempool = mempool_new (opt_mempool_capacity (options env)) (opt_max_per_payer (options env)),
    draining = False, total_txs = 0, pending_deposits = [], withdrawals = Map.empty \<rparr>"

lemma node_new_cases:
  assumes "node_new env s g now = Inr n"
  obtains s1 root q sl bh where "seq_pubkey env = sequencer g"
    and "initialize_genesis (nd_b3 env) s g (runtime_accounts env
      @ [genesis_pool_account (pool_service_for env (genesis_config.fee_collector g))]) = Inr (s1, root)"
    and "restore_tip env s1 (genesis_hash (nd_b3 env) g) = Inr (q, sl, bh)" and "n = boot env g now s1 q sl bh"
  using assms by (auto simp: node_new_def boot_def split: if_splits sum.splits)

lemma rebuild_withdrawals_chain [simp]: "chain_ok env g (rebuild_withdrawals env n) = chain_ok env g n"
  by (simp add: rebuild_withdrawals_def Let_def chain_ok_root)

lemma node_new_fresh_chain:
  assumes "node_new env store_open g now = Inr n"
  shows "chain_ok env g n"
  using assms
proof (rule node_new_cases)
  fix s1 root q sl bh
  assume seq: "seq_pubkey env = sequencer g"
    and init: "initialize_genesis (nd_b3 env) store_open g (runtime_accounts env
      @ [genesis_pool_account (pool_service_for env (genesis_config.fee_collector g))]) = Inr (s1, root)"
    and tip: "restore_tip env s1 (genesis_hash (nd_b3 env) g) = Inr (q, sl, bh)" and n: "n = boot env g now s1 q sl bh"
  have s1: "blocks s1 = RBT.empty" "meta_latest_slot s1 = None" "meta_genesis_hash s1 = Some (genesis_hash (nd_b3 env) g)"
    "meta_state_root s1 \<noteq> None"
    using init by (auto simp: initialize_genesis_def store_open_def Let_def)
  then have "sl = 0" "bh = genesis_hash (nd_b3 env) g" "q = register (the (with_capacity BLOCKHASH_QUEUE_CAPACITY)) 0 bh"
    using tip by (auto simp: restore_tip_def)
  then show ?thesis
    unfolding n boot_def rebuild_withdrawals_chain
    by (simp add: chain_ok_def blocks_ok_def tip_ok_def slot_hash_def get_block_def s1 seq word_gt_0)
qed

lemma initialize_genesis_again:
  assumes "meta_genesis_hash s = Some (genesis_hash b3 g)" and "meta_state_root s = Some r"
  shows "initialize_genesis b3 s g extra = Inr (s, r)"
  using assms by (simp add: initialize_genesis_def)

text \<open>What a restart restores: the store decides, and the chain invariant says what it holds.\<close>

lemma restart_eq:
  assumes "chain_ok env g n"
  shows "\<exists>q. node_new env (nd_store n) g now = Inr (boot env g now (nd_store n) q (tip_slot n) (tip_blockhash n))
    \<and> capacity q = capacity (tip_queue n) \<and> entries q = entries (tip_queue n)
    \<and> (tip_slot n = 0 \<longrightarrow> q = tip_queue n)"
proof -
  let ?gh = "genesis_hash (nd_b3 env) g"
  obtain r where r: "meta_state_root (nd_store n) = Some r" using assms by (auto simp: chain_ok_def tip_ok_def)
  have gh: "meta_genesis_hash (nd_store n) = Some ?gh" and seq: "seq_pubkey env = sequencer g"
    using assms by (simp_all add: chain_ok_def tip_ok_def)
  have "\<exists>q. restore_tip env (nd_store n) ?gh = Inr (q, tip_slot n, tip_blockhash n)
    \<and> capacity q = capacity (tip_queue n) \<and> entries q = entries (tip_queue n) \<and> (tip_slot n = 0 \<longrightarrow> q = tip_queue n)"
  proof (cases "tip_slot n = 0")
    case True
    then show ?thesis using assms by (simp add: restore_tip_def chain_ok_def tip_ok_def slot_hash_def)
  next
    case False
    then have "get_block (nd_store n) (tip_slot n) \<noteq> None"
      using assms by (simp add: chain_ok_def blocks_ok_def word_gt_0)
    then show ?thesis
      using False assms by (auto simp: restore_tip_def load_blockhash_queue_def chain_ok_def tip_ok_def slot_hash_def)
  qed
  then show ?thesis
    by (auto simp: node_new_def boot_def seq initialize_genesis_again [OF gh r])
qed

lemma restart_chain:
  assumes "chain_ok env g n" and "node_new env (nd_store n) g now = Inr n'"
  shows "chain_ok env g n'"
proof -
  obtain q where q: "n' = boot env g now (nd_store n) q (tip_slot n) (tip_blockhash n)"
    "capacity q = capacity (tip_queue n)" "entries q = entries (tip_queue n)" "tip_slot n = 0 \<longrightarrow> q = tip_queue n"
    using restart_eq [OF assms(1), of now] assms(2) by auto
  show ?thesis
    unfolding q(1) boot_def rebuild_withdrawals_chain using assms(1) q(2-) by (simp add: chain_ok_def tip_ok_def)
qed

lemma node_reach_chain: "node_reach env g n \<Longrightarrow> chain_ok env g n"
proof (induction rule: node_reach.induct)
  case (finished n now txs ds n' r)
  show ?case by (rule finish_block_chain [OF finished.IH finished.hyps(2)])
next
  case (restarted n now n')
  show ?case by (rule restart_chain [OF restarted.IH restarted.hyps(2)])
qed (simp_all add: node_new_fresh_chain chain_ok_core [OF core_submit] chain_ok_core [OF core_airdrop]
    chain_ok_core [OF core_others(1)] chain_ok_core [OF core_others(2)] chain_ok_core [OF core_others(3)])

lemma node_serial_reach: "node_serial env g n \<Longrightarrow> node_reach env g n"
proof (induction rule: node_serial.induct)
  case (serial_produced n now n' r)
  have "finish_block env now (fst (take_work env n)) (fst (snd (take_work env n))) (snd (snd (take_work env n))) = Some (n', r)"
    using serial_produced.hyps(2) by (simp add: try_produce_block_def case_prod_unfold Let_def)
  with node_reach.taken [OF serial_produced.IH] show ?case by (rule node_reach.finished)
qed (blast intro: node_reach.intros)+

end
