(* ===== verification/Serial_Chain.thy ===== *)
theory Serial_Chain
  imports Chain
begin

text \<open>
  What serial production keeps of the transaction index and of the withdrawal tree: every
  committed transaction is indexed where it is, no signature is committed twice, and the tree
  in memory is the one a restart rebuilds from the blocks.
\<close>

section \<open>Invariant\<close>

definition block_leaves :: "hasher \<Rightarrow> tx_error store \<Rightarrow> u64 \<Rightarrow> (pubkey \<times> h256) list" where
  "block_leaves b3 s sl = (case get_block s sl of None \<Rightarrow> []
    | Some b \<Rightarrow> map (withdraw_leaf b3) (List.filter (withdraw_succeeded s) (fst (partition_withdraws (transactions b)))))"

definition committed_leaves :: "hasher \<Rightarrow> tx_error store \<Rightarrow> (pubkey \<times> h256) list" where
  "committed_leaves b3 s = concat (map (block_leaves b3 s) (RBT.keys (blocks s)))"

definition block_transactions :: "tx_error store \<Rightarrow> u64 \<Rightarrow> transaction list" where
  "block_transactions s sl = (case get_block s sl of None \<Rightarrow> [] | Some b \<Rightarrow> transactions b)"

definition chain_transactions :: "tx_error store \<Rightarrow> transaction list" where
  "chain_transactions s = concat (map (block_transactions s) (RBT.keys (blocks s)))"

definition indexed :: "tx_error store \<Rightarrow> bool" where
  "indexed s \<longleftrightarrow> loc_ok s \<and> slots_ok s \<and> (\<forall>sl b j. get_block s sl = Some b \<and> j < length (transactions b) \<longrightarrow>
    length (transactions b) \<le> 2 ^ 32 \<and>
    tx_loc s (first_sig (transactions b ! j)) = Some \<lparr> loc_slot = sl, loc_index = of_nat j \<rparr>)"

definition pool_fresh :: "node \<Rightarrow> bool" where
  "pool_fresh n \<longleftrightarrow> mempool_inv (nd_mempool n)
    \<and> (\<forall>tx\<in>set (queue (nd_mempool n)). tx_loc (nd_store n) (first_sig tx) = None)"

definition tree_ok :: "('b, 'f) node_env \<Rightarrow> node \<Rightarrow> bool" where
  "tree_ok env n \<longleftrightarrow> withdrawals n = withdraw_tree (nd_b3 env) (committed_leaves (nd_b3 env) (nd_store n))
    \<and> meta_withdrawals_root (nd_store n) = Some (withdraw_root (nd_b3 env) (withdrawals n))"

definition serial_ok :: "('b, 'f) node_env \<Rightarrow> node \<Rightarrow> bool" where
  "serial_ok env n \<longleftrightarrow> indexed (nd_store n) \<and> pool_fresh n \<and> tree_ok env n"

definition accepted_leaves :: "hasher \<Rightarrow> (transaction \<times> tx_error executed_meta) list \<Rightarrow> (pubkey \<times> h256) list" where
  "accepted_leaves b3 inc = map (withdraw_leaf b3)
    (List.map_filter (\<lambda>(tx, m). if is_success m then withdraw_of tx else None) inc)"

text \<open>A chain with one funded account and one withdrawal from it.\<close>

definition chain_genesis :: genesis_config where
  "chain_genesis = sample_genesis\<lparr> allocations := [\<lparr> alloc_pubkey = [1], alloc_lamports = 10000 \<rparr>] \<rparr>"

definition chain_env :: "(unit, u8) node_env" where
  "chain_env = \<lparr> options = node_options_default, vm = sample_svm, pool_template = sample_svc,
    ser_hdr = (\<lambda>h. u64_le (slot h) @ parent_hash h @ state_root h @ transactions_root h), ser_tx = message_rest,
    seq_pubkey = replicate 32 1, seq_sign = (\<lambda>m. m), de_ins = (\<lambda>_. None), runtime_accounts = [],
    faucet_transfer = (\<lambda>f pk l h. sample_tx) \<rparr>"

definition chain_tx :: transaction where
  "chain_tx = sample_withdraw_tx\<lparr> recent_blockhash := genesis_hash pad_hash chain_genesis \<rparr>"

definition chain_withdraw :: withdraw_tx where
  "chain_withdraw = sample_withdraw\<lparr> w_transaction := chain_tx \<rparr>"


section \<open>Lemmas: what a block includes\<close>

lemma map_filter_append: "List.map_filter f (xs @ ys) = List.map_filter f xs @ List.map_filter f ys"
  by (induction xs) (simp_all add: List.map_filter_simps split: option.split)

lemma map_filter_none: "(\<And>x. x \<in> set xs \<Longrightarrow> f x = None) \<Longrightarrow> List.map_filter f xs = []"
  by (induction xs) (simp_all add: List.map_filter_simps)

lemma set_map_filter: "set (List.map_filter f xs) = {y. \<exists>x\<in>set xs. f x = Some y}"
  by (induction xs) (auto simp: List.map_filter_simps split: option.splits)

lemma pool_stage_transactions:
  assumes "pool_stage svc s pts w = Some (Inr (w', inc, nulls))"
  shows "map fst inc = map pt_transaction pts"
proof (cases "pts = []")
  case False
  then obtain res where res: "process_block_seeded svc s (map (\<lambda>pt. (pt_fee_payer pt, pt_instruction pt)) pts)
      (pool_seed w) = Some (Inr res)" and inc: "inc = map (pool_included w') (zip pts (statuses res))"
    using assms by (auto simp: pool_stage_def Let_def split: option.splits sum.splits)
  then have "length (statuses res) = length pts"
    using False by (auto elim!: process_block_cases dest: apply_txs_length)
  then show ?thesis unfolding inc by (intro nth_equalityI) (simp_all add: pool_included_def case_prod_unfold)
qed (use assms in \<open>auto simp: pool_stage_def\<close>)

lemma accepted_withdraws_map_filter:
  assumes "map fst inc = map w_transaction wts" and "\<forall>w\<in>set wts. withdraw_of (w_transaction w) = Some w"
  shows "List.map_filter (\<lambda>(tx, m). if is_success m then withdraw_of tx else None) inc = accepted_withdraws wts inc"
  using assms
proof (induction wts arbitrary: inc)
  case (Cons w wts)
  then show ?case by (cases inc) (auto simp: List.map_filter_simps accepted_withdraws_def)
qed (simp add: accepted_withdraws_def List.map_filter_simps)

lemma withdraw_of_None: "withdraw_of tx = None \<longleftrightarrow> parse_withdraw tx = None"
  by (simp add: withdraw_of_def)

lemma map_filter_withdraw_of:
  "map w_transaction (List.map_filter withdraw_of txs) = List.filter (\<lambda>tx. parse_withdraw tx \<noteq> None) txs"
proof (induction txs)
  case (Cons tx txs)
  then show ?case
    by (cases "withdraw_of tx") (simp_all add: List.map_filter_simps withdraw_of_None withdraw_of_transaction
        flip: withdraw_of_None)
qed (simp add: List.map_filter_simps)

text \<open>The included transactions and the leaves of a block, by the batch it was made from.\<close>

lemma run_block_content:
  assumes "run_block env now n txs ds = Some (Inr (w, inc, nulls, leaves))"
    and "distinct (map first_sig txs)"
  shows "fst ` set inc \<subseteq> set txs" and "distinct (map (first_sig \<circ> fst) inc)"
    and "leaves = accepted_leaves (nd_b3 env) inc"
proof -
  let ?wts = "List.map_filter withdraw_of txs" and ?rest = "List.filter (\<lambda>tx. parse_withdraw tx = None) txs"
  let ?regular = "List.filter (\<lambda>tx. try_parse_pool_tx (de_ins env) tx = None) ?rest"
  let ?pool = "fst (pool_partition (de_ins env) ?rest)"
  obtain out w1 pinc w2 c winc where
    ex: "execute_block (vm env) (nd_collector n) (nd_store n)
      \<lparr> in_slot = tip_slot n + 1, in_timestamp_ms = now, parent_blockhash = tip_blockhash n,
        in_transactions = ?regular, in_queue = tip_queue n \<rparr> = Inr out"
    and ps: "pool_stage (pool_service_for env (nd_collector n)) (nd_store n) ?pool
      (fold (\<lambda>(k, a). RBT.insert k a) (out_writes out) RBT.empty) = Some (Inr (w1, pinc, nulls))"
    and wd: "apply_withdraws (bridge_of env n) (nd_store n) ?wts w2 = Some (w, winc, leaves)"
    and inc: "inc = included out @ pinc @ winc"
    using assms(1)
    by (auto simp: run_block_def partition_withdraws_eq pool_partition_rest(1) case_prod_unfold Let_def
        bind_eq_Some_conv split: sum.splits option.splits)
  have p: "map fst pinc = List.filter (\<lambda>tx. try_parse_pool_tx (de_ins env) tx \<noteq> None) ?rest"
    using pool_stage_transactions [OF ps] pool_partition_rest(2) by simp
  have wts: "\<forall>w\<in>set ?wts. withdraw_of (w_transaction w) = Some w"
    by (auto simp: set_map_filter dest: withdraw_of_transaction)
  note wl = apply_withdraws_leaves [OF wd]
  have wtx: "map fst winc = List.filter (\<lambda>tx. parse_withdraw tx \<noteq> None) txs"
    using wl map_filter_withdraw_of by simp
  have reg: "fst ` set (included out) \<subseteq> {tx \<in> set txs. parse_withdraw tx = None
      \<and> try_parse_pool_tx (de_ins env) tx = None}"
    using execute_block_included(2) [OF ex] by auto
  have parts: "fst ` set pinc = {tx \<in> set txs. parse_withdraw tx = None \<and> try_parse_pool_tx (de_ins env) tx \<noteq> None}"
    "fst ` set winc = {tx \<in> set txs. parse_withdraw tx \<noteq> None}"
    using arg_cong [OF p, of set] arg_cong [OF wtx, of set] by auto
  show "fst ` set inc \<subseteq> set txs" unfolding inc using reg by (auto simp: parts image_Un)
  have inj: "inj_on first_sig (set txs)" using assms(2) by (simp add: distinct_map)
  have "distinct (map first_sig (map fst (included out)))"
    using execute_block_included(1) [OF ex] by (simp add: first_sig_def comp_def)
  moreover have "distinct (map first_sig (map fst pinc))" "distinct (map first_sig (map fst winc))"
    unfolding p wtx using assms(2) by (simp_all add: distinct_map_filter)
  moreover have "first_sig ` (fst ` set (included out)) \<inter> first_sig ` (fst ` set pinc \<union> fst ` set winc) = {}"
    "first_sig ` (fst ` set pinc) \<inter> first_sig ` (fst ` set winc) = {}"
    unfolding parts using reg
    by (subst inj_on_image_Int [OF inj, symmetric]; auto)+
  ultimately show "distinct (map (first_sig \<circ> fst) inc)"
    unfolding inc by (simp add: image_Un image_image)
  have "List.map_filter (\<lambda>(tx, m). if is_success m then withdraw_of tx else None) (included out @ pinc) = []"
  proof (rule map_filter_none)
    fix x assume "x \<in> set (included out @ pinc)"
    then have "fst x \<in> fst ` set (included out) \<union> fst ` set pinc" by auto
    then have "parse_withdraw (fst x) = None" using reg parts(1) by blast
    then show "(case x of (tx, m) \<Rightarrow> if is_success m then withdraw_of tx else None) = None"
      by (simp add: case_prod_unfold withdraw_of_None)
  qed
  then show "leaves = accepted_leaves (nd_b3 env) inc"
    using wl accepted_withdraws_map_filter [OF _ wts]
    by (simp add: inc accepted_leaves_def map_filter_append bridge_of_def)
qed


section \<open>Lemmas: commits extend the index and the leaves\<close>

lemma keys_insert_last:
  assumes "\<forall>k\<in>set (RBT.keys t). k < x"
  shows "RBT.keys (RBT.insert x v t) = RBT.keys t @ [x]"
proof (rule sorted_distinct_set_unique)
  show "sorted (RBT.keys t @ [x])"
    using assms RBT.sorted_keys [of t] by (auto simp: sorted_append less_imp_le)
  show "distinct (RBT.keys t @ [x])" using assms RBT.distinct_keys [of t] by auto
  show "set (RBT.keys (RBT.insert x v t)) = set (RBT.keys t @ [x])"
    by (simp flip: RBT.lookup_keys)
qed (simp_all add: RBT.sorted_keys RBT.distinct_keys)

lemma indexed_known:
  assumes "indexed s" and "get_block s sl = Some b" and "tx \<in> set (transactions b)"
  shows "tx_loc s (first_sig tx) \<noteq> None"
  using assms by (fastforce simp: indexed_def in_set_conv_nth)

lemma commit_indexed:
  assumes "commit_block b3 s b metas ws u q nulls = Inr s'" and "indexed s"
    and "distinct (map first_sig (transactions b))" and "length (transactions b) \<le> 2 ^ 32"
    and "\<forall>tx\<in>set (transactions b). tx_loc s (first_sig tx) = None"
  shows "indexed s'"
proof -
  have d: "distinct (map (\<lambda>tx. hd (signatures tx)) (transactions b))"
    using assms(3) by (simp add: first_sig_def [abs_def])
  have get: "get_block s' sl = (if sl = slot (header b) then Some b else get_block s sl)" for sl
    using commit_block_fields(3) [OF assms(1)] by (simp add: get_block_def)
  have old: "tx_loc s' sig = tx_loc s sig" if "tx_loc s sig \<noteq> None" for sig
  proof -
    have "sig \<notin> (\<lambda>tx. hd (signatures tx)) ` set (transactions b)"
      using assms(5) that by (auto simp: first_sig_def)
    then show ?thesis using commit_block_rows(2) [OF assms(1) d] by blast
  qed
  have ok: "loc_ok s" "slots_ok s" using assms(2) by (simp_all add: indexed_def)
  have "length (transactions b') \<le> 2 ^ 32 \<and>
      tx_loc s' (first_sig (transactions b' ! j)) = Some \<lparr> loc_slot = sl, loc_index = of_nat j \<rparr>"
    if "get_block s' sl = Some b'" "j < length (transactions b')" for sl b' j
  proof (cases "sl = slot (header b)")
    case True
    then show ?thesis using that commit_block_rows(1) [OF assms(1) d] assms(4) by (simp add: get first_sig_def)
  next
    case False
    then have "length (transactions b') \<le> 2 ^ 32
        \<and> tx_loc s (first_sig (transactions b' ! j)) = Some \<lparr> loc_slot = sl, loc_index = of_nat j \<rparr>"
      using that assms(2) by (simp add: get indexed_def)
    then show ?thesis using old by (metis option.distinct(1))
  qed
  then show ?thesis
    using commit_loc_ok [OF ok assms(4,1)] unfolding indexed_def by blast
qed

lemma withdraws_of_block:
  assumes "w \<in> set (fst (partition_withdraws txs))"
  shows "w_transaction w \<in> set txs"
  using assms by (auto simp: partition_withdraws_eq set_map_filter dest: withdraw_of_transaction)

lemma filter_succeeded:
  assumes "\<forall>(tx, m)\<in>set inc. signatures tx \<noteq> [] \<and> (\<exists>loc. get_transaction s (first_sig tx) = Inr (Some (loc, tx, m)))"
  shows "List.filter (withdraw_succeeded s) (fst (partition_withdraws (map fst inc)))
    = List.map_filter (\<lambda>(tx, m). if is_success m then withdraw_of tx else None) inc"
  using assms
proof (induction inc)
  case (Cons x inc)
  obtain tx m where x: "x = (tx, m)" by (cases x)
  obtain loc where tx: "signatures tx \<noteq> []" "get_transaction s (first_sig tx) = Inr (Some (loc, tx, m))"
    using Cons.prems by (auto simp: x)
  have "withdraw_succeeded s w = is_success m" if "withdraw_of tx = Some w" for w
    using tx withdraw_of_transaction [OF that]
    by (cases "signatures tx") (simp_all add: withdraw_succeeded_def first_def first_sig_def)
  then show ?case
    using Cons by (auto simp: x partition_withdraws_eq List.map_filter_simps split: option.splits)
qed (simp add: List.map_filter_simps)

lemma commit_leaves:
  assumes "commit_block b3 s b metas ws u q nulls = Inr s'" and "indexed s"
    and "distinct (map first_sig (transactions b))" and "length (transactions b) \<le> 2 ^ 32"
    and "\<forall>tx\<in>set (transactions b). tx_loc s (first_sig tx) = None" and "\<forall>tx\<in>set (transactions b). signatures tx \<noteq> []"
  shows "committed_leaves h s' = committed_leaves h s @ accepted_leaves h (zip (transactions b) metas)"
proof -
  have d: "distinct (map (\<lambda>tx. hd (signatures tx)) (transactions b))"
    using assms(3) by (simp add: first_sig_def [abs_def])
  have ok: "loc_ok s" "slots_ok s" using assms(2) by (simp_all add: indexed_def)
  have len: "length metas = length (transactions b)" using assms(1) by (rule commit_block_Inr)
  have get: "get_block s' sl = (if sl = slot (header b) then Some b else get_block s sl)" for sl
    using commit_block_fields(3) [OF assms(1)] by (simp add: get_block_def)
  have lt: "\<forall>k\<in>set (RBT.keys (blocks s)). k < slot (header b)"
    using ok(2) commit_block_slot [OF assms(1)] by (fastforce simp: slots_ok_def simp flip: RBT.lookup_keys)
  have kept: "get_transaction s' sig = get_transaction s sig" if "tx_loc s sig \<noteq> None" for sig
  proof -
    have "sig \<notin> (\<lambda>tx. hd (signatures tx)) ` set (transactions b)"
      using assms(5) that by (auto simp: first_sig_def)
    then show ?thesis by (rule commit_block_kept [OF assms(1) d ok])
  qed
  have "withdraw_succeeded s' w = withdraw_succeeded s w"
    if "get_block s sl = Some b'" "w \<in> set (fst (partition_withdraws (transactions b')))" for sl b' w
    using kept [OF indexed_known [OF assms(2) that(1) withdraws_of_block [OF that(2)]]]
    by (cases "signatures (w_transaction w)") (simp_all add: withdraw_succeeded_def first_def first_sig_def)
  then have "block_leaves h s' k = block_leaves h s k" if "k \<in> set (RBT.keys (blocks s))" for k
    using lt that by (auto simp: block_leaves_def get cong: filter_cong split: option.splits)
  moreover have "\<forall>(tx, m)\<in>set (zip (transactions b) metas). signatures tx \<noteq> []
      \<and> (\<exists>loc. get_transaction s' (first_sig tx) = Inr (Some (loc, tx, m)))"
    using assms(6) commit_block_found [OF assms(1,4) d] len
    by (fastforce simp: set_zip first_sig_def)
  then have "block_leaves h s' (slot (header b)) = accepted_leaves h (zip (transactions b) metas)"
    using filter_succeeded [of "zip (transactions b) metas" s'] len
    by (simp add: block_leaves_def get accepted_leaves_def)
  ultimately show ?thesis
    unfolding committed_leaves_def commit_block_fields(3) [OF assms(1)] keys_insert_last [OF lt]
    by (simp cong: map_cong)
qed


section \<open>Lemmas: the rebuilt tree\<close>

lemma rebuild_block_leaves:
  "rebuild_block b3 s sl t = fold (\<lambda>(pk, ah) t. withdraw_apply b3 t pk ah) (block_leaves b3 s sl) t"
proof -
  have "fold (\<lambda>w t. if withdraw_succeeded s w
        then withdraw_apply b3 t (withdrawal_pubkey b3 (w_recipient w) (w_nonce w))
          (withdrawal_account_hash b3 (w_recipient w) (w_asset_id w) (w_amount w) (w_nonce w))
        else t) ws t
      = fold (\<lambda>(pk, ah) t. withdraw_apply b3 t pk ah) (map (withdraw_leaf b3) (List.filter (withdraw_succeeded s) ws)) t" for ws
    by (induction ws arbitrary: t) (simp_all add: withdraw_leaf_def)
  then show ?thesis by (simp add: rebuild_block_def block_leaves_def split: option.split)
qed

lemma rebuild_blocks_leaves:
  "fold (rebuild_block b3 s) sls t = fold (\<lambda>(pk, ah) t. withdraw_apply b3 t pk ah) (concat (map (block_leaves b3 s) sls)) t"
  by (induction sls arbitrary: t) (simp_all add: rebuild_block_leaves)

text \<open>The limit of the rebuild is never reached: there are fewer slots than that.\<close>

lemma slots_below_limit:
  assumes "distinct xs" and "(0 :: u64) \<notin> set xs"
  shows "length xs \<le> USIZE_MAX"
proof -
  have "length xs = card (set xs)" using assms(1) by (simp add: distinct_card)
  also have "\<dots> \<le> card (UNIV - {0 :: u64})" using assms(2) by (intro card_mono) auto
  finally show ?thesis by (simp add: card_Diff_singleton USIZE_MAX_def card_word)
qed

lemma rebuild_tree_committed:
  assumes "chain_ok env g n"
  shows "rebuild_tree b3 (nd_store n) Map.empty = withdraw_tree b3 (committed_leaves b3 (nd_store n))"
proof -
  let ?s = "nd_store n"
  have keys: "k \<in> set (RBT.keys (blocks ?s)) \<longleftrightarrow> 0 < k \<and> k \<le> tip_slot n" for k
    using assms by (auto simp: chain_ok_def blocks_ok_def get_block_def dom_def simp flip: RBT.lookup_keys)
  show ?thesis
  proof (cases "tip_slot n = 0")
    case True
    then have "meta_latest_slot ?s = None" using assms by (simp add: chain_ok_def tip_ok_def)
    moreover have "RBT.keys (blocks ?s) = []" using keys True by (cases "RBT.keys (blocks ?s)") (auto simp: word_gt_0)
    ultimately show ?thesis by (simp add: rebuild_tree_def committed_leaves_def withdraw_tree_def)
  next
    case False
    then have latest: "meta_latest_slot ?s = Some (tip_slot n)" using assms by (simp add: chain_ok_def tip_ok_def)
    have "length (RBT.keys (blocks ?s)) \<le> USIZE_MAX"
      using keys by (intro slots_below_limit) (auto simp: RBT.distinct_keys)
    moreover have "List.filter (\<lambda>k. 1 \<le> k \<and> k \<le> tip_slot n) (RBT.keys (blocks ?s)) = RBT.keys (blocks ?s)"
      using keys by (intro filter_True) (auto simp: word_gt_0 word_less_1 simp flip: not_less)
    ultimately have "block_slots_in_range ?s 1 (tip_slot n) USIZE_MAX = RBT.keys (blocks ?s)"
      by (simp add: block_slots_in_range_def push_until_take RBT.keys_def_alt flip: RBT.keys_def_alt)
    then show ?thesis
      using False by (simp add: rebuild_tree_def latest rebuild_blocks_leaves committed_leaves_def withdraw_tree_def word_gt_0)
  qed
qed


section \<open>Lemmas: the invariant of serial runs\<close>

lemma set_root_simps [simp]:
  "get_block (set_withdrawals_root s r) = get_block s" "blocks (set_withdrawals_root s r) = blocks s"
  "tx_loc (set_withdrawals_root s r) = tx_loc s" "get_transaction (set_withdrawals_root s r) = get_transaction s"
  "meta_withdrawals_root (set_withdrawals_root s r) = Some r"
  by (simp_all add: set_withdrawals_root_def get_block_def fun_eq_iff get_transaction_def split: option.split)

lemma set_root_succeeded [simp]: "withdraw_succeeded (set_withdrawals_root s r) = withdraw_succeeded s"
  unfolding fun_eq_iff withdraw_succeeded_def set_root_simps by simp

lemma set_root_indexed [simp]: "indexed (set_withdrawals_root s r) = indexed s"
  by (simp add: indexed_def loc_ok_def slots_ok_def) (simp add: set_withdrawals_root_def)

lemma set_root_leaves [simp]: "committed_leaves b3 (set_withdrawals_root s r) = committed_leaves b3 s"
  unfolding committed_leaves_def block_leaves_def [abs_def] set_root_simps set_root_succeeded ..

lemma commit_withdrawals_root:
  assumes "commit_block b3 s b metas ws u q nulls = Inr s'"
  shows "meta_withdrawals_root s' = meta_withdrawals_root s"
  using assms by (rule commit_block_Inr) (auto dest: index_transactions_other(6))

lemma commit_content_serial:
  assumes "commit_content env now n (w, inc, nulls, accepted_leaves (nd_b3 env) inc) = Inr n'"
    and "indexed (nd_store n)" and "tree_ok env n"
    and "distinct (map (first_sig \<circ> fst) inc)" and "length inc \<le> 2 ^ 32"
    and "\<forall>tx\<in>fst ` set inc. tx_loc (nd_store n) (first_sig tx) = None \<and> signatures tx \<noteq> []"
  shows "indexed (nd_store n') \<and> tree_ok env n' \<and> nd_mempool n' = nd_mempool n
    \<and> (\<forall>sig. sig \<notin> first_sig ` fst ` set inc \<longrightarrow> tx_loc (nd_store n') sig = tx_loc (nd_store n) sig)"
proof -
  obtain s b q where b: "b = make_block env now n (new_root (content_update env n w)) (map fst inc)"
    and commit: "commit_block (nd_b3 env) (nd_store n) b (map snd inc) (RBT.entries w) (content_update env n w) q nulls = Inr s"
    and n': "n' = (insert_leaves (nd_b3 env) (accepted_leaves (nd_b3 env) inc)
        (n\<lparr> nd_store := s, tip_queue := q, tip_slot := tip_slot n + 1,
          tip_blockhash := header_hash (nd_b3 env) (ser_hdr env) (header b), last_block_unix_ms := now \<rparr>))
      \<lparr> total_txs := total_txs n + ucast (transaction_count (header b)) \<rparr>"
    using assms(1) by (rule commit_content_cases)
  have txs: "transactions b = map fst inc" by (simp add: b)
  have pre: "distinct (map first_sig (transactions b))" "length (transactions b) \<le> 2 ^ 32"
    "\<forall>tx\<in>set (transactions b). tx_loc (nd_store n) (first_sig tx) = None" "\<forall>tx\<in>set (transactions b). signatures tx \<noteq> []"
    using assms(4-6) by (simp_all add: txs)
  have "indexed s" by (rule commit_indexed [OF commit assms(2) pre(1-3)])
  moreover have "committed_leaves h s = committed_leaves h (nd_store n) @ accepted_leaves h inc" for h
    using commit_leaves [OF commit assms(2) pre] by (simp add: txs zip_map_fst_snd)
  moreover have "tx_loc s sig = tx_loc (nd_store n) sig" if "sig \<notin> first_sig ` fst ` set inc" for sig
    using commit_block_rows(2) [OF commit, of sig] pre(1) that by (simp add: txs first_sig_def [abs_def])
  ultimately show ?thesis
    using assms(3) commit_withdrawals_root [OF commit]
    by (auto simp: n' insert_leaves_def tree_ok_def withdraw_tree_def Let_def)
qed

lemma get_transaction_None: "get_transaction s sig = Inr None \<longleftrightarrow> tx_loc s sig = None"
  by (simp add: get_transaction_def split: option.split)

lemma submit_pool_fresh:
  assumes "pool_fresh n"
  shows "pool_fresh (fst (submit_transaction env n tx))"
proof (cases "admit env n tx")
  case (Inr sig)
  then have sig: "first (signatures tx) = Some sig" "tx_loc (nd_store n) sig = None"
    by (auto simp: admit_def get_transaction_None split: option.splits if_splits sum.splits)
  have fst: "fst (submit_transaction env n tx) = n\<lparr> nd_mempool := fst (push (nd_mempool n) tx) \<rparr>"
    by (auto simp: submit_transaction_def Inr case_prod_unfold Let_def split: sum.splits mempool_error.splits)
  show ?thesis
    using assms sig first_sig_eq [OF sig(1)]
    by (auto simp: fst pool_fresh_def push_preserves_inv push_queue split: sum.splits)
qed (simp add: submit_transaction_def assms)

lemma serial_ok_core:
  "core n' = core n \<Longrightarrow> pool_fresh n' \<Longrightarrow> serial_ok env n \<Longrightarrow> serial_ok env n'"
  by (simp add: core_def serial_ok_def tree_ok_def)

lemma pool_fresh_others:
  assumes "pool_fresh n"
  shows "pool_fresh (enqueue_deposits n ds)" "pool_fresh (begin_draining n)"
    "pool_fresh (fst (request_airdrop env n pk amount))"
  using assms submit_pool_fresh [OF assms]
  by (auto simp: enqueue_deposits_def begin_draining_def request_airdrop_def pool_fresh_def split: option.splits)

lemma take_work_pool:
  assumes "pool_fresh n" and "take_work env n = (n1, txs, ds)"
  shows "pool_fresh n1" and "distinct (map first_sig txs)" and "length txs \<le> opt_max_block_transactions (options env)"
    and "\<forall>tx\<in>set txs. tx_loc (nd_store n) (first_sig tx) = None \<and> signatures tx \<noteq> []"
    and "first_sig ` set txs \<inter> first_sig ` set (queue (nd_mempool n1)) = {}"
proof -
  let ?k = "opt_max_block_transactions (options env)"
  have txs: "txs = take ?k (queue (nd_mempool n))" and n1: "n1 = n\<lparr> nd_mempool := fst (drain (nd_mempool n) ?k), pending_deposits := [] \<rparr>"
    using assms(2) by (auto simp: take_work_def case_prod_unfold Let_def drain_result)
  have split: "queue (nd_mempool n) = txs @ queue (nd_mempool n1)" by (simp add: txs n1 drain_result)
  have inv: "mempool_inv (nd_mempool n)" using assms(1) by (simp add: pool_fresh_def)
  then have d: "distinct (map first_sig (txs @ queue (nd_mempool n1)))" "\<forall>tx\<in>set txs. admissible tx"
    unfolding split [symmetric] by (auto simp: mempool_inv_def tracks_def txs dest: in_set_takeD)
  show "distinct (map first_sig txs)" and "first_sig ` set txs \<inter> first_sig ` set (queue (nd_mempool n1)) = {}"
    using d(1) by simp_all
  have fresh: "\<forall>tx\<in>set txs \<union> set (queue (nd_mempool n1)). tx_loc (nd_store n) (first_sig tx) = None"
    using assms(1) unfolding pool_fresh_def split by simp
  show "length txs \<le> ?k" by (simp add: txs)
  show "\<forall>tx\<in>set txs. tx_loc (nd_store n) (first_sig tx) = None \<and> signatures tx \<noteq> []"
    using fresh d(2) by (simp add: admissible_def)
  show "pool_fresh n1"
    using fresh drain_preserves_inv [OF inv] by (simp add: pool_fresh_def n1)
qed

lemma length_by_sigs:
  assumes "fst ` set inc \<subseteq> set txs" and "distinct (map (first_sig \<circ> fst) inc)"
  shows "length inc \<le> length txs"
proof -
  have "length inc = card ((first_sig \<circ> fst) ` set inc)"
    using assms(2) by (metis distinct_card length_map set_map)
  also have "\<dots> \<le> card (first_sig ` set txs)"
    using assms(1) by (intro card_mono) (auto simp: image_comp [symmetric])
  also have "\<dots> \<le> length txs" by (meson card_image_le card_length finite_set le_trans)
  finally show ?thesis .
qed

lemma produce_serial:
  assumes "serial_ok env n" and "opt_max_block_transactions (options env) \<le> 2 ^ 32"
    and "try_produce_block env now n = Some (n', r)"
  shows "serial_ok env n'"
proof -
  obtain n1 txs ds where take: "take_work env n = (n1, txs, ds)" by (cases "take_work env n")
  have core: "core n1 = core n" using core_others(3) [of env n] by (simp add: take)
  have fresh: "pool_fresh n" using assms(1) by (simp add: serial_ok_def)
  note pool = take_work_pool [OF fresh take]
  have n1: "serial_ok env n1" "nd_store n1 = nd_store n"
    using serial_ok_core [OF core pool(1) assms(1)] core by (simp_all add: core_def)
  have "finish_block env now n1 txs ds = Some (n', r)" using assms(3) by (simp add: try_produce_block_def take)
  then show ?thesis
  proof (cases rule: finish_block_cases)
    case (2 content)
    obtain w inc nulls leaves where content: "content = (w, inc, nulls, leaves)" by (cases content)
    note run = run_block_content [OF 2(1) [unfolded content] pool(2)]
    have len: "length inc \<le> 2 ^ 32" using length_by_sigs [OF run(1,2)] pool(3) assms(2) by simp
    have old: "\<forall>tx\<in>fst ` set inc. tx_loc (nd_store n1) (first_sig tx) = None \<and> signatures tx \<noteq> []"
      using run(1) pool(4) n1(2) by auto
    have "indexed (nd_store n') \<and> tree_ok env n' \<and> nd_mempool n' = nd_mempool n1
      \<and> (\<forall>sig. sig \<notin> first_sig ` fst ` set inc \<longrightarrow> tx_loc (nd_store n') sig = tx_loc (nd_store n1) sig)"
      using commit_content_serial [OF 2(2) [unfolded content run(3)] _ _ run(2) len old] n1(1) by (simp add: serial_ok_def)
    moreover have "first_sig tx \<notin> first_sig ` fst ` set inc" if "tx \<in> set (queue (nd_mempool n1))" for tx
      using pool(5) run(1) that by blast
    ultimately show ?thesis using n1(1) by (simp add: serial_ok_def pool_fresh_def)
  qed (use n1 in simp)
qed

lemma mempool_new_inv: "mempool_inv (mempool_new c p)"
  by (simp add: mempool_inv_def mempool_new_def tracks_def payer_count_def)

lemma boot_serial:
  assumes "chain_ok env g n" and "indexed (nd_store n)"
  shows "serial_ok env (boot env g now (nd_store n) q sl bh)"
  using assms(2) rebuild_tree_committed [OF assms(1), of "nd_b3 env"]
  by (simp add: boot_def rebuild_withdrawals_def Let_def serial_ok_def pool_fresh_def tree_ok_def mempool_new_inv)
    (simp add: mempool_new_def)

lemma start_serial:
  assumes "node_new env store_open g now = Inr n"
  shows "serial_ok env n"
  using assms
proof (rule node_new_cases)
  fix s1 root q sl bh
  assume init: "initialize_genesis (nd_b3 env) store_open g (runtime_accounts env
      @ [genesis_pool_account (pool_service_for env (genesis_config.fee_collector g))]) = Inr (s1, root)"
    and n: "n = boot env g now s1 q sl bh"
  have "blocks s1 = RBT.empty" "tx_loc s1 = Map.empty"
    using initialize_genesis_other(1,3) [OF init] by (simp_all add: store_open_def)
  then have idx: "indexed s1" by (simp add: indexed_def loc_ok_def slots_ok_def get_block_def)
  let ?m = "\<lparr> nd_collector = genesis_config.fee_collector g, nd_store = s1, tip_queue = q, tip_slot = sl,
    tip_blockhash = bh, last_block_unix_ms = now,
    nd_mempool = mempool_new (opt_mempool_capacity (options env)) (opt_max_per_payer (options env)),
    draining = False, total_txs = 0, pending_deposits = [], withdrawals = Map.empty \<rparr>"
  have "chain_ok env g ?m" using node_new_fresh_chain [OF assms] unfolding n boot_def rebuild_withdrawals_chain .
  from boot_serial [OF this, of now q sl bh] idx show ?thesis by (simp add: n)
qed

lemma serial_step:
  assumes "core n' = core n" and "pool_fresh n \<Longrightarrow> pool_fresh n'" and "chain_ok env g n \<and> serial_ok env n"
  shows "chain_ok env g n' \<and> serial_ok env n'"
  using assms(2,3) chain_ok_core [OF assms(1), of env g] serial_ok_core [OF assms(1), of env] by (simp add: serial_ok_def)

lemma node_serial_ok:
  assumes "node_serial env g n" and "opt_max_block_transactions (options env) \<le> 2 ^ 32"
  shows "chain_ok env g n \<and> serial_ok env n"
  using assms(1)
proof (induction rule: node_serial.induct)
  case (serial_started now n)
  then show ?case by (simp add: start_serial node_new_fresh_chain)
next
  case (serial_restarted n now n')
  then have "chain_ok env g n'" by (blast intro: restart_chain)
  moreover obtain q where "n' = boot env g now (nd_store n) q (tip_slot n) (tip_blockhash n)"
    using restart_eq [of env g n now] serial_restarted by auto
  ultimately show ?case using serial_restarted.IH boot_serial [of env g n] by (simp add: serial_ok_def)
next
  case (serial_produced n now n' r)
  then show ?case
    using produce_serial [OF _ assms(2)] node_reach_chain [OF node_serial_reach [OF node_serial.serial_produced]] by blast
next
  case (serial_submitted n tx)
  show ?case by (rule serial_step [OF core_submit submit_pool_fresh serial_submitted.IH])
next
  case (serial_airdropped n pk amount)
  show ?case by (rule serial_step [OF core_airdrop pool_fresh_others(3) serial_airdropped.IH])
next
  case (serial_enqueued n ds)
  show ?case by (rule serial_step [OF core_others(1) pool_fresh_others(1) serial_enqueued.IH])
next
  case (serial_drained n)
  show ?case by (rule serial_step [OF core_others(2) pool_fresh_others(2) serial_drained.IH])
qed


section \<open>Lemmas: places in the chain\<close>

lemma distinct_concat_map:
  assumes "distinct ks" and "\<And>k. distinct (f k)" and "\<And>k k'. k \<noteq> k' \<Longrightarrow> set (f k) \<inter> set (f k') = {}"
  shows "distinct (concat (map f ks))"
  using assms(1)
proof (induction ks)
  case (Cons k ks)
  have "\<forall>k'\<in>set ks. set (f k) \<inter> set (f k') = {}" using Cons.prems assms(3) by (metis distinct.simps(2))
  then show ?case using Cons assms(2) by auto
qed simp

lemma indexed_same_place:
  assumes "indexed s" and "i < length (block_transactions s sl)" and "j < length (block_transactions s sl')"
    and "first_sig (block_transactions s sl ! i) = first_sig (block_transactions s sl' ! j)"
  shows "sl = sl' \<and> i = j"
proof -
  have place: "length (block_transactions s k) \<le> 2 ^ 32
      \<and> tx_loc s (first_sig (block_transactions s k ! m)) = Some \<lparr> loc_slot = k, loc_index = of_nat m \<rparr>"
    if "m < length (block_transactions s k)" for k m
    using assms(1) that by (auto simp: indexed_def block_transactions_def split: option.splits)
  have "unat (of_nat i :: u32) = i" "unat (of_nat j :: u32) = j"
    using assms(2,3) place [OF assms(2)] place [OF assms(3)] by (intro unat_of_nat_lt; simp)+
  moreover have "Some \<lparr> loc_slot = sl, loc_index = of_nat i \<rparr> = Some \<lparr> loc_slot = sl', loc_index = of_nat j \<rparr>"
    using place [OF assms(2)] place [OF assms(3)] assms(4) by metis
  ultimately show ?thesis by (metis option.inject tx_locator.ext_inject)
qed


section \<open>Lemmas: production succeeds\<close>

lemma node_new_fresh:
  assumes "seq_pubkey env = sequencer g"
  obtains n where "node_new env store_open g now = Inr n" and "tip_slot n = 0" and "last_block_unix_ms n = now"
    and "queue (nd_mempool n) = []" and "pending_deposits n = []"
  using assms
  by (auto simp: node_new_def initialize_genesis_def store_open_def restore_tip_def rebuild_withdrawals_def
      mempool_new_def Let_def)

lemma index_transactions_ok:
  "\<forall>p\<in>set ps. signatures (fst p) \<noteq> [] \<Longrightarrow> \<exists>s'. index_transactions sl i ps s = Some s'"
proof (induction ps arbitrary: i s)
  case (Cons p ps)
  then show ?case by (cases p; cases "signatures (fst p)") (auto simp: first_def)
qed simp

lemma commit_block_succeeds:
  assumes "length metas = length (transactions b)" and "state_root (header b) = new_root u"
    and "\<forall>l. meta_latest_slot s = Some l \<longrightarrow> l < slot (header b)" and "\<forall>tx\<in>set (transactions b). signatures tx \<noteq> []"
  shows "\<exists>s'. commit_block b3 s b metas ws u q nulls = Inr s'"
proof -
  obtain s2 where "index_transactions (slot (header b)) 0 (zip (transactions b) metas)
      (s\<lparr> accounts := fold write_account ws (accounts s), smt_nodes := write_smt_nodes b3 (smt_nodes s) u,
         blocks := RBT.insert (slot (header b)) b (blocks s) \<rparr>) = Some s2"
    using index_transactions_ok [of "zip (transactions b) metas"] assms(4) by (force dest: set_zip_leftD)
  then show ?thesis using assms(1-3) by (auto simp: commit_block_def Let_def not_le split: option.splits)
qed

lemma commit_content_succeeds:
  assumes "chain_ok env g n" and "tip_slot n \<noteq> - 1" and "\<forall>p\<in>set inc. signatures (fst p) \<noteq> []"
  obtains n' where "commit_content env now n (w, inc, nulls, leaves) = Inr n'"
proof -
  have "tip_slot n + 1 \<noteq> 0" using assms(2) max_word_wrap by blast
  then have "tip_slot n < tip_slot n + 1" using pred_slot [of "tip_slot n + 1"] by simp
  then have "\<forall>l. meta_latest_slot (nd_store n) = Some l \<longrightarrow> l < tip_slot n + 1"
    using assms(1) by (auto simp: chain_ok_def tip_ok_def split: if_splits)
  then have "\<exists>s'. commit_block (nd_b3 env) (nd_store n) (make_block env now n (new_root (content_update env n w)) (map fst inc))
      (map snd inc) (RBT.entries w) (content_update env n w) q nulls = Inr s'" for q
    using assms(3) by (intro commit_block_succeeds) simp_all
  then obtain f where "commit_block (nd_b3 env) (nd_store n) (make_block env now n (new_root (content_update env n w)) (map fst inc))
      (map snd inc) (RBT.entries w) (content_update env n w) q nulls = Inr (f q)" for q
    by metis
  then show ?thesis
    by (intro that) (simp add: commit_content_def content_update_def [symmetric] Let_def)
qed

lemma commit_content_result:
  assumes "commit_content env now n (w, inc, nulls, leaves) = Inr n'"
  shows "tip_slot n' = tip_slot n + 1" and "last_block_unix_ms n' = now"
    and "\<exists>b. get_block (nd_store n') (tip_slot n + 1) = Some b \<and> transactions b = map fst inc"
    and "length inc \<le> 2 ^ 32 \<Longrightarrow> distinct (map (first_sig \<circ> fst) inc) \<Longrightarrow> (tx, m) \<in> set inc \<Longrightarrow>
      \<exists>loc. get_transaction (nd_store n') (first_sig tx) = Inr (Some (loc, tx, m))"
proof -
  obtain s b q where b: "b = make_block env now n (new_root (content_update env n w)) (map fst inc)"
    and commit: "commit_block (nd_b3 env) (nd_store n) b (map snd inc) (RBT.entries w) (content_update env n w) q nulls = Inr s"
    and n': "n' = (insert_leaves (nd_b3 env) leaves (n\<lparr> nd_store := s, tip_queue := q, tip_slot := tip_slot n + 1,
        tip_blockhash := header_hash (nd_b3 env) (ser_hdr env) (header b), last_block_unix_ms := now \<rparr>))
      \<lparr> total_txs := total_txs n + ucast (transaction_count (header b)) \<rparr>"
    using assms by (rule commit_content_cases)
  have txs: "transactions b = map fst inc" and sl: "slot (header b) = tip_slot n + 1" by (simp_all add: b)
  have store: "get_block (nd_store n') = get_block s" "get_transaction (nd_store n') = get_transaction s"
    by (simp_all add: n' insert_leaves_def Let_def)
  show "tip_slot n' = tip_slot n + 1" "last_block_unix_ms n' = now" by (simp_all add: n' insert_leaves_def Let_def)
  have "get_block s (tip_slot n + 1) = Some b"
    unfolding get_block_def commit_block_fields(3) [OF commit] sl by simp
  then show "\<exists>b. get_block (nd_store n') (tip_slot n + 1) = Some b \<and> transactions b = map fst inc"
    by (simp add: store txs)
  assume inc: "length inc \<le> 2 ^ 32" "distinct (map (first_sig \<circ> fst) inc)" "(tx, m) \<in> set inc"
  then obtain i where "i < length inc" "inc ! i = (tx, m)" by (auto simp: in_set_conv_nth)
  then show "\<exists>loc. get_transaction (nd_store n') (first_sig tx) = Inr (Some (loc, tx, m))"
    using commit_block_found [OF commit, of i] inc(1,2) by (simp add: store txs first_sig_def [abs_def] comp_def)
qed

lemma run_block_idle:
  obtains w where "run_block env now n [] [] = Some (Inr (w, [], [], []))"
proof -
  let ?input = "\<lparr> in_slot = tip_slot n + 1, in_timestamp_ms = now, parent_blockhash = tip_blockhash n,
    in_transactions = [], in_queue = tip_queue n \<rparr>"
  obtain out where out: "execute_block (vm env) (nd_collector n) (nd_store n) ?input = Inr out"
    by (auto simp: execute_block_def Let_def case_prod_unfold)
  then have "included out = []"
    using execute_block_included(2) [OF out] by (cases "included out") auto
  with out that show ?thesis by (simp add: run_block_def pool_stage_def)
qed


section \<open>Sample chain\<close>

lemma chain_env_simps:
  "options chain_env = node_options_default" "vm chain_env = sample_svm" "svc_b3 (pool_template chain_env) = pad_hash"
  "seq_pubkey chain_env = sequencer chain_genesis" "de_ins chain_env = (\<lambda>_. None)" "runtime_accounts chain_env = []"
  by (simp_all add: chain_env_def sample_svc_def chain_genesis_def sample_genesis_def)

lemma chain_parse: "withdraw_of chain_tx = Some chain_withdraw"
  using sample_parse by (simp add: withdraw_of_def parse_withdraw_def chain_tx_def chain_withdraw_def sample_withdraw_tx_def
      sample_withdraw_def get_at_def get_range_def)

lemma chain_start:
  obtains n where "node_new chain_env store_open chain_genesis 0 = Inr n" and "tip_slot n = 0"
    and "tip_queue n = register (the (with_capacity BLOCKHASH_QUEUE_CAPACITY)) 0 (genesis_hash pad_hash chain_genesis)"
    and "nd_mempool n = mempool_new 10000 128" and "pending_deposits n = []" and "nd_collector n = replicate 32 2"
    and "get_account (nd_store n) [1] = Some (new_system 10000)" and "tx_loc (nd_store n) = Map.empty"
proof -
  have addr: "[1] \<noteq> POOL_STATE_ADDRESS" by (simp add: POOL_STATE_ADDRESS_def)
  show ?thesis
    using that
    by (simp add: node_new_def chain_env_simps initialize_genesis_def store_open_def restore_tip_def
        rebuild_withdrawals_def Let_def set_withdrawals_root_def get_account_def genesis_writes_def write_account_def
        chain_genesis_def sample_genesis_def node_options_default_def genesis_pool_account_def pool_service_for_def
        pool_config_new_def addr)
qed

lemma chain_submit:
  assumes "tip_queue n = register (the (with_capacity BLOCKHASH_QUEUE_CAPACITY)) 0 (genesis_hash pad_hash chain_genesis)"
    and "nd_mempool n = mempool_new 10000 128" and "tx_loc (nd_store n) = Map.empty"
  shows "snd (submit_transaction chain_env n chain_tx) = Inr [5]"
    and "queue (nd_mempool (fst (submit_transaction chain_env n chain_tx))) = [chain_tx]"
    and "pending_deposits (fst (submit_transaction chain_env n chain_tx)) = pending_deposits n"
proof -
  have "admit chain_env n chain_tx = Inr [5]"
    by (simp add: admit_def chain_env_simps assms sample_svm_def chain_tx_def sample_withdraw_tx_def first_def
        is_valid_def register_def with_capacity_def BLOCKHASH_QUEUE_CAPACITY_def get_transaction_def)
  then show "snd (submit_transaction chain_env n chain_tx) = Inr [5]"
    "queue (nd_mempool (fst (submit_transaction chain_env n chain_tx))) = [chain_tx]"
    "pending_deposits (fst (submit_transaction chain_env n chain_tx)) = pending_deposits n"
    by (simp_all add: submit_transaction_def push_def assms(2) mempool_new_def chain_tx_def sample_withdraw_tx_def
        first_def fee_payer_def Let_def)
qed

lemma dom_fold_insert:
  "dom (RBT.lookup (fold (\<lambda>(k, a). RBT.insert k (f a)) xs t)) = fst ` set xs \<union> dom (RBT.lookup t)"
  by (induction xs arbitrary: t) auto

lemma keys_merge_writes: "fst ` set (merge_writes overlay fin) = fst ` set overlay \<union> dom (RBT.lookup fin)"
  using dom_fold_insert [of "\<lambda>a. a" overlay RBT.empty]
    dom_fold_insert [of account_or_delete "RBT.entries fin" "fold (\<lambda>(pk, a). RBT.insert pk a) overlay RBT.empty"]
  by (simp add: merge_writes_def RBT.lookup_keys RBT.keys_def_alt Un_commute)

lemma keys_overlay_writes: "fst ` set (take_overlay_writes cb) = dom (RBT.lookup (cb_overlay cb))"
  by (simp add: take_overlay_writes_def RBT.lookup_keys RBT.keys_def_alt image_image case_prod_unfold)

text \<open>A block without regular transactions writes the clock and nothing else in the execution stage.\<close>

lemma execute_block_idle:
  assumes "execute_block m collector s \<lparr> in_slot = sl, in_timestamp_ms = now, parent_blockhash = h,
      in_transactions = [], in_queue = q \<rparr> = Inr out"
  shows "included out = []" and "dom (RBT.lookup (fold (\<lambda>(k, a). RBT.insert k a) (out_writes out) RBT.empty)) = {clock_id m}"
proof -
  have "included out = [] \<and> out_writes out = merge_writes (take_overlay_writes (set_account (clock_id m)
      (snd (clock_account m sl now)) (callback_new s))) RBT.empty"
    using assms by (auto simp: execute_block_def clock_account_def Let_def credit_fees_def)
  then have "included out = [] \<and> fst ` set (out_writes out) = {clock_id m}"
    by (simp add: keys_merge_writes keys_overlay_writes set_account_def callback_new_def)
  then show "included out = []" "dom (RBT.lookup (fold (\<lambda>(k, a). RBT.insert k a) (out_writes out) RBT.empty)) = {clock_id m}"
    using dom_fold_insert [of "\<lambda>a. a" "out_writes out" RBT.empty] by simp_all
qed

lemma chain_run:
  assumes "get_account (nd_store n) [1] = Some (new_system 10000)"
  obtains w m where "run_block chain_env now n [chain_tx] [] = Some (Inr (w, [(chain_tx, m)], [], [withdraw_leaf pad_hash chain_withdraw]))"
    and "is_success m"
proof -
  let ?input = "\<lparr> in_slot = tip_slot n + 1, in_timestamp_ms = now, parent_blockhash = tip_blockhash n,
    in_transactions = [], in_queue = tip_queue n \<rparr>"
  obtain out where out: "execute_block sample_svm (nd_collector n) (nd_store n) ?input = Inr out"
    by (auto simp: execute_block_def Let_def case_prod_unfold)
  let ?w = "fold (\<lambda>(k, a). RBT.insert k a) (out_writes out) RBT.empty"
  have "[1] \<notin> dom (RBT.lookup ?w)"
    unfolding execute_block_idle(2) [OF out] by (simp add: sample_svm_def list_eq_iff_nth_eq)
  then have cur: "current (nd_store n) ?w [1] = Some (new_system 10000)"
    using assms by (simp add: current_def domIff)
  have part: "partition_withdraws [chain_tx] = ([chain_withdraw], [])"
    using chain_parse withdraw_of_None [of chain_tx] by (simp add: partition_withdraws_eq List.map_filter_simps)
  have native: "is_native_withdraw (bridge_of chain_env n) chain_withdraw"
    by (simp add: is_native_withdraw_def chain_withdraw_def sample_withdraw_def)
  obtain w m where "apply_withdraws (bridge_of chain_env n) (nd_store n) [chain_withdraw] ?w
      = Some (w, [(chain_tx, m)], [withdraw_leaf pad_hash chain_withdraw])" and "is_success m"
    using cur native
    by (simp add: debit_withdraw_def chain_withdraw_def sample_withdraw_def needed_native_def
        saturating_add_def POOL_TX_FEE_def LAMPORTS_PER_SIGNATURE_def new_system_def pool_meta_def is_success_def
        bridge_of_def chain_env_simps Let_def)
  then show ?thesis
    using that out execute_block_idle(1) [OF out]
    by (simp add: run_block_def part pool_stage_def chain_env_simps del: apply_withdraws.simps partition_withdraws.simps)
qed

lemma keys_of_tip_1:
  assumes "chain_ok env g n" and "tip_slot n = 1"
  shows "RBT.keys (blocks (nd_store n)) = [1]"
proof -
  have "set (RBT.keys (blocks (nd_store n))) = {1}"
    using assms by (auto simp: chain_ok_def blocks_ok_def get_block_def dom_def word_gt_0 le_less word_less_1
        simp flip: RBT.lookup_keys)
  then show ?thesis by (intro sorted_distinct_set_unique) (simp_all add: RBT.sorted_keys RBT.distinct_keys)
qed

lemma sample_chain:
  obtains n b where "node_serial chain_env chain_genesis n" and "tip_slot n = 1" and "get_block (nd_store n) 1 = Some b"
    and "transactions b = [chain_tx]" and "withdraw_succeeded (nd_store n) chain_withdraw"
    and "committed_leaves pad_hash (nd_store n) = [withdraw_leaf pad_hash chain_withdraw]"
proof -
  obtain n0 where n0: "node_new chain_env store_open chain_genesis 0 = Inr n0" "tip_slot n0 = 0"
    "tip_queue n0 = register (the (with_capacity BLOCKHASH_QUEUE_CAPACITY)) 0 (genesis_hash pad_hash chain_genesis)"
    "nd_mempool n0 = mempool_new 10000 128" "pending_deposits n0 = []"
    "get_account (nd_store n0) [1] = Some (new_system 10000)" "tx_loc (nd_store n0) = Map.empty"
    by (rule chain_start)
  let ?n1 = "fst (submit_transaction chain_env n0 chain_tx)"
  have serial: "node_serial chain_env chain_genesis ?n1"
    by (intro node_serial.serial_submitted node_serial.serial_started [OF n0(1)])
  have core: "core ?n1 = core n0" by simp
  have q: "queue (nd_mempool ?n1) = [chain_tx]" "pending_deposits ?n1 = []"
    using chain_submit [OF n0(3,4,7)] n0(5) by simp_all
  obtain n2 where take: "take_work chain_env ?n1 = (n2, [chain_tx], [])" "nd_store n2 = nd_store n0" "tip_slot n2 = 0"
    using q core n0(2) by (simp add: take_work_def drain_def chain_env_simps node_options_default_def core_def Let_def)
  obtain w m where run: "run_block chain_env 20000 n2 [chain_tx] []
      = Some (Inr (w, [(chain_tx, m)], [], [withdraw_leaf pad_hash chain_withdraw]))" and m: "is_success m"
    using chain_run [of n2] n0(6) take(2) by auto
  have sigs: "\<forall>p\<in>set [(chain_tx, m)]. signatures (fst p) \<noteq> []" by (simp add: chain_tx_def sample_withdraw_tx_def)
  have "chain_ok chain_env chain_genesis n2"
    using node_reach_chain [OF node_reach.taken [OF node_serial_reach [OF serial]]] by (simp add: take)
  then obtain n3 where commit: "commit_content chain_env 20000 n2
      (w, [(chain_tx, m)], [], [withdraw_leaf pad_hash chain_withdraw]) = Inr n3"
    by (rule commit_content_succeeds) (simp add: take(3), rule sigs)
  have "try_produce_block chain_env 20000 ?n1 = Some (n3, Inr (Some 1))"
    by (simp add: try_produce_block_def take finish_block_def run commit)
  then have s3: "node_serial chain_env chain_genesis n3" by (rule node_serial.serial_produced [OF serial])
  note result = commit_content_result [OF commit]
  obtain b where b: "get_block (nd_store n3) 1 = Some b" "transactions b = [chain_tx]" using result(3) take(3) by auto
  have succ: "withdraw_succeeded (nd_store n3) chain_withdraw"
    using result(4) [of chain_tx m] m
    by (auto simp: withdraw_succeeded_def chain_withdraw_def chain_tx_def sample_withdraw_tx_def first_def first_sig_def)
  have "committed_leaves pad_hash (nd_store n3) = [withdraw_leaf pad_hash chain_withdraw]"
  proof -
    have "RBT.keys (blocks (nd_store n3)) = [1]"
      using node_reach_chain [OF node_serial_reach [OF s3]] by (rule keys_of_tip_1) (simp add: result(1) take(3))
    then show ?thesis
      using b succ chain_parse by (simp add: committed_leaves_def block_leaves_def partition_withdraws_eq List.map_filter_simps)
  qed
  then show ?thesis using that s3 result(1) take(3) b succ by simp
qed


section \<open>Properties\<close>

text \<open>
  C5: The chain is linked and signed: whatever requests, failures and restarts a node has seen, it
  holds a block at exactly the slots from 1 to its tip, each naming the hash of the block
  before it (of the genesis for the first); every block of fewer than \<open>2^32\<close> transactions
  passes the block check under the sequencer's key; and the tip's hash and the committed
  state root are those of the last block.
\<close>

theorem chain_verifies:
  assumes "node_reach env g n" and "\<forall>m. sig_ok (seq_pubkey env) m (seq_sign env m)"
  shows "(get_block (nd_store n) sl \<noteq> None) = (0 < sl \<and> sl \<le> tip_slot n)
    \<and> (get_block (nd_store n) sl = Some b \<longrightarrow> slot (header b) = sl
        \<and> parent_hash (header b) = slot_hash env (genesis_hash (nd_b3 env) g) (nd_store n) (sl - 1)
        \<and> (length (transactions b) < 2 ^ 32 \<longrightarrow> block_verify (nd_b3 env) (ser_hdr env) (ser_tx env) sig_ok b (sequencer g)))
    \<and> tip_blockhash n = slot_hash env (genesis_hash (nd_b3 env) g) (nd_store n) (tip_slot n)
    \<and> (tip_slot n \<noteq> 0 \<longrightarrow>
        meta_state_root (nd_store n) = Some (state_root (header (the (get_block (nd_store n) (tip_slot n))))))"
proof -
  have "chain_ok env g n" using assms(1) by (rule node_reach_chain)
  moreover have "block_verify (nd_b3 env) (ser_hdr env) (ser_tx env) sig_ok b (sequencer g)"
    if "sealed_ok env b" "length (transactions b) < 2 ^ 32" "seq_pubkey env = sequencer g"
    using that assms(2) by (simp add: block_verify_def sealed_ok_def unat_of_nat_lt)
  ultimately show ?thesis by (auto simp: chain_ok_def blocks_ok_def tip_ok_def)
qed

theorem chain_verifies_witness:
  "\<exists>(n :: node) b. get_block (nd_store n) 1 = Some b \<and> parent_hash (header b) = genesis_hash pad_hash chain_genesis
    \<and> block_verify pad_hash (ser_hdr chain_env) (ser_tx chain_env) (\<lambda>k m s. s = m) b (replicate 32 1)
    \<and> tip_blockhash n = header_hash pad_hash (ser_hdr chain_env) (header b)"
proof -
  obtain n b where n: "node_serial chain_env chain_genesis n" "tip_slot n = 1" "get_block (nd_store n) 1 = Some b"
    "transactions b = [chain_tx]"
    by (rule sample_chain)
  have "\<forall>m. (\<lambda>k m s. s = m) (seq_pubkey chain_env) m (seq_sign chain_env m)" by (simp add: chain_env_def)
  from chain_verifies [where sig_ok = "\<lambda>k m s. s = m", OF node_serial_reach [OF n(1)] this, of 1 b] n(2-4) show ?thesis
    by (intro exI [of _ n] exI [of _ b]) (simp add: slot_hash_def chain_env_simps chain_genesis_def sample_genesis_def)
qed

text \<open>
  A restart loses nothing: when block productions run undisturbed, a node started on the store
  of any reachable node succeeds, leaves the store as it is, and has the same tip, the same
  recent blockhashes in the same order, and the same withdrawal tree, which is rebuilt from the
  committed blocks.
\<close>

theorem restart_recovers:
  assumes "node_serial env g n" and "opt_max_block_transactions (options env) \<le> 2 ^ 32"
  shows "\<exists>n'. node_new env (nd_store n) g now = Inr n' \<and> nd_store n' = nd_store n \<and> tip_slot n' = tip_slot n
    \<and> tip_blockhash n' = tip_blockhash n \<and> entries (tip_queue n') = entries (tip_queue n)
    \<and> withdrawals n' = withdrawals n"
proof -
  have ok: "chain_ok env g n" "tree_ok env n" using node_serial_ok [OF assms] by (simp_all add: serial_ok_def)
  have "set_withdrawals_root (nd_store n) (withdraw_root (nd_b3 env) (withdrawals n)) = nd_store n"
    using ok(2) by (simp add: tree_ok_def set_withdrawals_root_def)
  moreover have "rebuild_tree (nd_b3 env) (nd_store n) Map.empty = withdrawals n"
    using rebuild_tree_committed [OF ok(1)] ok(2) by (simp add: tree_ok_def)
  ultimately show ?thesis
    using restart_eq [OF ok(1), of now] by (auto simp: boot_def rebuild_withdrawals_def Let_def)
qed

theorem restart_recovers_witness:
  "\<exists>(n :: node) n'. tip_slot n = 1 \<and> node_new chain_env (nd_store n) chain_genesis 7 = Inr n' \<and> nd_store n' = nd_store n
    \<and> tip_slot n' = 1 \<and> withdrawals n' = withdrawals n"
proof -
  obtain n where n: "node_serial chain_env chain_genesis n" "tip_slot n = 1" by (rule sample_chain)
  show ?thesis
    using restart_recovers [OF n(1), of 7] n(2)
    by - (rule exI [of _ n], auto simp: chain_env_simps node_options_default_def)
qed



text \<open>
  A committed withdrawal can be claimed: for every successful withdrawal in a committed block
  (when no other committed withdrawal shares its place in the withdrawal tree) the node serves a
  proof against the withdrawal root it has published, and the settlement program accepts it.
\<close>

theorem committed_withdrawal_claimable:
  assumes "node_serial env g n" and "opt_max_block_transactions (options env) \<le> 2 ^ 32"
    and "digest32 (nd_b3 env)" and "l1_empty_hashes tbl = l1_compute_empty_hashes (nd_b3 env)"
    and "get_block (nd_store n) sl = Some b" and "w \<in> set (fst (partition_withdraws (transactions b)))"
    and "withdraw_succeeded (nd_store n) w" and "withdraw_leaf (nd_b3 env) w = (pk, ah)"
    and "\<forall>x\<in>set (committed_leaves (nd_b3 env) (nd_store n)). x \<noteq> (pk, ah)
      \<longrightarrow> withdraw_bits (nd_b3 env) (fst x) \<noteq> withdraw_bits (nd_b3 env) pk"
  shows "\<exists>root pf. compute_withdrawal_proof env n (w_recipient w) (w_asset_id w) (w_amount w) (w_nonce w) = Inr (root, pf)
    \<and> root = withdrawals_root (nd_store n) \<and> l1_verify (nd_b3 env) tbl root pk ah (to_l1_proof pf)"
proof -
  let ?b3 = "nd_b3 env" and ?leaves = "committed_leaves (nd_b3 env) (nd_store n)"
  have tree: "tree_ok env n" using node_serial_ok [OF assms(1,2)] by (simp add: serial_ok_def)
  have "sl \<in> set (RBT.keys (blocks (nd_store n)))"
    using assms(5) by (auto simp: get_block_def simp flip: RBT.lookup_keys)
  then have "(pk, ah) \<in> set ?leaves"
    using assms(5-8) by (force simp: committed_leaves_def block_leaves_def)
  then obtain earlier later where split: "?leaves = earlier @ (pk, ah) # later" and last: "(pk, ah) \<notin> set later"
    using split_list_last by metis
  have "\<forall>x\<in>set later. withdraw_bits ?b3 (fst x) \<noteq> withdraw_bits ?b3 pk"
    using assms(9) last unfolding split by auto
  then have "withdraw_verify ?b3 (withdraw_root ?b3 (withdrawals n)) pk ah (withdraw_prove ?b3 (withdrawals n) pk)"
    using tree withdraw_prove_verifies [OF assms(3) withdraw_tree_rep [OF assms(3)] withdraw_leaves_last]
    by (simp add: tree_ok_def split)
  then show ?thesis
    using tree assms(8) l1_verify_eq [OF assms(4)]
    by (auto simp: compute_withdrawal_proof_def withdraw_leaf_def tree_ok_def withdrawals_root_def Let_def)
qed

theorem committed_withdrawal_claimable_witness:
  "\<exists>n root pf. compute_withdrawal_proof chain_env n (replicate 32 9) NATIVE_ASSET_ID 30 4 = Inr (root, pf)
    \<and> l1_verify pad_hash pad_table root (withdrawal_pubkey pad_hash (replicate 32 9) 4)
        (withdrawal_account_hash pad_hash (replicate 32 9) NATIVE_ASSET_ID 30 4) (to_l1_proof pf)"
proof -
  obtain n b where n: "node_serial chain_env chain_genesis n" "get_block (nd_store n) 1 = Some b"
    "transactions b = [chain_tx]" "withdraw_succeeded (nd_store n) chain_withdraw"
    "committed_leaves pad_hash (nd_store n) = [withdraw_leaf pad_hash chain_withdraw]"
    by (rule sample_chain)
  have w: "w_recipient chain_withdraw = replicate 32 9" "w_asset_id chain_withdraw = NATIVE_ASSET_ID"
    "w_amount chain_withdraw = 30" "w_nonce chain_withdraw = 4"
    by (simp_all add: chain_withdraw_def sample_withdraw_def)
  have part: "chain_withdraw \<in> set (fst (partition_withdraws (transactions b)))"
    using chain_parse n(3) by (simp add: partition_withdraws_eq List.map_filter_simps)
  have leaf: "withdraw_leaf pad_hash chain_withdraw = (withdrawal_pubkey pad_hash (replicate 32 9) 4,
      withdrawal_account_hash pad_hash (replicate 32 9) NATIVE_ASSET_ID 30 4)"
    by (simp add: withdraw_leaf_def w)
  show ?thesis
    using committed_withdrawal_claimable [OF n(1) _ _ _ n(2) part n(4), of pad_table] n(5)
    by (auto simp: chain_env_simps node_options_default_def digest32_pad_hash pad_table_ok w leaf)
qed

end
