(* ===== verification/Json.thy ===== *)
theory Json
  imports Zul_Prelude
begin

text \<open>
  JSON values as \<^verbatim>\<open>serde_json\<close> has them, with the accessors the RPC server and the tools use, the
  conversion of text to \<^verbatim>\<open>u64\<close>, and a small language of shapes in which the answers of the server are
  typed. An object is an association list with distinct keys. A number is an integer, or the text of
  a number that is not one.
\<close>

section \<open>Values and accessors\<close>

datatype json =
  JNull | JBool bool | JNum int | JReal string | JStr string | JArr "json list" | JObj "(string \<times> json) list"

definition ju64 :: "u64 \<Rightarrow> json" where
  "ju64 w = JNum (uint w)"

definition jnull_or :: "('a \<Rightarrow> json) \<Rightarrow> 'a option \<Rightarrow> json" where
  "jnull_or f x = (case x of None \<Rightarrow> JNull | Some v \<Rightarrow> f v)"

fun as_str :: "json \<Rightarrow> string option" where
  "as_str (JStr s) = Some s"
| "as_str _ = None"

fun as_u64 :: "json \<Rightarrow> u64 option" where
  "as_u64 (JNum i) = (if 0 \<le> i \<and> i < 2 ^ 64 then Some (word_of_int i) else None)"
| "as_u64 _ = None"

fun as_array :: "json \<Rightarrow> json list option" where
  "as_array (JArr xs) = Some xs"
| "as_array _ = None"

fun as_object :: "json \<Rightarrow> (string \<times> json) list option" where
  "as_object (JObj fs) = Some fs"
| "as_object _ = None"

fun jget :: "string \<Rightarrow> json \<Rightarrow> json option" where
  "jget k (JObj fs) = map_of fs k"
| "jget k _ = None"

text \<open>\<^verbatim>\<open>str::parse::<u64>\<close>: an optional plus sign, then one digit at least and nothing else, within 64 bits.\<close>

definition digit_of :: "char \<Rightarrow> nat option" where
  "digit_of c = (if 48 \<le> (of_char c :: nat) \<and> (of_char c :: nat) \<le> 57 then Some (of_char c - 48) else None)"

fun parse_digits :: "nat \<Rightarrow> string \<Rightarrow> u64 option" where
  "parse_digits acc [] = Some (of_nat acc)"
| "parse_digits acc (c # cs) =
    (case digit_of c of None \<Rightarrow> None
     | Some d \<Rightarrow> let v = 10 * acc + d in if v < 2 ^ 64 then parse_digits v cs else None)"

definition parse_u64 :: "string \<Rightarrow> u64 option" where
  "parse_u64 s = (let t = (case s of c # cs \<Rightarrow> if c = CHR ''+'' then cs else s | [] \<Rightarrow> s)
    in if t = [] then None else parse_digits 0 t)"

text \<open>\<^verbatim>\<open>collect\<close> into a result: the first error stops the loop.\<close>

fun try_map :: "('a \<Rightarrow> 'e + 'b) \<Rightarrow> 'a list \<Rightarrow> 'e + 'b list" where
  "try_map f [] = Inr []"
| "try_map f (x # xs) =
    (case f x of Inl e \<Rightarrow> Inl e
     | Inr y \<Rightarrow> (case try_map f xs of Inl e \<Rightarrow> Inl e | Inr ys \<Rightarrow> Inr (y # ys)))"


section \<open>Shapes\<close>

datatype shape =
  Anything | Null | Boolean | U64 | Text | Exactly string | OrNull shape | Either shape shape | Many shape
  | Tuple "shape list" | Fields "(string \<times> shape) list"

fun has_shape :: "json \<Rightarrow> shape \<Rightarrow> bool" where
  "has_shape v Anything = True"
| "has_shape v Null = (v = JNull)"
| "has_shape v Boolean = (case v of JBool _ \<Rightarrow> True | _ \<Rightarrow> False)"
| "has_shape v U64 = (as_u64 v \<noteq> None)"
| "has_shape v Text = (as_str v \<noteq> None)"
| "has_shape v (Exactly s) = (v = JStr s)"
| "has_shape v (OrNull t) = (v = JNull \<or> has_shape v t)"
| "has_shape v (Either t u) = (has_shape v t \<or> has_shape v u)"
| "has_shape v (Many t) = (case v of JArr xs \<Rightarrow> list_all (\<lambda>x. has_shape x t) xs | _ \<Rightarrow> False)"
| "has_shape v (Tuple ts) = (case v of JArr xs \<Rightarrow> list_all2 has_shape xs ts | _ \<Rightarrow> False)"
| "has_shape v (Fields ts) = (case v of JObj fs \<Rightarrow> list_all2 (\<lambda>f t. fst f = fst t \<and> has_shape (snd f) (snd t)) fs ts | _ \<Rightarrow> False)"


section \<open>Lemmas\<close>

lemma jnull_or_simps [simp]: "jnull_or f None = JNull" "jnull_or f (Some x) = f x"
  by (simp_all add: jnull_or_def)

text \<open>Values that may be null, and lists, are typed by rules.\<close>

declare has_shape.simps(7) [simp del] has_shape.simps(9) [simp del]

lemma shape_null [simp]: "has_shape JNull (OrNull t)" "has_shape v t \<Longrightarrow> has_shape v (OrNull t)"
  by (simp_all add: has_shape.simps(7))

lemma shape_many: "has_shape (JArr xs) (Many t) \<longleftrightarrow> (\<forall>x\<in>set xs. has_shape x t)"
  by (simp add: has_shape.simps(9) list_all_iff)

lemma shape_empty [simp]: "has_shape (JArr []) (Many t)"
  by (simp add: shape_many)

lemma shape_jnull_or: "(\<And>y. x = Some y \<Longrightarrow> has_shape (f y) t) \<Longrightarrow> has_shape (jnull_or f x) (OrNull t)"
  by (cases x) simp_all

lemma try_map_results: "try_map f xs = Inr ys \<Longrightarrow> list_all2 (\<lambda>x y. f x = Inr y) xs ys"
  by (induction xs arbitrary: ys) (auto split: sum.splits)

lemma try_map_error: "try_map f xs = Inl e \<Longrightarrow> \<exists>x\<in>set xs. f x = Inl e"
  by (induction xs) (auto split: sum.splits)

lemma try_map_shape:
  assumes "try_map f xs = Inr ys" and "\<And>x y. f x = Inr y \<Longrightarrow> has_shape y t"
  shows "has_shape (JArr ys) (Many t)"
proof -
  have "\<exists>x. f x = Inr y" if "y \<in> set ys" for y
    using try_map_results [OF assms(1)] that by (auto simp: list_all2_conv_all_nth in_set_conv_nth)
  then show ?thesis using assms(2) by (auto simp: shape_many)
qed

lemma as_u64_word [simp]: "as_u64 (ju64 w) = Some w"
  using uint_lt2p [of w] by (simp add: ju64_def)

end
