(* ===== verification/Rpc_Server.thy ===== *)
theory Rpc_Server
  imports Serial_Chain Json
begin

text \<open>
  The JSON-RPC server, \<^verbatim>\<open>server.rs\<close>, \<^verbatim>\<open>encode.rs\<close> and \<^verbatim>\<open>backend.rs\<close> of \<^verbatim>\<open>zul-rpc\<close>, over the node: one
  definition per method, the table of methods that \<^verbatim>\<open>build_module\<close> registers, and the loops behind the
  three subscriptions. \<open>rpc_codec\<close> holds what the server takes from libraries: base58 and base64, the
  text forms of keys and signatures, the decoding of transactions, the rent formula and the texts of
  errors. A method gets its parameters as \<open>Some\<close> JSON value, or \<open>None\<close> when they do not parse.
\<close>

section \<open>Parameters and errors\<close>

record rpc_codec =
  b58_encode :: "bytes \<Rightarrow> string"
  b58_decode :: "string \<Rightarrow> bytes option"
  b64_encode :: "bytes \<Rightarrow> string"
  b64_decode :: "string \<Rightarrow> bytes option"
  pubkey_to_string :: "pubkey \<Rightarrow> string"
  pubkey_from_str :: "string \<Rightarrow> pubkey option"
  signature_to_string :: "sigbytes \<Rightarrow> string"
  signature_from_str :: "string \<Rightarrow> sigbytes option"
  de_tx :: "bytes \<Rightarrow> transaction option"
  rent_minimum :: "nat \<Rightarrow> u64"
  debug_tx_error :: "tx_error \<Rightarrow> string"
  display_store_error :: "store_error \<Rightarrow> string"

record rpc_error =
  code :: int
  message :: string

type_synonym response = "rpc_error + json"

definition invalid_params :: "string \<Rightarrow> rpc_error" where
  "invalid_params msg = \<lparr> code = - 32602, message = msg \<rparr>"

definition internal_error :: "string \<Rightarrow> rpc_error" where
  "internal_error msg = \<lparr> code = - 32603, message = msg \<rparr>"

definition parse_pubkey :: "rpc_codec \<Rightarrow> json option \<Rightarrow> rpc_error + pubkey" where
  "parse_pubkey cod v =
    (case Option.bind v as_str of None \<Rightarrow> Inl (invalid_params ''expected a base58 pubkey string'')
     | Some s \<Rightarrow> (case pubkey_from_str cod s of None \<Rightarrow> Inl (invalid_params ''invalid pubkey'') | Some pk \<Rightarrow> Inr pk))"

definition parse_opt_signature :: "rpc_codec \<Rightarrow> json option \<Rightarrow> string \<Rightarrow> rpc_error + sigbytes option" where
  "parse_opt_signature cod cfg k =
    (case Option.bind (Option.bind cfg (jget k)) as_str of None \<Rightarrow> Inr None
     | Some s \<Rightarrow> (case signature_from_str cod s of
         None \<Rightarrow> Inl (invalid_params (''invalid '' @ k @ '' signature'')) | Some sig \<Rightarrow> Inr (Some sig)))"

definition memcmp_ok :: "rpc_codec \<Rightarrow> bytes \<Rightarrow> json \<Rightarrow> bool" where
  "memcmp_ok cod dat mc =
    (let offset = (case Option.bind (jget ''offset'' mc) as_u64 of Some w \<Rightarrow> w | None \<Rightarrow> 0);
         bs = (case Option.bind (Option.bind (jget ''bytes'' mc) as_str) (b58_decode cod) of Some b \<Rightarrow> b | None \<Rightarrow> []);
         stop = saturating_add offset (of_nat (length bs))
     in \<not> (unat stop > length dat \<or> take (unat stop - unat offset) (drop (unat offset) dat) \<noteq> bs))"

fun passes_filters :: "rpc_codec \<Rightarrow> bytes \<Rightarrow> json list \<Rightarrow> bool" where
  "passes_filters cod dat [] = True"
| "passes_filters cod dat (f # fs) =
    (case Option.bind (jget ''dataSize'' f) as_u64 of
       Some n \<Rightarrow> if of_nat (length dat) \<noteq> n then False else passes_filters cod dat fs
     | None \<Rightarrow> (case jget ''memcmp'' f of
         Some mc \<Rightarrow> if \<not> memcmp_ok cod dat mc then False else passes_filters cod dat fs
       | None \<Rightarrow> passes_filters cod dat fs))"

fun first_tx :: "rpc_codec \<Rightarrow> bytes option list \<Rightarrow> transaction option" where
  "first_tx cod [] = None"
| "first_tx cod (None # cs) = first_tx cod cs"
| "first_tx cod (Some bs # cs) = (case de_tx cod bs of Some tx \<Rightarrow> Some tx | None \<Rightarrow> first_tx cod cs)"

definition decode_transaction :: "rpc_codec \<Rightarrow> json option \<Rightarrow> string \<Rightarrow> rpc_error + transaction" where
  "decode_transaction cod v encoding =
    (case Option.bind v as_str of None \<Rightarrow> Inl (invalid_params ''expected an encoded transaction string'')
     | Some s \<Rightarrow>
       (let candidates = (if encoding = ''base58'' then [b58_decode cod s, b64_decode cod s]
                          else [b64_decode cod s, b58_decode cod s])
        in case first_tx cod candidates of
             Some tx \<Rightarrow> Inr tx | None \<Rightarrow> Inl (invalid_params ''undeserializable transaction'')))"

definition config_str :: "json list \<Rightarrow> string \<Rightarrow> string \<Rightarrow> string" where
  "config_str ps k dflt =
    (case Option.bind (Option.bind (get_at ps 1) (jget k)) as_str of Some s \<Rightarrow> s | None \<Rightarrow> dflt)"

fun params_array :: "json \<Rightarrow> json list" where
  "params_array (JArr xs) = xs"
| "params_array JNull = []"
| "params_array v = [v]"

definition with_params :: "json option \<Rightarrow> (json list \<Rightarrow> response) \<Rightarrow> response" where
  "with_params raw body =
    (case raw of None \<Rightarrow> Inl (invalid_params ''bad params'') | Some v \<Rightarrow> body (params_array v))"


section \<open>encode.rs\<close>

definition with_context :: "u64 \<Rightarrow> json \<Rightarrow> json" where
  "with_context sl v =
    JObj [(''context'', JObj [(''apiVersion'', JStr ''3.1.14''), (''slot'', ju64 sl)]), (''value'', v)]"

definition encode_account_data :: "rpc_codec \<Rightarrow> bytes \<Rightarrow> string \<Rightarrow> json" where
  "encode_account_data cod dat encoding =
    (if encoding = ''base58'' then JStr (b58_encode cod dat)
     else JArr [JStr (b64_encode cod dat), JStr ''base64''])"

definition encode_account :: "rpc_codec \<Rightarrow> stored_account \<Rightarrow> string \<Rightarrow> json" where
  "encode_account cod a encoding =
    JObj [(''lamports'', ju64 (lamports a)), (''owner'', JStr (pubkey_to_string cod (owner a))),
      (''data'', encode_account_data cod (data a) encoding), (''executable'', JBool (executable a)),
      (''rentEpoch'', ju64 (rent_epoch a)), (''space'', ju64 (of_nat (length (data a))))]"

definition signature_entry :: "rpc_codec \<Rightarrow> sigbytes \<Rightarrow> u64 \<Rightarrow> json option \<Rightarrow> json" where
  "signature_entry cod sig sl err =
    JObj [(''signature'', JStr (signature_to_string cod sig)), (''slot'', ju64 sl), (''err'', jnull_or id err),
      (''memo'', JNull), (''blockTime'', JNull), (''confirmationStatus'', JStr ''finalized'')]"

definition status_to_json :: "rpc_codec \<Rightarrow> tx_error option \<Rightarrow> json" where
  "status_to_json cod st = jnull_or (\<lambda>e. JObj [(''err'', JStr (debug_tx_error cod e))]) st"

definition encode_meta :: "rpc_codec \<Rightarrow> tx_error executed_meta \<Rightarrow> pubkey list \<Rightarrow> json" where
  "encode_meta cod m keys =
    JObj [(''err'', status_to_json cod (status m)), (''fee'', ju64 (fee m)),
      (''preBalances'', JArr (map ju64 (pre_balances m))), (''postBalances'', JArr (map ju64 (post_balances m))),
      (''innerInstructions'', JArr []), (''logMessages'', JArr (map JStr (log_messages m))),
      (''preTokenBalances'', JArr []), (''postTokenBalances'', JArr []), (''rewards'', JArr []),
      (''computeUnitsConsumed'', ju64 (compute_units_consumed m)),
      (''loadedAddresses'', JObj [(''writable'', JArr []), (''readonly'', JArr [])]),
      (''accountKeys'', JArr (map (JStr \<circ> pubkey_to_string cod) keys))]"


section \<open>server.rs: reads of the chain\<close>

definition get_health :: "('b, 'f) node_env \<Rightarrow> u64 \<Rightarrow> node \<Rightarrow> response" where
  "get_health env now n =
    (if is_healthy env now n then Inr (JStr ''ok'')
     else Inl \<lparr> code = - 32005, message = ''Node is unhealthy: block production stalled'' \<rparr>)"

definition get_version :: response where
  "get_version = Inr (JObj [(''solana-core'', JStr ''3.1.14''), (''feature-set'', ju64 0)])"

definition get_slot :: "node \<Rightarrow> response" where
  "get_slot n = Inr (ju64 (current_slot n))"

definition get_block_height :: "node \<Rightarrow> response" where
  "get_block_height n = Inr (ju64 (current_slot n))"

definition SLOTS_PER_EPOCH :: u64 where
  "SLOTS_PER_EPOCH = 432000"

definition get_epoch_info :: "node \<Rightarrow> response" where
  "get_epoch_info n =
    (let sl = current_slot n
     in Inr (JObj [(''absoluteSlot'', ju64 sl), (''blockHeight'', ju64 sl), (''epoch'', ju64 (sl div SLOTS_PER_EPOCH)),
          (''slotIndex'', ju64 (sl mod SLOTS_PER_EPOCH)), (''slotsInEpoch'', ju64 SLOTS_PER_EPOCH),
          (''transactionCount'', JNull)]))"

definition get_minimum_balance :: "rpc_codec \<Rightarrow> json option \<Rightarrow> response" where
  "get_minimum_balance cod raw = with_params raw (\<lambda>ps.
    let data_len = (case Option.bind (first ps) as_u64 of Some w \<Rightarrow> unat w | None \<Rightarrow> 0)
    in Inr (ju64 (rent_minimum cod data_len)))"

definition message_signatures :: "bytes \<Rightarrow> u64" where
  "message_signatures bs =
    (let off = (case first bs of Some b \<Rightarrow> if bit b 7 then 1 else 0 | None \<Rightarrow> 0)
     in case get_at bs off of Some b \<Rightarrow> ucast b | None \<Rightarrow> 1)"

definition get_fee_for_message :: "rpc_codec \<Rightarrow> node \<Rightarrow> json option \<Rightarrow> response" where
  "get_fee_for_message cod n raw = with_params raw (\<lambda>ps.
    let sigs = (case Option.bind (Option.bind (first ps) as_str) (b64_decode cod) of
                  Some bs \<Rightarrow> message_signatures bs | None \<Rightarrow> 1)
    in Inr (with_context (current_slot n) (ju64 (saturating_mul sigs LAMPORTS_PER_SIGNATURE))))"

definition get_genesis_hash :: "rpc_codec \<Rightarrow> node \<Rightarrow> response" where
  "get_genesis_hash cod n =
    (case meta_genesis_hash (nd_store n) of
       None \<Rightarrow> Inl (internal_error ''genesis not initialized'') | Some h \<Rightarrow> Inr (JStr (b58_encode cod h)))"

definition get_latest_blockhash :: "rpc_codec \<Rightarrow> node \<Rightarrow> response" where
  "get_latest_blockhash cod n =
    (let (sl, h) = latest_blockhash n
     in Inr (with_context sl (JObj [(''blockhash'', JStr (b58_encode cod h)),
          (''lastValidBlockHeight'', ju64 (sl + of_nat BLOCKHASH_QUEUE_CAPACITY))])))"

definition rpc_is_blockhash_valid :: "rpc_codec \<Rightarrow> node \<Rightarrow> json option \<Rightarrow> response" where
  "rpc_is_blockhash_valid cod n raw = with_params raw (\<lambda>ps.
    case Option.bind (first ps) as_str of None \<Rightarrow> Inl (invalid_params ''expected blockhash string'')
    | Some s \<Rightarrow> (case b58_decode cod s of None \<Rightarrow> Inl (invalid_params ''invalid blockhash'')
    | Some bs \<Rightarrow> if length bs \<noteq> 32 then Inl (invalid_params ''blockhash must be 32 bytes'')
        else Inr (with_context (current_slot n) (JBool (is_blockhash_valid n bs)))))"


section \<open>server.rs: accounts\<close>

definition get_balance :: "rpc_codec \<Rightarrow> node \<Rightarrow> json option \<Rightarrow> response" where
  "get_balance cod n raw = with_params raw (\<lambda>ps.
    case parse_pubkey cod (first ps) of Inl e \<Rightarrow> Inl e
    | Inr pk \<Rightarrow> Inr (with_context (current_slot n)
        (ju64 (case get_account (nd_store n) pk of Some a \<Rightarrow> lamports a | None \<Rightarrow> 0))))"

definition get_account_info :: "rpc_codec \<Rightarrow> node \<Rightarrow> json option \<Rightarrow> response" where
  "get_account_info cod n raw = with_params raw (\<lambda>ps.
    case parse_pubkey cod (first ps) of Inl e \<Rightarrow> Inl e
    | Inr pk \<Rightarrow>
      (let encoding = config_str ps ''encoding'' ''base64''
       in Inr (with_context (current_slot n)
            (jnull_or (\<lambda>a. encode_account cod a encoding) (get_account (nd_store n) pk)))))"

definition get_multiple_accounts :: "rpc_codec \<Rightarrow> node \<Rightarrow> json option \<Rightarrow> response" where
  "get_multiple_accounts cod n raw = with_params raw (\<lambda>ps.
    case Option.bind (first ps) as_array of None \<Rightarrow> Inl (invalid_params ''expected an array of pubkeys'')
    | Some keys \<Rightarrow>
      (let encoding = config_str ps ''encoding'' ''base64''
       in case try_map (\<lambda>k. case parse_pubkey cod (Some k) of Inl e \<Rightarrow> Inl e
            | Inr pk \<Rightarrow> Inr (jnull_or (\<lambda>a. encode_account cod a encoding) (get_account (nd_store n) pk))) keys of
          Inl e \<Rightarrow> Inl e
        | Inr values \<Rightarrow> Inr (with_context (current_slot n) (JArr values))))"

definition spl_token_program_id :: "rpc_codec \<Rightarrow> pubkey" where
  "spl_token_program_id cod = the (pubkey_from_str cod ''TokenkegQfeZyiNwAJbNbGKPFXCWuBvf9Ss623VQ5DA'')"

definition keyed_account :: "rpc_codec \<Rightarrow> string \<Rightarrow> pubkey \<times> stored_account \<Rightarrow> json" where
  "keyed_account cod encoding r =
    JObj [(''pubkey'', JStr (pubkey_to_string cod (fst r))), (''account'', encode_account cod (snd r) encoding)]"

definition get_token_accounts_by_owner :: "rpc_codec \<Rightarrow> node \<Rightarrow> json option \<Rightarrow> response" where
  "get_token_accounts_by_owner cod n raw = with_params raw (\<lambda>ps.
    case parse_pubkey cod (first ps) of Inl e \<Rightarrow> Inl e
    | Inr own \<Rightarrow>
      (case (case Option.bind (Option.bind (get_at ps 1) (jget ''programId'')) as_str of
               None \<Rightarrow> Some (spl_token_program_id cod) | Some s \<Rightarrow> pubkey_from_str cod s) of
         None \<Rightarrow> Inl (invalid_params ''invalid programId'')
       | Some program \<Rightarrow>
         (let encoding = config_str ps ''encoding'' ''base64'';
              rows = scan_accounts_by_owner (nd_store n) program 10000
          in Inr (with_context (current_slot n) (JArr (map (keyed_account cod encoding)
               (List.filter (\<lambda>(_, a). 64 \<le> length (data a) \<and> take 32 (drop 32 (data a)) = own) rows)))))))"

definition get_program_accounts :: "rpc_codec \<Rightarrow> node \<Rightarrow> json option \<Rightarrow> response" where
  "get_program_accounts cod n raw = with_params raw (\<lambda>ps.
    case parse_pubkey cod (first ps) of Inl e \<Rightarrow> Inl e
    | Inr program \<Rightarrow>
      (let encoding = config_str ps ''encoding'' ''base64'';
           fs = (case Option.bind (Option.bind (get_at ps 1) (jget ''filters'')) as_array of Some xs \<Rightarrow> xs | None \<Rightarrow> []);
           rows = scan_accounts_by_owner (nd_store n) program 10000
       in Inr (JArr (map (keyed_account cod encoding) (List.filter (\<lambda>(_, a). passes_filters cod (data a) fs) rows)))))"


section \<open>server.rs: transactions and blocks\<close>

definition found_tx :: "node \<Rightarrow> sigbytes \<Rightarrow> (tx_locator \<times> transaction \<times> tx_error executed_meta) option" where
  "found_tx n sig = (case get_transaction (nd_store n) sig of Inl _ \<Rightarrow> None | Inr r \<Rightarrow> r)"

definition signature_err :: "rpc_codec \<Rightarrow> node \<Rightarrow> sigbytes \<Rightarrow> json option" where
  "signature_err cod n sig =
    (case found_tx n sig of None \<Rightarrow> None
     | Some (_, _, m) \<Rightarrow> (let v = status_to_json cod (status m) in if v = JNull then None else Some v))"

definition get_signatures_for_address :: "rpc_codec \<Rightarrow> node \<Rightarrow> json option \<Rightarrow> response" where
  "get_signatures_for_address cod n raw = with_params raw (\<lambda>ps.
    case parse_pubkey cod (first ps) of Inl e \<Rightarrow> Inl e
    | Inr address \<Rightarrow>
      (let cfg = get_at ps 1;
           limit = min (case Option.bind (Option.bind cfg (jget ''limit'')) as_u64 of Some w \<Rightarrow> w | None \<Rightarrow> 1000) 1000
       in case parse_opt_signature cod cfg ''before'' of Inl e \<Rightarrow> Inl e
       | Inr before_sig \<Rightarrow>
         (let cursor = Option.bind before_sig (\<lambda>sig. map_option (\<lambda>(loc, _, _). (loc_slot loc, loc_index loc)) (found_tx n sig))
          in case parse_opt_signature cod cfg ''until'' of Inl e \<Rightarrow> Inl e
          | Inr until_sig \<Rightarrow>
            Inr (JArr (map (\<lambda>(sig, sl, _). signature_entry cod sig sl (signature_err cod n sig))
              (takeWhile (\<lambda>(sig, _, _). Some sig \<noteq> until_sig)
                (signatures_for_address (nd_store n) address cursor (unat limit))))))))"

definition rpc_get_transaction :: "('b, 'f) node_env \<Rightarrow> rpc_codec \<Rightarrow> node \<Rightarrow> json option \<Rightarrow> response" where
  "rpc_get_transaction env cod n raw = with_params raw (\<lambda>ps.
    case Option.bind (first ps) as_str of None \<Rightarrow> Inl (invalid_params ''expected signature string'')
    | Some s \<Rightarrow> (case signature_from_str cod s of None \<Rightarrow> Inl (invalid_params ''invalid signature'')
    | Some sig \<Rightarrow> (case get_transaction (nd_store n) sig of Inl e \<Rightarrow> Inl (internal_error (display_store_error cod e))
    | Inr None \<Rightarrow> Inr JNull
    | Inr (Some (loc, tx, m)) \<Rightarrow>
        Inr (JObj [(''slot'', ju64 (loc_slot loc)), (''blockTime'', JNull),
          (''transaction'', JArr [JStr (b64_encode cod (ser_tx env tx)), JStr ''base64'']),
          (''meta'', encode_meta cod m (account_keys tx))]))))"

definition signature_status :: "rpc_codec \<Rightarrow> tx_locator \<times> transaction \<times> tx_error executed_meta \<Rightarrow> json" where
  "signature_status cod r = (case r of (loc, _, m) \<Rightarrow>
    JObj [(''slot'', ju64 (loc_slot loc)), (''confirmations'', JNull), (''err'', status_to_json cod (status m)),
      (''status'', case status m of None \<Rightarrow> JObj [(''Ok'', JNull)] | Some e \<Rightarrow> JObj [(''Err'', JStr (debug_tx_error cod e))]),
      (''confirmationStatus'', JStr ''finalized'')])"

definition get_signature_statuses :: "rpc_codec \<Rightarrow> node \<Rightarrow> json option \<Rightarrow> response" where
  "get_signature_statuses cod n raw = with_params raw (\<lambda>ps.
    case Option.bind (first ps) as_array of None \<Rightarrow> Inl (invalid_params ''expected array of signatures'')
    | Some sigs \<Rightarrow>
      (case try_map (\<lambda>v. case as_str v of None \<Rightarrow> Inr JNull
         | Some s \<Rightarrow> (case signature_from_str cod s of None \<Rightarrow> Inl (invalid_params ''invalid signature'')
         | Some sig \<Rightarrow> (case get_transaction (nd_store n) sig of
             Inl e \<Rightarrow> Inl (internal_error (display_store_error cod e))
           | Inr r \<Rightarrow> Inr (jnull_or (signature_status cod) r)))) sigs of
         Inl e \<Rightarrow> Inl e
       | Inr values \<Rightarrow> Inr (with_context (current_slot n) (JArr values))))"

definition rpc_get_block :: "('b, 'f) node_env \<Rightarrow> rpc_codec \<Rightarrow> node \<Rightarrow> json option \<Rightarrow> response" where
  "rpc_get_block env cod n raw = with_params raw (\<lambda>ps.
    case Option.bind (first ps) as_u64 of None \<Rightarrow> Inl (invalid_params ''expected slot number'')
    | Some sl \<Rightarrow> (case get_block (nd_store n) sl of None \<Rightarrow> Inr JNull
    | Some b \<Rightarrow>
      (let h = header b
       in Inr (JObj [(''blockhash'', JStr (b58_encode cod (header_hash (nd_b3 env) (ser_hdr env) h))),
            (''previousBlockhash'', JStr (b58_encode cod (parent_hash h))),
            (''parentSlot'', ju64 (saturating_sub (slot h) 1)), (''blockHeight'', ju64 (slot h)),
            (''blockTime'', JNum (sint (timestamp_ms h div 1000))),
            (''stateRoot'', JStr (b58_encode cod (state_root h))),
            (''signatures'', JArr (map (JStr \<circ> signature_to_string cod)
              (List.map_filter (\<lambda>tx. first (signatures tx)) (transactions b))))]))))"


section \<open>server.rs: submission, simulation and proofs\<close>

definition backend_error_text :: "rpc_codec \<Rightarrow> backend_error \<Rightarrow> string" where
  "backend_error_text cod e =
    (case e of Rejected msg \<Rightarrow> ''transaction rejected: '' @ msg
     | FaucetDisabled \<Rightarrow> ''faucet disabled''
     | FaucetLimit \<Rightarrow> ''faucet limit exceeded''
     | Internal se \<Rightarrow> ''internal error: '' @ display_store_error cod se
     | EmptySimulation \<Rightarrow> ''internal error: empty simulation output'')"

definition submitted_response :: "rpc_codec \<Rightarrow> backend_error + sigbytes \<Rightarrow> response" where
  "submitted_response cod r =
    (case r of Inl e \<Rightarrow> Inl (invalid_params (backend_error_text cod e))
     | Inr sig \<Rightarrow> Inr (JStr (signature_to_string cod sig)))"

definition send_transaction :: "('b, 'f) node_env \<Rightarrow> rpc_codec \<Rightarrow> node \<Rightarrow> json option \<Rightarrow> node \<times> response" where
  "send_transaction env cod n raw =
    (case raw of None \<Rightarrow> (n, Inl (invalid_params ''bad params''))
     | Some v \<Rightarrow>
       (let ps = params_array v
        in case decode_transaction cod (first ps) (config_str ps ''encoding'' ''base58'') of
             Inl e \<Rightarrow> (n, Inl e)
           | Inr tx \<Rightarrow> (case submit_transaction env n tx of (n', r) \<Rightarrow> (n', submitted_response cod r))))"

definition rpc_simulate_transaction ::
  "('b, 'f) node_env \<Rightarrow> rpc_codec \<Rightarrow> u64 \<Rightarrow> node \<Rightarrow> json option \<Rightarrow> response" where
  "rpc_simulate_transaction env cod now n raw = with_params raw (\<lambda>ps.
    case decode_transaction cod (first ps) (config_str ps ''encoding'' ''base64'') of Inl e \<Rightarrow> Inl e
    | Inr tx \<Rightarrow>
      (case simulate_transaction env now n tx of
         Inl e \<Rightarrow> Inl (invalid_params (backend_error_text cod e))
       | Inr r \<Rightarrow> Inr (with_context (current_slot n)
           (JObj [(''err'', jnull_or (JStr \<circ> debug_tx_error cod) (sim_err r)), (''logs'', JArr (map JStr (sim_logs r))),
             (''unitsConsumed'', ju64 (units_consumed r)), (''accounts'', JNull), (''returnData'', JNull)]))))"

definition json_number :: "json option \<Rightarrow> u64 option" where
  "json_number v = Option.bind v (\<lambda>x.
    case as_u64 x of Some w \<Rightarrow> Some w | None \<Rightarrow> Option.bind (as_str x) parse_u64)"

definition rpc_withdrawal_proof ::
  "('b, 'f) node_env \<Rightarrow> node \<Rightarrow> bytes \<Rightarrow> bytes \<Rightarrow> u64 \<Rightarrow> u64 \<Rightarrow> string + (h256 \<times> smt_proof)" where
  "rpc_withdrawal_proof env n recipient asset_id amount nonce =
    (case compute_withdrawal_proof env n recipient asset_id amount nonce of
       Inl _ \<Rightarrow> Inl ''withdrawal commitment not found (not yet committed?)'' | Inr r \<Rightarrow> Inr r)"

definition proof_response :: "rpc_codec \<Rightarrow> h256 \<times> smt_proof \<Rightarrow> json" where
  "proof_response cod r =
    JObj [(''stateRoot'', JStr (b58_encode cod (fst r))), (''bitmap'', JStr (b58_encode cod (bitmap (snd r)))),
      (''siblings'', JArr (map (JStr \<circ> b58_encode cod) (siblings (snd r))))]"

definition get_withdrawal_proof :: "('b, 'f) node_env \<Rightarrow> rpc_codec \<Rightarrow> node \<Rightarrow> json option \<Rightarrow> response" where
  "get_withdrawal_proof env cod n raw = with_params raw (\<lambda>ps.
    case parse_pubkey cod (first ps) of Inl e \<Rightarrow> Inl e
    | Inr recipient \<Rightarrow> (case json_number (get_at ps 1) of None \<Rightarrow> Inl (invalid_params ''expected amount'')
    | Some amount \<Rightarrow> (case json_number (get_at ps 2) of None \<Rightarrow> Inl (invalid_params ''expected nonce'')
    | Some nonce \<Rightarrow>
      (case (case get_at ps 3 of
               Some v \<Rightarrow> if v \<noteq> JNull then parse_pubkey cod (Some v) else Inr (replicate 32 0)
             | None \<Rightarrow> Inr (replicate 32 0)) of Inl e \<Rightarrow> Inl e
      | Inr asset \<Rightarrow> (case rpc_withdrawal_proof env n recipient asset amount nonce of
          Inl msg \<Rightarrow> Inl (invalid_params msg) | Inr r \<Rightarrow> Inr (proof_response cod r))))))"

definition rpc_request_airdrop :: "('b, 'f) node_env \<Rightarrow> rpc_codec \<Rightarrow> node \<Rightarrow> json option \<Rightarrow> node \<times> response" where
  "rpc_request_airdrop env cod n raw =
    (case raw of None \<Rightarrow> (n, Inl (invalid_params ''bad params''))
     | Some v \<Rightarrow>
       (let ps = params_array v
        in case parse_pubkey cod (first ps) of Inl e \<Rightarrow> (n, Inl e)
           | Inr pk \<Rightarrow> (case Option.bind (get_at ps 1) as_u64 of
               None \<Rightarrow> (n, Inl (invalid_params ''expected lamports amount''))
             | Some amount \<Rightarrow> (case request_airdrop env n pk amount of (n', r) \<Rightarrow> (n', submitted_response cod r)))))"


section \<open>server.rs: the module\<close>

type_synonym handler = "node \<Rightarrow> json option \<Rightarrow> node \<times> response"

definition reading :: "(node \<Rightarrow> json option \<Rightarrow> response) \<Rightarrow> handler" where
  "reading h n raw = (n, h n raw)"

definition build_module :: "('b, 'f) node_env \<Rightarrow> rpc_codec \<Rightarrow> u64 \<Rightarrow> bool \<Rightarrow> (string \<times> handler) list" where
  "build_module env cod now faucet_on =
    [(''getHealth'', reading (\<lambda>n _. get_health env now n)),
     (''getVersion'', reading (\<lambda>_ _. get_version)),
     (''getSlot'', reading (\<lambda>n _. get_slot n)),
     (''getBlockHeight'', reading (\<lambda>n _. get_block_height n)),
     (''getEpochInfo'', reading (\<lambda>n _. get_epoch_info n)),
     (''getMinimumBalanceForRentExemption'', reading (\<lambda>_. get_minimum_balance cod)),
     (''getFeeForMessage'', reading (get_fee_for_message cod)),
     (''getGenesisHash'', reading (\<lambda>n _. get_genesis_hash cod n)),
     (''getLatestBlockhash'', reading (\<lambda>n _. get_latest_blockhash cod n)),
     (''isBlockhashValid'', reading (rpc_is_blockhash_valid cod)),
     (''getBalance'', reading (get_balance cod)),
     (''getAccountInfo'', reading (get_account_info cod)),
     (''getMultipleAccounts'', reading (get_multiple_accounts cod)),
     (''getTokenAccountsByOwner'', reading (get_token_accounts_by_owner cod)),
     (''getSignaturesForAddress'', reading (get_signatures_for_address cod)),
     (''getProgramAccounts'', reading (get_program_accounts cod)),
     (''getTransaction'', reading (rpc_get_transaction env cod)),
     (''getSignatureStatuses'', reading (get_signature_statuses cod)),
     (''getBlock'', reading (rpc_get_block env cod)),
     (''sendTransaction'', send_transaction env cod),
     (''simulateTransaction'', reading (rpc_simulate_transaction env cod now)),
     (''getWithdrawalProof'', reading (get_withdrawal_proof env cod))]
    @ (if faucet_on then [(''requestAirdrop'', rpc_request_airdrop env cod)] else [])"

text \<open>A call: \<open>None\<close> when the module has no such method.\<close>

definition rpc_call ::
  "('b, 'f) node_env \<Rightarrow> rpc_codec \<Rightarrow> bool \<Rightarrow> u64 \<Rightarrow> node \<Rightarrow> string \<Rightarrow> json option \<Rightarrow> (node \<times> response) option" where
  "rpc_call env cod faucet_on now n name raw =
    map_option (\<lambda>h. h n raw) (map_of (build_module env cod now faucet_on) name)"


section \<open>backend.rs and server.rs: subscriptions\<close>

record block_notification =
  bn_slot :: u64
  bn_parent_slot :: u64
  bn_signatures :: "(sigbytes \<times> string option) list"
  bn_accounts :: "(pubkey \<times> stored_account option) list"

text \<open>What a committed block announces, when anybody listens.\<close>

definition block_notification_of ::
  "rpc_codec \<Rightarrow> nat \<Rightarrow> block \<Rightarrow> tx_error executed_meta list \<Rightarrow> account_write list \<Rightarrow> block_notification option" where
  "block_notification_of cod receivers b metas ws =
    (if receivers > 0
     then Some \<lparr> bn_slot = slot (header b), bn_parent_slot = saturating_sub (slot (header b)) 1,
       bn_signatures = List.map_filter
         (\<lambda>(tx, m). map_option (\<lambda>sig. (sig, map_option (debug_tx_error cod) (status m))) (first (signatures tx)))
         (zip (transactions b) metas),
       bn_accounts = ws \<rparr>
     else None)"

text \<open>
  What the channel of a subscriber yields, with whether the client is still there to be sent to;
  the loops return what they have sent, oldest first.
\<close>

datatype recv = Received block_notification | Lagged u64 | Closed

definition slot_payload :: "block_notification \<Rightarrow> json" where
  "slot_payload nt =
    JObj [(''slot'', ju64 (bn_slot nt)), (''parent'', ju64 (bn_parent_slot nt)), (''root'', ju64 (bn_slot nt))]"

fun slot_subscribe :: "(recv \<times> bool) list \<Rightarrow> json list" where
  "slot_subscribe [] = []"
| "slot_subscribe ((Received nt, sent) # rs) = (if sent then slot_payload nt # slot_subscribe rs else [])"
| "slot_subscribe ((Lagged _, _) # rs) = slot_subscribe rs"
| "slot_subscribe ((Closed, _) # rs) = []"

definition find_first :: "'k \<Rightarrow> ('k \<times> 'v) list \<Rightarrow> 'v option" where
  "find_first k xs = map_option snd (List.find (\<lambda>(k', _). k' = k) xs)"

definition signature_payload :: "u64 \<Rightarrow> json \<Rightarrow> json" where
  "signature_payload sl err = JObj [(''context'', JObj [(''slot'', ju64 sl)]), (''value'', JObj [(''err'', err)])]"

fun signature_loop :: "sigbytes \<Rightarrow> (recv \<times> bool) list \<Rightarrow> json list" where
  "signature_loop sig [] = []"
| "signature_loop sig ((Received nt, sent) # rs) =
    (case find_first sig (bn_signatures nt) of
       Some err \<Rightarrow> if sent then [signature_payload (bn_slot nt) (jnull_or JStr err)] else []
     | None \<Rightarrow> signature_loop sig rs)"
| "signature_loop sig ((Lagged _, _) # rs) = signature_loop sig rs"
| "signature_loop sig ((Closed, _) # rs) = []"

text \<open>The look into the store is at node \<open>n\<close>; the events are those after the channel is opened.\<close>

definition signature_subscribe ::
  "rpc_codec \<Rightarrow> node \<Rightarrow> json option \<Rightarrow> bool \<Rightarrow> (recv \<times> bool) list \<Rightarrow> rpc_error + json list" where
  "signature_subscribe cod n raw alive rs =
    (let ps = params_array (case raw of Some v \<Rightarrow> v | None \<Rightarrow> JNull)
     in case Option.bind (Option.bind (first ps) as_str) (signature_from_str cod) of
          None \<Rightarrow> Inl (invalid_params ''invalid signature'')
        | Some sig \<Rightarrow>
          if \<not> alive then Inr []
          else (case get_transaction (nd_store n) sig of
            Inr (Some (loc, _, m)) \<Rightarrow> Inr [signature_payload (loc_slot loc) (status_to_json cod (status m))]
          | _ \<Rightarrow> Inr (signature_loop sig rs)))"

fun account_loop :: "rpc_codec \<Rightarrow> pubkey \<Rightarrow> string \<Rightarrow> (recv \<times> bool) list \<Rightarrow> json list" where
  "account_loop cod pk encoding [] = []"
| "account_loop cod pk encoding ((Received nt, sent) # rs) =
    (case find_first pk (bn_accounts nt) of
       Some acc \<Rightarrow>
         (if sent then JObj [(''context'', JObj [(''slot'', ju64 (bn_slot nt))]),
              (''value'', jnull_or (\<lambda>a. encode_account cod a encoding) acc)] # account_loop cod pk encoding rs
          else [])
     | None \<Rightarrow> account_loop cod pk encoding rs)"
| "account_loop cod pk encoding ((Lagged _, _) # rs) = account_loop cod pk encoding rs"
| "account_loop cod pk encoding ((Closed, _) # rs) = []"

definition account_subscribe ::
  "rpc_codec \<Rightarrow> json option \<Rightarrow> bool \<Rightarrow> (recv \<times> bool) list \<Rightarrow> rpc_error + json list" where
  "account_subscribe cod raw alive rs =
    (let ps = params_array (case raw of Some v \<Rightarrow> v | None \<Rightarrow> JNull)
     in case Option.bind (Option.bind (first ps) as_str) (pubkey_from_str cod) of
          None \<Rightarrow> Inl (invalid_params ''invalid pubkey'')
        | Some pk \<Rightarrow> if \<not> alive then Inr [] else Inr (account_loop cod pk (config_str ps ''encoding'' ''base64'') rs))"


section \<open>Sessions and samples\<close>

text \<open>A client's calls one after another, with the time of each; unknown methods leave the node alone.\<close>

fun rpc_session ::
  "('b, 'f) node_env \<Rightarrow> rpc_codec \<Rightarrow> bool \<Rightarrow> (u64 \<times> string \<times> json option) list \<Rightarrow> node \<Rightarrow> node" where
  "rpc_session env cod faucet_on [] n = n"
| "rpc_session env cod faucet_on ((now, name, raw) # calls) n =
    rpc_session env cod faucet_on calls
      (case rpc_call env cod faucet_on now n name raw of None \<Rightarrow> n | Some (n', _) \<Rightarrow> n')"

definition writes_node :: "string \<Rightarrow> bool" where
  "writes_node name \<longleftrightarrow> name = ''sendTransaction'' \<or> name = ''requestAirdrop''"

text \<open>The parameters with which clients send an encoded transaction.\<close>

definition client_params :: "('b, 'f) node_env \<Rightarrow> rpc_codec \<Rightarrow> transaction \<Rightarrow> json list" where
  "client_params env cod tx =
    [JArr [JStr (b58_encode cod (ser_tx env tx))],
     JArr [JStr (b58_encode cod (ser_tx env tx)), JObj [(''encoding'', JStr ''base58'')]],
     JArr [JStr (b64_encode cod (ser_tx env tx)), JObj [(''encoding'', JStr ''base64'')]]]"

text \<open>The base encodings, and the text forms of keys and signatures, lose nothing.\<close>

definition codec_ok :: "rpc_codec \<Rightarrow> bool" where
  "codec_ok cod \<longleftrightarrow> (\<forall>bs. b58_decode cod (b58_encode cod bs) = Some bs \<and> b64_decode cod (b64_encode cod bs) = Some bs
    \<and> (length bs = 32 \<longrightarrow> pubkey_from_str cod (pubkey_to_string cod bs) = Some bs)
    \<and> (length bs = 64 \<longrightarrow> signature_from_str cod (signature_to_string cod bs) = Some bs))"

definition sample_text :: "bytes \<Rightarrow> string" where
  "sample_text bs = map (\<lambda>b. char_of (unat b)) bs"

definition sample_untext :: "string \<Rightarrow> bytes option" where
  "sample_untext s = Some (map (\<lambda>c. of_nat (of_char c)) s)"

definition sample_codec :: rpc_codec where
  "sample_codec = \<lparr> b58_encode = sample_text, b58_decode = sample_untext, b64_encode = sample_text,
    b64_decode = sample_untext, pubkey_to_string = sample_text, pubkey_from_str = sample_untext,
    signature_to_string = sample_text, signature_from_str = sample_untext, de_tx = (\<lambda>_. Some chain_tx),
    rent_minimum = (\<lambda>_. 890880), debug_tx_error = (\<lambda>_. ''error''), display_store_error = (\<lambda>_. ''store'') \<rparr>"


section \<open>The shapes of the answers\<close>

definition in_context :: "shape \<Rightarrow> shape" where
  "in_context t = Fields [(''context'', Fields [(''apiVersion'', Exactly ''3.1.14''), (''slot'', U64)]), (''value'', t)]"

definition account_shape :: shape where
  "account_shape = Fields [(''lamports'', U64), (''owner'', Text), (''data'', Either Text (Tuple [Text, Exactly ''base64''])),
    (''executable'', Boolean), (''rentEpoch'', U64), (''space'', U64)]"

definition status_shape :: shape where
  "status_shape = OrNull (Fields [(''err'', Text)])"

definition keyed_shape :: shape where
  "keyed_shape = Fields [(''pubkey'', Text), (''account'', account_shape)]"

definition entry_shape :: shape where
  "entry_shape = Fields [(''signature'', Text), (''slot'', U64), (''err'', status_shape), (''memo'', Null),
    (''blockTime'', Null), (''confirmationStatus'', Exactly ''finalized'')]"

definition meta_shape :: shape where
  "meta_shape = Fields [(''err'', status_shape), (''fee'', U64), (''preBalances'', Many U64), (''postBalances'', Many U64),
    (''innerInstructions'', Many Anything), (''logMessages'', Many Text), (''preTokenBalances'', Many Anything),
    (''postTokenBalances'', Many Anything), (''rewards'', Many Anything), (''computeUnitsConsumed'', U64),
    (''loadedAddresses'', Fields [(''writable'', Many Text), (''readonly'', Many Text)]), (''accountKeys'', Many Text)]"

definition block_shape :: shape where
  "block_shape = Fields [(''blockhash'', Text), (''previousBlockhash'', Text), (''parentSlot'', U64), (''blockHeight'', U64),
    (''blockTime'', U64), (''stateRoot'', Text), (''signatures'', Many Text)]"

definition method_shapes :: "(string \<times> shape) list" where
  "method_shapes =
    [(''getHealth'', Exactly ''ok''),
     (''getVersion'', Fields [(''solana-core'', Text), (''feature-set'', U64)]),
     (''getSlot'', U64), (''getBlockHeight'', U64),
     (''getEpochInfo'', Fields [(''absoluteSlot'', U64), (''blockHeight'', U64), (''epoch'', U64), (''slotIndex'', U64),
       (''slotsInEpoch'', U64), (''transactionCount'', Null)]),
     (''getMinimumBalanceForRentExemption'', U64), (''getFeeForMessage'', in_context U64),
     (''getGenesisHash'', Text),
     (''getLatestBlockhash'', in_context (Fields [(''blockhash'', Text), (''lastValidBlockHeight'', U64)])),
     (''isBlockhashValid'', in_context Boolean), (''getBalance'', in_context U64),
     (''getAccountInfo'', in_context (OrNull account_shape)),
     (''getMultipleAccounts'', in_context (Many (OrNull account_shape))),
     (''getTokenAccountsByOwner'', in_context (Many keyed_shape)),
     (''getSignaturesForAddress'', Many entry_shape), (''getProgramAccounts'', Many keyed_shape),
     (''getTransaction'', OrNull (Fields [(''slot'', U64), (''blockTime'', Null),
       (''transaction'', Tuple [Text, Exactly ''base64'']), (''meta'', meta_shape)])),
     (''getSignatureStatuses'', in_context (Many (OrNull (Fields [(''slot'', U64), (''confirmations'', Null),
       (''err'', status_shape), (''status'', Either (Fields [(''Ok'', Null)]) (Fields [(''Err'', Text)])),
       (''confirmationStatus'', Exactly ''finalized'')])))),
     (''getBlock'', OrNull block_shape), (''sendTransaction'', Text),
     (''simulateTransaction'', in_context (Fields [(''err'', OrNull Text), (''logs'', Many Text), (''unitsConsumed'', U64),
       (''accounts'', Null), (''returnData'', Null)])),
     (''getWithdrawalProof'', Fields [(''stateRoot'', Text), (''bitmap'', Text), (''siblings'', Many Text)]),
     (''requestAirdrop'', Text)]"

definition error_codes :: "int set" where
  "error_codes = {- 32602, - 32603, - 32005}"

definition typed :: "shape \<Rightarrow> response \<Rightarrow> bool" where
  "typed t r = (case r of Inl e \<Rightarrow> code e \<in> error_codes | Inr v \<Rightarrow> has_shape v t)"


section \<open>Lemmas: shapes\<close>

lemma error_code_invalid [simp]: "code (invalid_params msg) \<in> error_codes"
  by (simp add: invalid_params_def error_codes_def)

lemma error_code_internal [simp]: "code (internal_error msg) \<in> error_codes"
  by (simp add: internal_error_def error_codes_def)

lemma error_code_health [simp]: "code \<lparr> code = - 32005, message = msg \<rparr> \<in> error_codes"
  by (simp add: error_codes_def)

lemma typed_simps [simp]: "typed t (Inr v) = has_shape v t" "typed t (Inl e) = (code e \<in> error_codes)"
  by (simp_all add: typed_def)

lemma typed_params: "(\<And>ps. typed t (body ps)) \<Longrightarrow> typed t (with_params raw body)"
  by (simp add: with_params_def split: option.split)

lemma parse_pubkey_code: "parse_pubkey cod v = Inl e \<Longrightarrow> code e \<in> error_codes"
  by (auto simp: parse_pubkey_def split: option.splits)

lemma parse_opt_signature_code: "parse_opt_signature cod cfg k = Inl e \<Longrightarrow> code e \<in> error_codes"
  by (auto simp: parse_opt_signature_def split: option.splits)

lemma decode_transaction_code: "decode_transaction cod v enc = Inl e \<Longrightarrow> code e \<in> error_codes"
  by (auto simp: decode_transaction_def Let_def split: option.splits if_splits)

lemma shape_context [simp]: "has_shape (with_context sl v) (in_context t) = has_shape v t"
  by (simp add: with_context_def in_context_def)

lemma shape_account [simp]: "has_shape (encode_account cod a enc) account_shape"
  by (simp add: encode_account_def account_shape_def encode_account_data_def)

lemma shape_maybe_account [simp]: "has_shape (jnull_or (\<lambda>a. encode_account cod a enc) x) (OrNull account_shape)"
  by (simp add: shape_jnull_or)

lemma shape_status [simp]: "has_shape (status_to_json cod st) status_shape"
  by (cases st) (simp_all add: status_to_json_def status_shape_def)

lemma shape_accounts [simp]: "has_shape (JArr (map (keyed_account cod enc) rows)) (Many keyed_shape)"
  by (simp add: shape_many keyed_account_def keyed_shape_def)

lemma shape_texts [simp]: "has_shape (JArr (map (JStr \<circ> f) xs)) (Many Text)" "has_shape (JArr (map JStr ys)) (Many Text)"
  by (simp_all add: shape_many)

lemma shape_numbers [simp]: "has_shape (JArr (map ju64 ws)) (Many U64)"
  by (simp add: shape_many)

lemma shape_meta [simp]: "has_shape (encode_meta cod m keys) meta_shape"
  by (simp add: encode_meta_def meta_shape_def)


lemma shape_signature_entry: "has_shape (signature_entry cod sig sl (signature_err cod n sig)) entry_shape"
proof -
  have "has_shape (jnull_or id (signature_err cod n sig)) status_shape"
    using shape_status [of cod] by (auto simp: signature_err_def Let_def status_shape_def split: option.split)
  then show ?thesis by (simp add: signature_entry_def entry_shape_def)
qed

lemma seconds_unsigned: "JNum (sint ((w :: u64) div 1000)) = ju64 (w div 1000)"
proof -
  have "uint (w div 1000) < 2 ^ 63" using uint_lt2p [of w] by (simp add: uint_div)
  then show ?thesis unfolding sint_uint ju64_def by (intro arg_cong [where f = JNum] signed_take_bit_int_eq_self) (simp_all add: order_trans [OF _ uint_ge_0])
qed

lemmas answer_defs =
  get_health_def get_version_def get_slot_def get_block_height_def get_epoch_info_def get_minimum_balance_def
  get_fee_for_message_def get_genesis_hash_def get_latest_blockhash_def rpc_is_blockhash_valid_def get_balance_def

lemma typed_simple:
  "typed (Exactly ''ok'') (get_health env now n)" "typed U64 (get_slot n)" "typed U64 (get_block_height n)"
  "typed U64 (get_minimum_balance cod raw)" "typed (in_context U64) (get_fee_for_message cod n raw)"
  "typed Text (get_genesis_hash cod n)" "typed (in_context Boolean) (rpc_is_blockhash_valid cod n raw)"
  "typed (in_context U64) (get_balance cod n raw)"
  by (auto simp: answer_defs parse_pubkey_code Let_def simp del: rpc_error.simps
      intro!: typed_params split: option.split sum.split)

lemma typed_accounts:
  "typed (in_context (OrNull account_shape)) (get_account_info cod n raw)"
  "typed (in_context (Many (OrNull account_shape))) (get_multiple_accounts cod n raw)"
  "typed (in_context (Many keyed_shape)) (get_token_accounts_by_owner cod n raw)"
  "typed (Many keyed_shape) (get_program_accounts cod n raw)"
proof -
  show "typed (in_context (OrNull account_shape)) (get_account_info cod n raw)"
    "typed (in_context (Many keyed_shape)) (get_token_accounts_by_owner cod n raw)"
    "typed (Many keyed_shape) (get_program_accounts cod n raw)"
    by (auto simp: get_account_info_def get_token_accounts_by_owner_def get_program_accounts_def
        parse_pubkey_code Let_def intro!: typed_params split: option.split sum.split)
  show "typed (in_context (Many (OrNull account_shape))) (get_multiple_accounts cod n raw)"
    by (auto simp: get_multiple_accounts_def Let_def dest!: try_map_error try_map_shape [where t = "OrNull account_shape"]
        intro!: typed_params parse_pubkey_code split: option.split sum.splits)
qed


lemma shape_signature_status:
  "has_shape (signature_status cod r) (Fields [(''slot'', U64), (''confirmations'', Null),
    (''err'', status_shape), (''status'', Either (Fields [(''Ok'', Null)]) (Fields [(''Err'', Text)])),
    (''confirmationStatus'', Exactly ''finalized'')])"
  by (auto simp: signature_status_def split: prod.split option.split)

lemma typed_transactions:
  "typed (Many entry_shape) (get_signatures_for_address cod n raw)"
  "typed (OrNull (Fields [(''slot'', U64), (''blockTime'', Null),
    (''transaction'', Tuple [Text, Exactly ''base64'']), (''meta'', meta_shape)])) (rpc_get_transaction env cod n raw)"
  "typed (in_context (Many (OrNull (Fields [(''slot'', U64), (''confirmations'', Null),
    (''err'', status_shape), (''status'', Either (Fields [(''Ok'', Null)]) (Fields [(''Err'', Text)])),
    (''confirmationStatus'', Exactly ''finalized'')])))) (get_signature_statuses cod n raw)"
  "typed (OrNull block_shape) (rpc_get_block env cod n raw)"
proof -
  show "typed (Many entry_shape) (get_signatures_for_address cod n raw)"
    by (auto simp: get_signatures_for_address_def Let_def parse_pubkey_code parse_opt_signature_code shape_many
        shape_signature_entry intro!: typed_params split: sum.split)
  show "typed (OrNull block_shape) (rpc_get_block env cod n raw)"
    by (auto simp: rpc_get_block_def Let_def block_shape_def seconds_unsigned intro!: typed_params split: option.split)
  show "typed (OrNull (Fields [(''slot'', U64), (''blockTime'', Null),
    (''transaction'', Tuple [Text, Exactly ''base64'']), (''meta'', meta_shape)])) (rpc_get_transaction env cod n raw)"
    by (auto simp: rpc_get_transaction_def intro!: typed_params split: option.split sum.split)
  show "typed (in_context (Many (OrNull (Fields [(''slot'', U64), (''confirmations'', Null),
    (''err'', status_shape), (''status'', Either (Fields [(''Ok'', Null)]) (Fields [(''Err'', Text)])),
    (''confirmationStatus'', Exactly ''finalized'')])))) (get_signature_statuses cod n raw)" (is "typed (in_context (Many ?t)) _")
    by (auto simp: get_signature_statuses_def dest!: try_map_error try_map_shape [where t = ?t]
        intro!: typed_params shape_jnull_or shape_signature_status split: option.splits sum.splits)
qed

lemma typed_submitted: "typed Text (submitted_response cod r)"
  by (simp add: submitted_response_def split: sum.split)

lemma typed_backend:
  "typed Text (snd (send_transaction env cod n raw))"
  "typed (in_context (Fields [(''err'', OrNull Text), (''logs'', Many Text), (''unitsConsumed'', U64),
     (''accounts'', Null), (''returnData'', Null)])) (rpc_simulate_transaction env cod now n raw)"
  "typed (Fields [(''stateRoot'', Text), (''bitmap'', Text), (''siblings'', Many Text)]) (get_withdrawal_proof env cod n raw)"
  "typed Text (snd (rpc_request_airdrop env cod n raw))"
  by (auto simp: send_transaction_def rpc_simulate_transaction_def get_withdrawal_proof_def rpc_request_airdrop_def
      proof_response_def Let_def parse_pubkey_code decode_transaction_code typed_submitted
      intro!: typed_params shape_jnull_or split: option.split sum.split prod.split)

lemma typed_module:
  assumes "(name, h) \<in> set (build_module env cod now faucet_on)"
  shows "\<exists>t. map_of method_shapes name = Some t \<and> typed t (snd (h n raw))"
proof -
  have "list_all (\<lambda>(name, h). \<exists>t. map_of method_shapes name = Some t \<and> (\<forall>n raw. typed t (snd (h n raw))))
      (build_module env cod now faucet_on)"
    by (simp add: build_module_def method_shapes_def reading_def typed_simple typed_accounts typed_transactions typed_backend)
      (simp add: get_version_def get_epoch_info_def get_latest_blockhash_def Let_def split: prod.split)
  with assms show ?thesis by (fastforce simp: list_all_iff)
qed


lemma rpc_call_handler:
  "rpc_call env cod faucet_on now n name raw = Some res
    \<Longrightarrow> \<exists>h. (name, h) \<in> set (build_module env cod now faucet_on) \<and> res = h n raw"
  by (auto simp: rpc_call_def dest: map_of_SomeD)


section \<open>Lemmas: calls and sessions\<close>

lemma module_effect:
  assumes "(name, h) \<in> set (build_module env cod now faucet_on)"
  shows "fst (h n raw) = n \<or> writes_node name \<and> (\<exists>tx. fst (h n raw) = fst (submit_transaction env n tx))
    \<or> faucet_on \<and> writes_node name \<and> (\<exists>pk amount. fst (h n raw) = fst (request_airdrop env n pk amount))"
    (is "?effect name h")
proof -
  have "fst (send_transaction env cod n raw) = n \<or> (\<exists>tx. fst (send_transaction env cod n raw) = fst (submit_transaction env n tx))"
    by (auto simp: send_transaction_def Let_def split: option.split sum.split prod.split) (metis fst_conv)
  moreover have "fst (rpc_request_airdrop env cod n raw) = n
      \<or> (\<exists>pk amount. fst (rpc_request_airdrop env cod n raw) = fst (request_airdrop env n pk amount))"
    by (auto simp: rpc_request_airdrop_def Let_def split: option.split sum.split prod.split) (metis fst_conv)
  ultimately have "list_all (\<lambda>(name, h). ?effect name h) (build_module env cod now faucet_on)"
    by (simp add: build_module_def reading_def writes_node_def) blast
  with assms show ?thesis by (auto simp: list_all_iff)
qed

text \<open>
  The interface the server has to the node, as far as invariants go: what submission and the faucet
  keep, every call keeps, and so does every session.
\<close>

locale rpc_backend =
  fixes env :: "('b, 'f) node_env" and safe :: "node \<Rightarrow> bool"
  assumes submit_safe: "safe n \<Longrightarrow> safe (fst (submit_transaction env n tx))"
    and airdrop_safe: "safe n \<Longrightarrow> safe (fst (request_airdrop env n pk amount))"
begin

lemma call_safe:
  assumes "safe n" and "rpc_call env cod faucet_on now n name raw = Some (n', r)"
  shows "safe n'"
proof -
  obtain h where h: "(name, h) \<in> set (build_module env cod now faucet_on)" "n' = fst (h n raw)"
    using rpc_call_handler [OF assms(2)] by (metis fst_conv)
  then show ?thesis using module_effect [OF h(1), of n raw] assms(1) submit_safe airdrop_safe by auto
qed

lemma session_safe: "safe n \<Longrightarrow> safe (rpc_session env cod faucet_on calls n)"
proof (induction calls arbitrary: n)
  case (Cons c calls)
  obtain now name raw where c: "c = (now, name, raw)" by (cases c)
  have "safe (case rpc_call env cod faucet_on now n name raw of None \<Rightarrow> n | Some (n', _) \<Rightarrow> n')"
    using Cons.prems call_safe by (auto split: option.split)
  from Cons.IH [OF this] show ?case by (simp add: c)
qed simp

end

interpretation reach: rpc_backend env "node_reach env g" for env :: "('b, 'f) node_env" and g
  by unfold_locales (auto intro: node_reach.intros)

interpretation serial: rpc_backend env "node_serial env g" for env :: "('b, 'f) node_env" and g
  by unfold_locales (auto intro: node_serial.intros)

interpretation core: rpc_backend env "\<lambda>n'. core n' = core n" for env :: "('b, 'f) node_env" and n
  by unfold_locales simp_all

lemma reading_session:
  "list_all (\<lambda>(_, name, _). \<not> writes_node name) calls \<Longrightarrow> rpc_session env cod faucet_on calls n = n"
proof (induction calls arbitrary: n)
  case (Cons c calls)
  obtain now name raw where c: "c = (now, name, raw)" by (cases c)
  have "fst res = n" if "rpc_call env cod faucet_on now n name raw = Some res" for res
    using rpc_call_handler [OF that] module_effect [of name _ env cod now faucet_on n raw] Cons.prems
    by (auto simp: c)
  then have "(case rpc_call env cod faucet_on now n name raw of None \<Rightarrow> n | Some (n', _) \<Rightarrow> n') = n"
    by (fastforce split: option.split)
  with Cons show ?case by (auto simp: c)
qed simp


lemma sample_untext_text [simp]: "sample_untext (sample_text bs) = Some bs"
proof -
  have "of_nat (of_char (char_of (unat b) :: char)) = (b :: u8)" for b
    using unat_bound [of b] by (simp add: mod_less)
  then show ?thesis by (simp add: sample_untext_def sample_text_def comp_def)
qed

lemma sample_codec_ok: "codec_ok sample_codec"
  by (simp add: codec_ok_def sample_codec_def)

lemma decode_client:
  assumes "codec_ok cod" and "de_tx cod (ser_tx env tx) = Some tx" and "v \<in> set (client_params env cod tx)"
  shows "decode_transaction cod (first (params_array v)) (config_str (params_array v) ''encoding'' ''base58'') = Inr tx"
  using assms by (auto simp: client_params_def decode_transaction_def config_str_def codec_ok_def get_at_def)

lemma submit_accepted:
  assumes "submit_transaction env n tx = (n', Inr sig)" and "mempool_inv (nd_mempool n)"
  shows "first (signatures tx) = Some sig" and "verify_sigs (vm env) tx" and "is_valid (tip_queue n) (recent_blockhash tx)"
    and "get_transaction (nd_store n) sig = Inr None" and "\<exists>p\<in>set (queue (nd_mempool n')). first (signatures p) = Some sig"
proof -
  obtain mp r where push: "push (nd_mempool n) tx = (mp, r)" by (cases "push (nd_mempool n) tx")
  have adm: "admit env n tx = Inr sig" and n': "n' = n\<lparr> nd_mempool := mp \<rparr>" and r: "r = Inl Duplicate \<or> (\<exists>s. r = Inr s)"
    using assms(1)
    by (auto simp: submit_transaction_def push Let_def split: sum.splits mempool_error.splits)
  show sig: "first (signatures tx) = Some sig" and "verify_sigs (vm env) tx" "is_valid (tip_queue n) (recent_blockhash tx)"
    "get_transaction (nd_store n) sig = Inr None"
    using adm by (auto simp: admit_def split: option.splits if_splits sum.splits)
  have "\<exists>p\<in>set (queue mp). first (signatures p) = Some sig"
  proof (cases rule: push_cases [of tx "nd_mempool n"])
    case (duplicate sig')
    then have "sig \<in> first_sig ` set (queue (nd_mempool n))" "mp = nd_mempool n"
      using sig push assms(2) by (auto simp: mempool_inv_def tracks_def)
    moreover have "signatures p \<noteq> []" if "p \<in> set (queue (nd_mempool n))" for p
      using assms(2) that by (auto simp: mempool_inv_def tracks_def admissible_def)
    ultimately show ?thesis by (auto simp: first_sig_def first_Some neq_Nil_conv) (metis list.sel(1))
  qed (use push r sig in auto)
  then show "\<exists>p\<in>set (queue (nd_mempool n')). first (signatures p) = Some sig" by (simp add: n')
qed


section \<open>Properties\<close>

text \<open>
  C8: Every answer of the server is typed: a call of any registered method, with any parameters, at
  any node, either fails with one of the three error codes the server uses (invalid parameters,
  internal error, unhealthy node) or returns a value of the shape fixed for that method, with its
  fields in place, its numbers in the range of \<^verbatim>\<open>u64\<close> and its optional parts null or of their shape.
\<close>

theorem rpc_responses_typed:
  assumes "rpc_call env cod faucet_on now n name raw = Some (n', r)"
  shows "\<exists>t. map_of method_shapes name = Some t
    \<and> (case r of Inl e \<Rightarrow> code e \<in> {- 32602, - 32603, - 32005} | Inr v \<Rightarrow> has_shape v t)"
proof -
  obtain h where h: "(name, h) \<in> set (build_module env cod now faucet_on)" "r = snd (h n raw)"
    using rpc_call_handler [OF assms] by (metis snd_conv)
  from typed_module [OF h(1), of n raw] show ?thesis unfolding h(2) typed_def error_codes_def .
qed

theorem rpc_responses_typed_witness:
  "\<exists>n' r. rpc_call chain_env sample_codec False 5 (projr (node_new chain_env store_open chain_genesis 0)) ''getSlot'' None
      = Some (n', r) \<and> (case r of Inl e \<Rightarrow> code e \<in> {- 32602, - 32603, - 32005} | Inr v \<Rightarrow> has_shape v U64)"
proof -
  obtain n' r where call: "rpc_call chain_env sample_codec False 5 (projr (node_new chain_env store_open chain_genesis 0))
      ''getSlot'' None = Some (n', r)"
    by (simp add: rpc_call_def build_module_def reading_def)
  from rpc_responses_typed [OF call] show ?thesis
    unfolding call by (simp add: method_shapes_def)
qed

text \<open>
  C17: Clients cannot disturb the chain through the server: whatever calls they make in whatever
  order, the node stays one that the node's own operations reach (serially, when it was), its store,
  its tip, its recent blockhashes and its withdrawal tree are untouched, and a session without
  \<^verbatim>\<open>sendTransaction\<close> and \<^verbatim>\<open>requestAirdrop\<close> changes nothing at all.
\<close>

theorem rpc_sessions_safe:
  assumes "node_serial env g n" and "rpc_session env cod faucet_on calls n = n'"
  shows "node_serial env g n' \<and> node_reach env g n' \<and> nd_store n' = nd_store n \<and> tip_queue n' = tip_queue n
    \<and> tip_slot n' = tip_slot n \<and> tip_blockhash n' = tip_blockhash n \<and> withdrawals n' = withdrawals n
    \<and> (list_all (\<lambda>(_, name, _). \<not> writes_node name) calls \<longrightarrow> n' = n)"
proof -
  have "node_serial env g n'" using serial.session_safe [OF assms(1)] assms(2) by blast
  moreover have "core n' = core n" using core.session_safe [OF refl] assms(2) by blast
  moreover have "n' = n" if "list_all (\<lambda>(_, name, _). \<not> writes_node name) calls"
    using reading_session [OF that] assms(2) by blast
  ultimately show ?thesis using node_serial_reach by (auto simp: core_def)
qed

theorem rpc_sessions_safe_witness:
  "\<exists>n. node_new chain_env store_open chain_genesis 0 = Inr n
    \<and> rpc_session chain_env sample_codec True [(1, ''getSlot'', None), (2, ''getBalance'', Some (JStr ''a''))] n = n"
proof -
  obtain n where n: "node_new chain_env store_open chain_genesis 0 = Inr n" by (rule chain_start)
  from rpc_sessions_safe [OF node_serial.serial_started [OF n], of sample_codec True
      "[(1, ''getSlot'', None), (2, ''getBalance'', Some (JStr ''a''))]"] show ?thesis
    by (simp add: n writes_node_def del: rpc_session.simps)
qed

text \<open>
  C18: \<^verbatim>\<open>sendTransaction\<close> means what it answers: when a client sends an encoded transaction (base58 by
  default or by request, or base64) to a serially reached node and gets a signature back, it is the
  transaction's own first signature, the transaction's signatures verify, its blockhash is recent,
  it is not yet in the chain, and a transaction with that signature now waits in the mempool.
\<close>

theorem sent_transaction_pends:
  assumes "node_serial env g n" and "opt_max_block_transactions (options env) \<le> 2 ^ 32"
    and "codec_ok cod" and "de_tx cod (ser_tx env tx) = Some tx" and "v \<in> set (client_params env cod tx)"
    and "rpc_call env cod faucet_on now n ''sendTransaction'' (Some v) = Some (n', Inr answer)"
  shows "\<exists>sig. first (signatures tx) = Some sig \<and> answer = JStr (signature_to_string cod sig)
    \<and> verify_sigs (vm env) tx \<and> is_valid (tip_queue n) (recent_blockhash tx)
    \<and> get_transaction (nd_store n) sig = Inr None
    \<and> (\<exists>p\<in>set (queue (nd_mempool n')). first (signatures p) = Some sig)"
proof -
  have "send_transaction env cod n (Some v) = (n', Inr answer)"
    using assms(6) by (simp add: rpc_call_def build_module_def)
  then obtain sig where sig: "submit_transaction env n tx = (n', Inr sig)" "answer = JStr (signature_to_string cod sig)"
    using decode_client [OF assms(3-5)]
    by (auto simp: send_transaction_def submitted_response_def Let_def split: prod.splits sum.splits)
  have "mempool_inv (nd_mempool n)" using node_serial_ok [OF assms(1,2)] by (simp add: serial_ok_def pool_fresh_def)
  from submit_accepted [OF sig(1) this] sig(2) show ?thesis by blast
qed

theorem sent_transaction_pends_witness:
  "\<exists>n n' answer. node_new chain_env store_open chain_genesis 0 = Inr n
    \<and> rpc_call chain_env sample_codec False 5 n ''sendTransaction'' (Some (hd (client_params chain_env sample_codec chain_tx)))
        = Some (n', Inr answer)
    \<and> (\<exists>p\<in>set (queue (nd_mempool n')). first (signatures p) = first (signatures chain_tx))"
proof -
  let ?v = "hd (client_params chain_env sample_codec chain_tx)"
  obtain n where n: "node_new chain_env store_open chain_genesis 0 = Inr n"
    "tip_queue n = register (the (with_capacity BLOCKHASH_QUEUE_CAPACITY)) 0 (genesis_hash pad_hash chain_genesis)"
    "nd_mempool n = mempool_new 10000 128" "tx_loc (nd_store n) = Map.empty"
    by (rule chain_start)
  have hyps: "opt_max_block_transactions (options chain_env) \<le> 2 ^ 32"
      "de_tx sample_codec (ser_tx chain_env chain_tx) = Some chain_tx" "?v \<in> set (client_params chain_env sample_codec chain_tx)"
    by (simp_all add: chain_env_def node_options_default_def sample_codec_def client_params_def)
  obtain n' where "submit_transaction chain_env n chain_tx = (n', Inr [5])"
    using chain_submit(1) [OF n(2-4)] by (cases "submit_transaction chain_env n chain_tx") auto
  then have "send_transaction chain_env sample_codec n (Some ?v) = (n', Inr (JStr (sample_text [5])))"
    using decode_client [OF sample_codec_ok hyps(2,3)]
    by (simp add: send_transaction_def submitted_response_def) (simp add: sample_codec_def)
  then have call: "rpc_call chain_env sample_codec False 5 n ''sendTransaction'' (Some ?v) = Some (n', Inr (JStr (sample_text [5])))"
    by (simp add: rpc_call_def build_module_def)
  obtain sig p where "first (signatures chain_tx) = Some sig" "p \<in> set (queue (nd_mempool n'))" "first (signatures p) = Some sig"
    using sent_transaction_pends [OF node_serial.serial_started [OF n(1)] hyps(1) sample_codec_ok hyps(2,3) call] by blast
  then show ?thesis using n(1) call
    by (intro exI [of _ n] exI [of _ n'] exI [of _ "JStr (sample_text [5])"] conjI bexI [of _ p]) simp_all
qed

end
