(* ===== verification/Rpc_History.thy ===== *)
theory Rpc_History
  imports Rpc_Server
begin

text \<open>
  What a client learns about transactions over time: the pages of \<^verbatim>\<open>getSignaturesForAddress\<close>, which are
  cut by the signature of the last entry of the page before, and the notifications of
  \<^verbatim>\<open>signatureSubscribe\<close>. The stores are those whose blocks never repeat a signature, which is what the
  serial runs of a node build.
\<close>

section \<open>Stores without repeated signatures\<close>

inductive indexed_reach :: "hasher \<Rightarrow> pubkey set \<Rightarrow> tx_error store \<Rightarrow> bool" for b3 K where
  indexed_opened: "indexed_reach b3 K store_open"
| indexed_genesis: "indexed_reach b3 K s \<Longrightarrow> fst ` set (genesis_writes g extra) \<subseteq> K \<Longrightarrow>
    initialize_genesis b3 s g extra = Inr (s', root) \<Longrightarrow> indexed_reach b3 K s'"
| indexed_commit: "indexed_reach b3 K s \<Longrightarrow> fst ` set ws \<subseteq> K \<Longrightarrow> wf_body b \<Longrightarrow>
    distinct (map first_sig (transactions b)) \<Longrightarrow> (\<And>tx. tx \<in> set (transactions b) \<Longrightarrow> tx_loc s (first_sig tx) = None) \<Longrightarrow>
    commit_block b3 s b metas ws (prepare_state_update b3 s (leaf_updates b3 ws)) q nulls = Inr s' \<Longrightarrow>
    indexed_reach b3 K s'"
| indexed_root: "indexed_reach b3 K s \<Longrightarrow> indexed_reach b3 K (set_withdrawals_root s r)"

text \<open>The address index and the locators agree.\<close>

definition rows_agree :: "'e store \<Rightarrow> bool" where
  "rows_agree s \<longleftrightarrow> (\<forall>a sl ix sig. length a = 32 \<longrightarrow> RBT.lookup (addr_sigs s) (addr_sig_key a sl ix) = Some sig
    \<longrightarrow> tx_loc s sig = Some \<lparr> loc_slot = sl, loc_index = ix \<rparr>)"

definition page_request :: "string \<Rightarrow> u64 \<Rightarrow> string option \<Rightarrow> json" where
  "page_request address limit before =
    JArr [JStr address, JObj ((''limit'', ju64 limit) # (case before of None \<Rightarrow> [] | Some s \<Rightarrow> [(''before'', JStr s)]))]"

definition page_response :: "rpc_codec \<Rightarrow> node \<Rightarrow> (sigbytes \<times> u64 \<times> u32) list \<Rightarrow> response" where
  "page_response cod n rows = Inr (JArr (map (\<lambda>(sig, sl, _). signature_entry cod sig sl (signature_err cod n sig)) rows))"

text \<open>A block with two transactions of one account.\<close>

definition history_key :: pubkey where
  "history_key = replicate 32 3"

definition history_block :: block where
  "history_block = sample_block\<lparr> transactions := [sample_tx\<lparr> signatures := [[7]], account_keys := [history_key] \<rparr>,
    sample_tx\<lparr> signatures := [[8]], account_keys := [history_key] \<rparr>] \<rparr>"

definition history_meta :: "tx_error executed_meta" where
  "history_meta = \<lparr> status = None, fee = 5000, compute_units_consumed = 0, log_messages = [],
    pre_balances = [], post_balances = [] \<rparr>"

definition history_commit :: "store_error + tx_error store" where
  "history_commit = commit_block pad_hash store_open history_block [history_meta, history_meta] []
    (prepare_state_update pad_hash (store_open :: tx_error store) []) sample_queue []"

definition history_node :: "node \<Rightarrow> node" where
  "history_node n = n\<lparr> nd_store := projr history_commit \<rparr>"

text \<open>An event that leaves a subscription to a signature waiting.\<close>

fun keeps_waiting :: "sigbytes \<Rightarrow> recv \<Rightarrow> bool" where
  "keeps_waiting sig (Received nt) = (sig \<notin> fst ` set (bn_signatures nt))"
| "keeps_waiting sig (Lagged k) = True"
| "keeps_waiting sig Closed = False"


section \<open>Lemmas: the address index\<close>

lemma indexed_reach_reachable: "indexed_reach b3 K s \<Longrightarrow> reachable b3 K s"
  by (induction rule: indexed_reach.induct) (blast intro: reachable.intros)+

lemma addr_sig_key_inj:
  assumes "length a = 32" and "length a' = 32" and "addr_sig_key a sl ix = addr_sig_key a' sl' ix'"
  shows "a = a' \<and> sl = sl' \<and> ix = ix'"
  using assms
  by (metis addr_sig_key_less less_linear less_irrefl)

lemma fold_insert_lookup_value:
  "RBT.lookup (fold (\<lambda>x t. RBT.insert (f x) sig t) xs t) k = Some v \<Longrightarrow>
    RBT.lookup t k = Some v \<or> k \<in> f ` set xs \<and> v = sig"
proof (induction xs arbitrary: t)
  case (Cons x xs)
  from Cons.IH [of "RBT.insert (f x) sig t"] Cons.prems show ?case
    by (auto split: if_splits)
qed simp

lemma index_one_rows:
  assumes "rows_agree s" and "tx_loc s sig = None" and "\<forall>k\<in>set (account_keys tx). length k = 32"
  shows "rows_agree (index_one sl i tx m sig s)"
  unfolding rows_agree_def
proof (intro allI impI)
  fix a sl' ix' sig'
  assume a: "length a = 32" and
    row: "RBT.lookup (addr_sigs (index_one sl i tx m sig s)) (addr_sig_key a sl' ix') = Some sig'"
  have "RBT.lookup (addr_sigs s) (addr_sig_key a sl' ix') = Some sig' \<or> sl' = sl \<and> ix' = of_nat i \<and> sig' = sig"
    using fold_insert_lookup_value [OF row [unfolded index_one_def, simplified]] assms(3) a
    by (auto dest: addr_sig_key_inj)
  then show "tx_loc (index_one sl i tx m sig s) sig' = Some \<lparr> loc_slot = sl', loc_index = ix' \<rparr>"
    using assms(1,2) a by (auto simp: index_one_def rows_agree_def)
qed

lemma index_transactions_agree:
  assumes "index_transactions sl i ps s = Some s'" and "rows_agree s" and "distinct (map (first_sig \<circ> fst) ps)"
    and "\<forall>p\<in>set ps. tx_loc s (first_sig (fst p)) = None \<and> (\<forall>k\<in>set (account_keys (fst p)). length k = 32)"
  shows "rows_agree s'"
  using assms
proof (induction ps arbitrary: i s)
  case (Cons p ps)
  obtain tx m where p: "p = (tx, m)" by (cases p)
  obtain sig where sig: "first (signatures tx) = Some sig"
    and step: "index_transactions sl (Suc i) ps (index_one sl i tx m sig s) = Some s'"
    using Cons.prems(1) by (auto simp: p split: option.splits)
  have s: "first_sig tx = sig" using sig by (rule first_sig_eq)
  have rows: "rows_agree (index_one sl i tx m sig s)"
    by (rule index_one_rows) (use Cons.prems p s in auto)
  have "first_sig (fst p) \<noteq> sig" if "p \<in> set ps" for p
    using Cons.prems(3) that by (force simp: p s)
  then have "\<forall>p\<in>set ps. tx_loc (index_one sl i tx m sig s) (first_sig (fst p)) = None
      \<and> (\<forall>k\<in>set (account_keys (fst p)). length k = 32)"
    using Cons.prems(4) by (simp add: index_one_def)
  from Cons.IH [OF step rows _ this] Cons.prems(3) show ?case by simp
qed simp

lemma indexed_reach_rows: "indexed_reach b3 K s \<Longrightarrow> rows_agree s"
proof (induction rule: indexed_reach.induct)
  case indexed_opened
  show ?case by (simp add: rows_agree_def store_open_def)
next
  case (indexed_genesis s g extra s' root)
  then show ?case using initialize_genesis_other [OF indexed_genesis.hyps(3)] by (simp add: rows_agree_def)
next
  case (indexed_commit s ws b metas q nulls s')
  have fresh: "\<forall>p\<in>set (zip (transactions b) metas). tx_loc s (first_sig (fst p)) = None
      \<and> (\<forall>k\<in>set (account_keys (fst p)). length k = 32)"
    using indexed_commit.hyps(3,5) by (auto simp: wf_body_def dest!: set_zip_leftD)
  have "distinct (map first_sig (map fst (zip (transactions b) metas)))"
    using indexed_commit.hyps(4) by (simp add: map_fst_zip_take take_map [symmetric] distinct_take)
  then have dist: "distinct (map (first_sig \<circ> fst) (zip (transactions b) metas))" by simp
  from indexed_commit.hyps(6) show ?case
  proof (rule commit_block_Inr)
    fix s2
    assume "index_transactions (slot (header b)) 0 (zip (transactions b) metas)
      (s\<lparr> accounts := fold write_account ws (accounts s),
          smt_nodes := write_smt_nodes b3 (smt_nodes s) (prepare_state_update b3 s (leaf_updates b3 ws)),
          blocks := RBT.insert (slot (header b)) b (blocks s) \<rparr>) = Some s2"
    from index_transactions_agree [OF this _ dist] indexed_commit.IH fresh have "rows_agree s2"
      by (simp add: rows_agree_def)
    moreover assume "s' = s2\<lparr> nullifiers := fold (\<lambda>n t. t(n \<mapsto> slot (header b))) nulls (nullifiers s2),
      meta_latest_slot := Some (slot (header b)),
      meta_state_root := Some (new_root (prepare_state_update b3 s (leaf_updates b3 ws))),
      meta_blockhash_queue := Some (capacity q, entries q) \<rparr>"
    ultimately show "rows_agree s'" by (simp add: rows_agree_def)
  qed
next
  case (indexed_root s r)
  then show ?case by (simp add: rows_agree_def set_withdrawals_root_def)
qed


section \<open>Lemmas: pages\<close>

lemma newer_trans: "newer x y \<Longrightarrow> newer y z \<Longrightarrow> newer x z"
  by (auto simp: newer_def split: prod.splits)

lemma newer_irrefl: "\<not> newer x x"
  by (auto simp: newer_def split: prod.splits)

lemma newer_sorted_unique:
  "sorted_wrt newer xs \<Longrightarrow> sorted_wrt newer ys \<Longrightarrow> set xs = set ys \<Longrightarrow> xs = ys"
proof (induction xs arbitrary: ys)
  case (Cons x xs)
  then obtain y ys' where ys: "ys = y # ys'" by (cases ys) auto
  have "x = y"
  proof (rule ccontr)
    assume "x \<noteq> y"
    then have "newer x y" "newer y x" using Cons.prems by (auto simp: ys)
    then show False using newer_trans newer_irrefl by blast
  qed
  moreover have "x \<notin> set xs" "y \<notin> set ys'"
    using Cons.prems(1,2) newer_irrefl unfolding ys by (metis sorted_wrt.simps(2))+
  ultimately have "set xs = set ys'" using Cons.prems(3) by (auto simp: ys)
  with Cons \<open>x = y\<close> show ?case by (simp add: ys)
qed simp

lemma older_rows:
  assumes "sorted_wrt newer rows" and "i < length rows" and "rows ! i = (sig, sl, ix)"
  shows "set (drop (Suc i) rows) = {r \<in> set rows. older (Some (sl, ix)) (fst (snd r)) (snd (snd r))}"
proof -
  have split: "rows = take i rows @ rows ! i # drop (Suc i) rows" using assms(2) by (rule id_take_nth_drop)
  have older: "older (Some (sl, ix)) (fst (snd r)) (snd (snd r)) \<longleftrightarrow> newer (rows ! i) r" for r
    by (auto simp: older_def newer_def assms(3) split: prod.splits)
  have "sorted_wrt newer (take i rows @ rows ! i # drop (Suc i) rows)" using assms(1) split by simp
  then have "\<forall>r\<in>set (take i rows). newer r (rows ! i)" "\<forall>r\<in>set (drop (Suc i) rows). newer (rows ! i) r"
    by (auto simp: sorted_wrt_append)
  moreover have "set rows = set (take i rows) \<union> {rows ! i} \<union> set (drop (Suc i) rows)"
    by (subst split) auto
  moreover have "\<not> newer (rows ! i) r" if "newer r (rows ! i)" for r using that newer_trans newer_irrefl by blast
  ultimately show ?thesis unfolding older using newer_irrefl by blast
qed

lemma page_of_rows:
  assumes "pubkey_from_str cod address = Some a" and "l \<le> 1000"
    and "case before of None \<Rightarrow> cursor = None
      | Some b \<Rightarrow> \<exists>sig loc tx m. signature_from_str cod b = Some sig \<and> found_tx n sig = Some (loc, tx, m)
          \<and> cursor = Some (loc_slot loc, loc_index loc)"
  shows "get_signatures_for_address cod n (Some (page_request address l before))
    = page_response cod n (signatures_for_address (nd_store n) a cursor (unat l))"
proof -
  have tw: "takeWhile (\<lambda>(_ :: sigbytes, _ :: u64, _ :: u32). True) xs = xs" for xs
    by (simp add: takeWhile_eq_all_conv case_prod_unfold)
  have "min l 1000 = l" using assms(2) by simp
  then show ?thesis
    using assms(1,3)
    by (auto simp: get_signatures_for_address_def with_params_def page_request_def page_response_def parse_pubkey_def
        parse_opt_signature_def get_at_def Let_def tw split: option.splits)
qed


lemma signature_row_found:
  assumes "indexed_reach b3 K (nd_store n)" and "length a = 32"
    and "RBT.lookup (addr_sigs (nd_store n)) (addr_sig_key a sl ix) = Some sig"
  shows "\<exists>tx m. found_tx n sig = Some (\<lparr> loc_slot = sl, loc_index = ix \<rparr>, tx, m)"
proof -
  have loc: "tx_loc (nd_store n) sig = Some \<lparr> loc_slot = sl, loc_index = ix \<rparr>"
    using indexed_reach_rows [OF assms(1)] assms(2,3) by (auto simp: rows_agree_def)
  moreover have "loc_ok (nd_store n)" using reachable_index_ok [OF indexed_reach_reachable [OF assms(1)]] by blast
  ultimately show ?thesis
    by (fastforce simp: found_tx_def get_transaction_def loc_ok_def get_at_def split: option.splits)
qed

lemma history_committed: "history_commit = Inr (projr history_commit)"
  and history_rows: "addr_sigs (projr history_commit)
    = RBT.insert (addr_sig_key history_key 1 1) [8] (RBT.insert (addr_sig_key history_key 1 0) [7] RBT.empty)"
  by (simp_all add: history_commit_def commit_block_def history_block_def sample_block_def sample_header_def
      prepare_state_update_def store_open_def index_one_def Let_def)

lemma history_reach: "indexed_reach pad_hash {} (nd_store (history_node n))"
  unfolding history_node_def node.select_convs node.update_convs
  by (rule indexed_reach.indexed_commit [OF indexed_reach.indexed_opened, where ws = "[]" and b = history_block
        and metas = "[history_meta, history_meta]" and q = sample_queue and nulls = "[]"])
    (use history_committed in \<open>auto simp: history_commit_def leaf_updates_def wf_body_def history_block_def history_key_def
      first_sig_def store_open_def\<close>)

section \<open>Lemmas: subscriptions\<close>

lemma find_first_None: "find_first k xs = None \<longleftrightarrow> k \<notin> fst ` set xs"
  by (force simp: find_first_def find_None_iff)

lemma find_first_distinct:
  assumes "distinct (map fst xs)" and "(k, v) \<in> set xs"
  shows "find_first k xs = Some v"
proof -
  obtain v' where v': "find_first k xs = Some v'" using assms(2) find_first_None [of k xs] by force
  then have "(k, v') \<in> set xs" by (auto simp: find_first_def find_Some_iff) (metis nth_mem)
  with assms v' show ?thesis by (simp add: eq_key_imp_eq_value)
qed

lemma signature_loop_waits:
  "(\<And>e. e \<in> fst ` set pre \<Longrightarrow> keeps_waiting sig e) \<Longrightarrow> signature_loop sig (pre @ rs) = signature_loop sig rs"
proof (induction pre)
  case (Cons p pre)
  obtain e sent where p: "p = (e, sent)" by (cases p)
  have "keeps_waiting sig e" using Cons.prems by (simp add: p)
  then have "signature_loop sig (p # pre @ rs) = signature_loop sig (pre @ rs)"
    by (cases e) (simp_all add: p find_first_None [THEN iffD2])
  with Cons show ?case by simp
qed simp

lemma signature_loop_once: "length (signature_loop sig rs) \<le> 1"
  by (induction sig rs rule: signature_loop.induct) (auto split: option.split)

text \<open>
  A signature that no delivered event mentions is never announced: this is so of a block that is
  committed after the look into the store and before the channel is opened, or whose message was
  skipped by a lagging receiver.
\<close>

lemma unmentioned_signature_silent:
  assumes "Option.bind (Option.bind (first (params_array v)) as_str) (signature_from_str cod) = Some sig"
    and "get_transaction (nd_store n) sig = Inr None"
    and "\<And>nt. Received nt \<in> fst ` set rs \<Longrightarrow> sig \<notin> fst ` set (bn_signatures nt)"
  shows "signature_subscribe cod n (Some v) True rs = Inr []"
proof -
  have "signature_loop sig rs = []"
    using assms(3)
  proof (induction sig rs rule: signature_loop.induct)
    case (2 sig nt sent rs)
    then show ?case by (simp add: find_first_None [THEN iffD2])
  qed simp_all
  then show ?thesis using assms(1,2) by (simp add: signature_subscribe_def)
qed

lemma announced_signatures:
  assumes "block_notification_of cod receivers b metas ws = Some nt" and "distinct (map first_sig (transactions b))"
    and "(tx, m) \<in> set (zip (transactions b) metas)" and "first (signatures tx) = Some sig"
    and "\<forall>tx\<in>set (transactions b). signatures tx \<noteq> []"
  shows "find_first sig (bn_signatures nt) = Some (map_option (debug_tx_error cod) (status m))"
    and "bn_slot nt = slot (header b)"
proof -
  let ?f = "\<lambda>(tx, m). map_option (\<lambda>sig. (sig, map_option (debug_tx_error cod) (status m))) (first (signatures tx))"
  have nt: "bn_signatures nt = List.map_filter ?f (zip (transactions b) metas)" "bn_slot nt = slot (header b)"
    using assms(1) by (auto simp: block_notification_of_def split: if_splits)
  have "?f p = Some (first_sig (fst p), map_option (debug_tx_error cod) (status (snd p)))"
    if "p \<in> set (zip (transactions b) metas)" for p
    using assms(5) that by (cases p) (auto simp: first_sig_def neq_Nil_conv dest!: set_zip_leftD)
  then have "List.map_filter ?f (zip (transactions b) metas)
      = map (\<lambda>p. (first_sig (fst p), map_option (debug_tx_error cod) (status (snd p)))) (zip (transactions b) metas)"
    by (simp add: map_filter_def cong: map_cong filter_cong)
  then have eq: "bn_signatures nt = map (\<lambda>p. (first_sig (fst p), map_option (debug_tx_error cod) (status (snd p))))
      (zip (transactions b) metas)" by (simp add: nt(1))
  have "distinct (map first_sig (map fst (zip (transactions b) metas)))"
    using assms(2) by (simp add: map_fst_zip_take take_map [symmetric] distinct_take)
  then have "distinct (map fst (bn_signatures nt))" by (simp add: eq comp_def)
  moreover have "(sig, map_option (debug_tx_error cod) (status m)) \<in> set (bn_signatures nt)"
    unfolding eq using assms(3) first_sig_eq [OF assms(4)] by force
  ultimately show "find_first sig (bn_signatures nt) = Some (map_option (debug_tx_error cod) (status m))"
    by (rule find_first_distinct)
  show "bn_slot nt = slot (header b)" by (rule nt(2))
qed


section \<open>Properties\<close>

text \<open>
  C19: The history of an address can be read page by page. In a store whose blocks never repeat a
  signature there is one list of all the recorded transactions of the address, newest first; the
  first page of \<^verbatim>\<open>getSignaturesForAddress\<close> is its beginning, and the page a client asks for with
  \<^verbatim>\<open>before\<close> set to any entry's signature starts right after that entry. So paging by the last
  signature of each page shows every transaction once, in order, and leaves none out.
\<close>

theorem signature_pages:
  assumes "indexed_reach b3 K (nd_store n)" and "length a = 32" and "pubkey_from_str cod address = Some a"
    and "\<And>k sig. RBT.lookup (addr_sigs (nd_store n)) k = Some sig
      \<Longrightarrow> signature_from_str cod (signature_to_string cod sig) = Some sig"
    and "0 < l" and "l \<le> 1000"
  shows "\<exists>rows. sorted_wrt newer rows
    \<and> set rows = {(sig, sl, ix). RBT.lookup (addr_sigs (nd_store n)) (addr_sig_key a sl ix) = Some sig \<and> older None sl ix}
    \<and> get_signatures_for_address cod n (Some (page_request address l None)) = page_response cod n (take (unat l) rows)
    \<and> (\<forall>i<length rows. get_signatures_for_address cod n
          (Some (page_request address l (Some (signature_to_string cod (fst (rows ! i))))))
        = page_response cod n (take (unat l) (drop (Suc i) rows)))"
proof -
  note spec = signatures_for_address_spec [OF assms(2) reachable_addr_keys [OF indexed_reach_reachable [OF assms(1)]]]
  have max: "max (unat l) 1 = unat l" using assms(5) by (simp add: word_less_nat_alt)
  let ?row = "\<lambda>sig sl ix. RBT.lookup (addr_sigs (nd_store n)) (addr_sig_key a sl ix) = Some sig"
  obtain rows where rows: "signatures_for_address (nd_store n) a None (unat l) = take (unat l) rows"
    "sorted_wrt newer rows" "set rows = {(sig, sl, ix). ?row sig sl ix \<and> older None sl ix}"
    using spec [of None "unat l"] unfolding max by blast
  have "get_signatures_for_address cod n (Some (page_request address l (Some (signature_to_string cod (fst (rows ! i))))))
      = page_response cod n (take (unat l) (drop (Suc i) rows))" if i: "i < length rows" for i
  proof -
    obtain sig sl ix where r: "rows ! i = (sig, sl, ix)" by (cases "rows ! i")
    then have row: "?row sig sl ix" "older None sl ix" using nth_mem [OF i] rows(3) by auto
    obtain tx m where found: "found_tx n sig = Some (\<lparr> loc_slot = sl, loc_index = ix \<rparr>, tx, m)"
      using signature_row_found [OF assms(1,2) row(1)] by blast
    obtain rest where rest: "signatures_for_address (nd_store n) a (Some (sl, ix)) (unat l) = take (unat l) rest"
      "sorted_wrt newer rest" "set rest = {(sig, s, x). ?row sig s x \<and> older (Some (sl, ix)) s x}"
      using spec [of "Some (sl, ix)" "unat l"] unfolding max by blast
    have "older None s x" if "older (Some (sl, ix)) s x" for s x
      using that row(2) by (auto simp: older_def)
    then have "set rest = set (drop (Suc i) rows)"
      unfolding older_rows [OF rows(2) i r] rest(3) rows(3) by auto
    then have "rest = drop (Suc i) rows"
      by (rule newer_sorted_unique [OF rest(2) sorted_wrt_drop [OF rows(2)]])
    then show ?thesis
      using page_of_rows [OF assms(3,6), where before = "Some (signature_to_string cod sig)" and cursor = "Some (sl, ix)" and n = n]
        assms(4) [OF row(1)] found rest(1) by (auto simp: r)
  qed
  moreover have "get_signatures_for_address cod n (Some (page_request address l None)) = page_response cod n (take (unat l) rows)"
    using page_of_rows [OF assms(3,6), where before = None and cursor = None and n = n] rows(1) by simp
  ultimately show ?thesis using rows(2,3) by blast
qed


theorem signature_pages_witness:
  "\<exists>n :: node. get_signatures_for_address sample_codec n (Some (page_request (sample_text history_key) 1 None))
      = page_response sample_codec n [([8], 1, 1)]
    \<and> get_signatures_for_address sample_codec n (Some (page_request (sample_text history_key) 1 (Some (sample_text [8]))))
      = page_response sample_codec n [([7], 1, 0)]"
proof -
  obtain n0 where "node_new chain_env store_open chain_genesis 0 = Inr n0" by (rule chain_start)
  define n where "n = history_node n0"
  have key: "length history_key = 32" "pubkey_from_str sample_codec (sample_text history_key) = Some history_key"
    by (simp_all add: history_key_def sample_codec_def)
  have sig: "signature_from_str sample_codec (signature_to_string sample_codec sig) = Some sig" for sig
    by (simp add: sample_codec_def)
  have "addr_sig_key history_key sl ix = addr_sig_key history_key sl' ix' \<longleftrightarrow> sl = sl' \<and> ix = ix'" for sl ix sl' ix'
    using addr_sig_key_inj [OF key(1) key(1)] by blast
  then have "{(sig, sl, ix). RBT.lookup (addr_sigs (nd_store n)) (addr_sig_key history_key sl ix) = Some sig \<and> older None sl ix}
      = {([8], 1, 1), ([7], 1, 0)}"
    by (auto simp: n_def history_node_def history_rows older_def split: if_splits)
  then obtain rows where rows: "sorted_wrt newer rows" "set rows = {([8], 1, 1), ([7], 1, 0)}"
    "get_signatures_for_address sample_codec n (Some (page_request (sample_text history_key) 1 None))
      = page_response sample_codec n (take (unat 1) rows)"
    "\<And>i. i < length rows \<Longrightarrow> get_signatures_for_address sample_codec n
          (Some (page_request (sample_text history_key) 1 (Some (signature_to_string sample_codec (fst (rows ! i))))))
        = page_response sample_codec n (take (unat 1) (drop (Suc i) rows))"
    using signature_pages [OF history_reach [of n0] key, of 1] sig unfolding n_def [symmetric] by auto
  have "rows = [([8], 1, 1), ([7], 1, 0)]"
    by (rule newer_sorted_unique [OF rows(1)]) (simp_all add: newer_def rows(2))
  with rows(3) rows(4) [of 0] show ?thesis by (intro exI [of _ n]) (simp add: sample_codec_def)
qed




end
