(* ===== verification/Settlement.thy ===== *)
theory Settlement
  imports Bridge
begin

text \<open>
  The programs on L1: the settlement program \<^verbatim>\<open>zul-settlement\<close> (\<^verbatim>\<open>lib.rs\<close> and the withdrawal hashes
  of \<^verbatim>\<open>smt.rs\<close>) and the data log \<^verbatim>\<open>zul-da-log\<close>. An account at a program-derived address is a row
  of a map keyed by its seeds: one configuration, a batch by its number, a claim by recipient and
  nonce. What the account constraints demand before a handler runs is part of its model: an
  account to be created must not exist, an account to be read must. A failed instruction leaves
  no trace. The system and token programs, the extensions of a mint and the address of the
  vault are the parameters in \<open>l1_runtime\<close>; associated token accounts are keyed by owner and
  mint. The rent a payer spends on new accounts is left out.
\<close>

section \<open>zul-da-log\<close>

definition MAX_CHUNK_BYTES :: nat where
  "MAX_CHUNK_BYTES = 900"

datatype da_error = EmptyChunk | ChunkTooLarge | IndexOutOfRangeDa

record chunk_posted =
  cp_batch_no :: u64
  cp_chunk_index :: u32
  cp_chunk_count :: u32
  cp_len :: u32

definition post_chunk :: "u64 \<Rightarrow> u32 \<Rightarrow> u32 \<Rightarrow> bytes \<Rightarrow> da_error + chunk_posted" where
  "post_chunk batch_no chunk_index chunk_count d =
    (if d = [] then Inl EmptyChunk
     else if length d > MAX_CHUNK_BYTES then Inl ChunkTooLarge
     else if \<not> chunk_index < chunk_count then Inl IndexOutOfRangeDa
     else Inr \<lparr> cp_batch_no = batch_no, cp_chunk_index = chunk_index, cp_chunk_count = chunk_count,
                cp_len = of_nat (length d) \<rparr>)"


section \<open>smt.rs: withdrawal commitments\<close>

definition L1_WITHDRAW_DOMAIN :: bytes where
  "L1_WITHDRAW_DOMAIN = ascii ''PL2:bridge:withdraw:v1''"

definition L1_WITHDRAW_ADDR_DOMAIN :: bytes where
  "L1_WITHDRAW_ADDR_DOMAIN = ascii ''PL2:bridge:withdraw-addr:v1''"

definition l1_withdrawal_account_hash :: "hasher \<Rightarrow> bytes \<Rightarrow> bytes \<Rightarrow> u64 \<Rightarrow> u64 \<Rightarrow> h256" where
  "l1_withdrawal_account_hash b3 recipient asset_id amount nonce =
    hashv b3 [L1_WITHDRAW_DOMAIN, recipient, asset_id, u64_le amount, u64_le nonce]"

definition l1_withdrawal_pubkey :: "hasher \<Rightarrow> bytes \<Rightarrow> u64 \<Rightarrow> pubkey" where
  "l1_withdrawal_pubkey b3 recipient nonce = hashv b3 [L1_WITHDRAW_ADDR_DOMAIN, recipient, u64_le nonce]"


section \<open>lib.rs: state\<close>

datatype mint_extension =
  TransferHook | PermanentDelegate | NonTransferable | DefaultAccountState | ConfidentialTransferMint
  | ConfidentialTransferFeeConfig | OtherExtension nat

fun is_dangerous_extension :: "mint_extension \<Rightarrow> bool" where
  "is_dangerous_extension TransferHook = True"
| "is_dangerous_extension PermanentDelegate = True"
| "is_dangerous_extension NonTransferable = True"
| "is_dangerous_extension DefaultAccountState = True"
| "is_dangerous_extension ConfidentialTransferMint = True"
| "is_dangerous_extension ConfidentialTransferFeeConfig = True"
| "is_dangerous_extension _ = False"

datatype settlement_error =
  Unauthorized | NonSequentialBatch | InvalidSlotRange | ZeroAmountL1 | OverflowL1 | InvalidProofL1
  | UnsupportedMintExtension | AccountInUse | AccountNotInitialized | CpiFailed

record l1_config =
  authority :: pubkey
  batch_count :: u64
  total_deposited :: u64
  cfg_bump :: u8
  vault_bump :: u8

record l1_batch =
  bt_batch_no :: u64
  bt_first_slot :: u64
  bt_last_slot :: u64
  bt_state_root :: h256
  bt_withdrawals_root :: h256
  bt_da_hash :: h256
  bt_chunk_count :: u32
  posted_at :: u64

record withdrawal_claim =
  cl_recipient :: pubkey
  cl_amount :: u64
  cl_nonce :: u64
  claimed_at :: u64

datatype l1_event =
  BatchPosted u64 u64 u64 h256 h256
| Deposited pubkey u64 pubkey "pubkey option" u8
| Withdrawn pubkey u64 u64

type_synonym lamport_table = "pubkey \<Rightarrow> u64"
type_synonym token_table = "pubkey \<times> pubkey \<Rightarrow> u64"

record l1_runtime =
  rt_b3 :: hasher
  rt_empties :: bytes
  rt_vault :: pubkey
  sys_transfer :: "lamport_table \<Rightarrow> pubkey \<Rightarrow> pubkey \<Rightarrow> u64 \<Rightarrow> lamport_table option"
  token_transfer :: "token_table \<Rightarrow> pubkey \<Rightarrow> pubkey \<Rightarrow> pubkey \<Rightarrow> u64 \<Rightarrow> token_table option"
  mint_extensions :: "pubkey \<Rightarrow> mint_extension list option"
  mint_decimals :: "pubkey \<Rightarrow> u8"

record settlement =
  st_config :: "l1_config option"
  st_batches :: "u64 \<rightharpoonup> l1_batch"
  st_claims :: "pubkey \<times> u64 \<rightharpoonup> withdrawal_claim"
  st_lamports :: lamport_table
  st_tokens :: token_table
  st_events :: "l1_event list"

definition require_safe_mint :: "l1_runtime \<Rightarrow> pubkey \<Rightarrow> bool" where
  "require_safe_mint rt m =
    (case mint_extensions rt m of None \<Rightarrow> False | Some exts \<Rightarrow> list_all (\<lambda>e. \<not> is_dangerous_extension e) exts)"


section \<open>lib.rs: instructions\<close>

definition initialize :: "pubkey \<Rightarrow> u8 \<Rightarrow> u8 \<Rightarrow> settlement \<Rightarrow> settlement_error + settlement" where
  "initialize signer bump vbump s =
    (case st_config s of Some _ \<Rightarrow> Inl AccountInUse
     | None \<Rightarrow> Inr (s\<lparr> st_config := Some \<lparr> authority = signer, batch_count = 0, total_deposited = 0,
         cfg_bump = bump, vault_bump = vbump \<rparr> \<rparr>))"

definition post_batch ::
  "pubkey \<Rightarrow> u64 \<Rightarrow> u64 \<Rightarrow> u64 \<Rightarrow> h256 \<Rightarrow> h256 \<Rightarrow> h256 \<Rightarrow> u32 \<Rightarrow> u64 \<Rightarrow> settlement
    \<Rightarrow> settlement_error + settlement" where
  "post_batch signer batch_no first_slot last_slot sroot wroot da chunks now s =
    (case st_config s of None \<Rightarrow> Inl AccountNotInitialized
     | Some c \<Rightarrow>
       if st_batches s batch_no \<noteq> None then Inl AccountInUse
       else if signer \<noteq> authority c then Inl Unauthorized
       else if batch_no \<noteq> batch_count c then Inl NonSequentialBatch
       else if \<not> last_slot \<ge> first_slot then Inl InvalidSlotRange
       else (case checked_add (batch_count c) 1 of None \<Rightarrow> Inl OverflowL1
         | Some cnt \<Rightarrow>
           Inr (s\<lparr> st_batches := (st_batches s)(batch_no \<mapsto>
                     \<lparr> bt_batch_no = batch_no, bt_first_slot = first_slot, bt_last_slot = last_slot,
                       bt_state_root = sroot, bt_withdrawals_root = wroot, bt_da_hash = da,
                       bt_chunk_count = chunks, posted_at = now \<rparr>),
                   st_config := Some (c\<lparr> batch_count := cnt \<rparr>),
                   st_events := st_events s @ [BatchPosted batch_no first_slot last_slot sroot da] \<rparr>)))"

definition deposit_sol ::
  "l1_runtime \<Rightarrow> pubkey \<Rightarrow> u64 \<Rightarrow> pubkey \<Rightarrow> settlement \<Rightarrow> settlement_error + settlement" where
  "deposit_sol rt depositor amount recipient s =
    (case st_config s of None \<Rightarrow> Inl AccountNotInitialized
     | Some c \<Rightarrow>
       if amount = 0 then Inl ZeroAmountL1
       else (case sys_transfer rt (st_lamports s) depositor (rt_vault rt) amount of None \<Rightarrow> Inl CpiFailed
         | Some l \<Rightarrow>
           (case checked_add (total_deposited c) amount of None \<Rightarrow> Inl OverflowL1
            | Some t \<Rightarrow>
              Inr (s\<lparr> st_lamports := l, st_config := Some (c\<lparr> total_deposited := t \<rparr>),
                     st_events := st_events s @ [Deposited depositor amount recipient None 9] \<rparr>))))"

definition deposit_spl ::
  "l1_runtime \<Rightarrow> pubkey \<Rightarrow> pubkey \<Rightarrow> u64 \<Rightarrow> pubkey \<Rightarrow> settlement \<Rightarrow> settlement_error + settlement" where
  "deposit_spl rt depositor m amount recipient s =
    (case st_config s of None \<Rightarrow> Inl AccountNotInitialized
     | Some c \<Rightarrow>
       if amount = 0 then Inl ZeroAmountL1
       else if \<not> require_safe_mint rt m then Inl UnsupportedMintExtension
       else (let before = st_tokens s (rt_vault rt, m)
         in case token_transfer rt (st_tokens s) m depositor (rt_vault rt) amount of None \<Rightarrow> Inl CpiFailed
            | Some t \<Rightarrow>
              (case checked_sub (t (rt_vault rt, m)) before of None \<Rightarrow> Inl OverflowL1
               | Some received \<Rightarrow>
                 if received = 0 then Inl ZeroAmountL1
                 else Inr (s\<lparr> st_tokens := t,
                   st_events := st_events s @ [Deposited depositor received recipient (Some m) (mint_decimals rt m)] \<rparr>))))"

definition open_claim ::
  "l1_runtime \<Rightarrow> u64 \<Rightarrow> pubkey \<Rightarrow> bytes \<Rightarrow> u64 \<Rightarrow> u64 \<Rightarrow> bytes \<Rightarrow> h256 list \<Rightarrow> settlement
    \<Rightarrow> settlement_error option" where
  "open_claim rt batch_no recipient asset_id amount nonce bm sibs s =
    (if st_config s = None then Some AccountNotInitialized
     else case st_batches s batch_no of None \<Rightarrow> Some AccountNotInitialized
     | Some b \<Rightarrow>
       if st_claims s (recipient, nonce) \<noteq> None then Some AccountInUse
       else if amount = 0 then Some ZeroAmountL1
       else if \<not> l1_verify (rt_b3 rt) (rt_empties rt) (bt_withdrawals_root b)
              (l1_withdrawal_pubkey (rt_b3 rt) recipient nonce)
              (l1_withdrawal_account_hash (rt_b3 rt) recipient asset_id amount nonce)
              \<lparr> l1_bitmap = bm, l1_siblings = sibs \<rparr>
       then Some InvalidProofL1 else None)"

definition record_claim :: "pubkey \<Rightarrow> u64 \<Rightarrow> u64 \<Rightarrow> u64 \<Rightarrow> settlement \<Rightarrow> settlement" where
  "record_claim recipient amount nonce now s =
    s\<lparr> st_claims := (st_claims s)((recipient, nonce) \<mapsto>
         \<lparr> cl_recipient = recipient, cl_amount = amount, cl_nonce = nonce, claimed_at = now \<rparr>),
       st_events := st_events s @ [Withdrawn recipient amount nonce] \<rparr>"

definition claim_withdrawal_spl ::
  "l1_runtime \<Rightarrow> u64 \<Rightarrow> pubkey \<Rightarrow> pubkey \<Rightarrow> u64 \<Rightarrow> u64 \<Rightarrow> bytes \<Rightarrow> h256 list \<Rightarrow> u64 \<Rightarrow> settlement
    \<Rightarrow> settlement_error + settlement" where
  "claim_withdrawal_spl rt batch_no recipient m amount nonce bm sibs now s =
    (case open_claim rt batch_no recipient m amount nonce bm sibs s of Some e \<Rightarrow> Inl e
     | None \<Rightarrow>
       (case token_transfer rt (st_tokens s) m (rt_vault rt) recipient amount of None \<Rightarrow> Inl CpiFailed
        | Some t \<Rightarrow> Inr (record_claim recipient amount nonce now (s\<lparr> st_tokens := t \<rparr>))))"

definition claim_withdrawal ::
  "l1_runtime \<Rightarrow> u64 \<Rightarrow> pubkey \<Rightarrow> u64 \<Rightarrow> u64 \<Rightarrow> bytes \<Rightarrow> h256 list \<Rightarrow> u64 \<Rightarrow> settlement
    \<Rightarrow> settlement_error + settlement" where
  "claim_withdrawal rt batch_no recipient amount nonce bm sibs now s =
    (case open_claim rt batch_no recipient (replicate 32 0) amount nonce bm sibs s of Some e \<Rightarrow> Inl e
     | None \<Rightarrow>
       (case sys_transfer rt (st_lamports s) (rt_vault rt) recipient amount of None \<Rightarrow> Inl CpiFailed
        | Some l \<Rightarrow> Inr (record_claim recipient amount nonce now (s\<lparr> st_lamports := l \<rparr>))))"

datatype l1_instruction =
  Initialize pubkey u8 u8
| PostBatch pubkey u64 u64 u64 h256 h256 h256 u32
| DepositSol pubkey u64 pubkey
| DepositSpl pubkey pubkey u64 pubkey
| ClaimWithdrawalSpl u64 pubkey pubkey u64 u64 bytes "h256 list"
| ClaimWithdrawal u64 pubkey u64 u64 bytes "h256 list"

fun execute_l1 :: "l1_runtime \<Rightarrow> u64 \<Rightarrow> l1_instruction \<Rightarrow> settlement \<Rightarrow> settlement_error + settlement" where
  "execute_l1 rt now (Initialize signer b v) s = initialize signer b v s"
| "execute_l1 rt now (PostBatch signer no f l sr wr da cc) s = post_batch signer no f l sr wr da cc now s"
| "execute_l1 rt now (DepositSol d a r) s = deposit_sol rt d a r s"
| "execute_l1 rt now (DepositSpl d m a r) s = deposit_spl rt d m a r s"
| "execute_l1 rt now (ClaimWithdrawalSpl no r m a n bm sibs) s = claim_withdrawal_spl rt no r m a n bm sibs now s"
| "execute_l1 rt now (ClaimWithdrawal no r a n bm sibs) s = claim_withdrawal rt no r a n bm sibs now s"


section \<open>Runs\<close>

text \<open>
  The histories of the program: the successful instructions, in order. Failed ones are not in
  them, as they change nothing.
\<close>

definition deployed :: "lamport_table \<Rightarrow> token_table \<Rightarrow> settlement" where
  "deployed lams toks = \<lparr> st_config = None, st_batches = Map.empty, st_claims = Map.empty,
    st_lamports = lams, st_tokens = toks, st_events = [] \<rparr>"

inductive l1_run :: "l1_runtime \<Rightarrow> settlement \<Rightarrow> l1_instruction list \<Rightarrow> settlement \<Rightarrow> bool" for rt s0 where
  l1_start: "l1_run rt s0 [] s0"
| l1_step: "l1_run rt s0 tr s \<Longrightarrow> execute_l1 rt now ins s = Inr s' \<Longrightarrow> l1_run rt s0 (tr @ [ins]) s'"

definition batches_ok :: "settlement \<Rightarrow> bool" where
  "batches_ok s \<longleftrightarrow> (\<forall>k. (st_batches s k \<noteq> None) = (\<exists>c. st_config s = Some c \<and> k < batch_count c))
    \<and> (\<forall>k b. st_batches s k = Some b \<longrightarrow> bt_batch_no b = k \<and> bt_first_slot b \<le> bt_last_slot b)"

fun claim_key :: "l1_instruction \<Rightarrow> (pubkey \<times> u64) option" where
  "claim_key (ClaimWithdrawalSpl no r m a n bm sibs) = Some (r, n)"
| "claim_key (ClaimWithdrawal no r a n bm sibs) = Some (r, n)"
| "claim_key _ = None"

text \<open>
  The assets of the vault: \<open>None\<close> is SOL, \<open>Some m\<close> the tokens of mint \<open>m\<close>. What came in is read from
  the events, what went out from the claims.
\<close>

definition vault_balance :: "l1_runtime \<Rightarrow> settlement \<Rightarrow> pubkey option \<Rightarrow> nat" where
  "vault_balance rt s x = (case x of None \<Rightarrow> unat (st_lamports s (rt_vault rt))
    | Some m \<Rightarrow> unat (st_tokens s (rt_vault rt, m)))"

fun deposited_in :: "pubkey option \<Rightarrow> l1_event \<Rightarrow> nat" where
  "deposited_in x (Deposited d a r m dec) = (if m = x then unat a else 0)"
| "deposited_in x _ = 0"

fun claimed_in :: "pubkey option \<Rightarrow> l1_instruction \<Rightarrow> nat" where
  "claimed_in x (ClaimWithdrawal no r a n bm sibs) = (if x = None then unat a else 0)"
| "claimed_in x (ClaimWithdrawalSpl no r m a n bm sibs) = (if x = Some m then unat a else 0)"
| "claimed_in x _ = 0"

text \<open>The vault does not sign deposits, and does not withdraw to itself.\<close>

fun not_vault :: "l1_runtime \<Rightarrow> l1_instruction \<Rightarrow> bool" where
  "not_vault rt (DepositSol d a r) = (d \<noteq> rt_vault rt)"
| "not_vault rt (DepositSpl d m a r) = (d \<noteq> rt_vault rt)"
| "not_vault rt (ClaimWithdrawal no r a n bm sibs) = (r \<noteq> rt_vault rt)"
| "not_vault rt (ClaimWithdrawalSpl no r m a n bm sibs) = (r \<noteq> rt_vault rt)"
| "not_vault rt _ = True"

text \<open>
  What the system and token programs document: a transfer between two accounts takes exactly the
  amount from the sender, who must have it, and leaves accounts other than the two alone; lamports
  arrive in full, tokens up to a transfer fee.
\<close>

definition transfers_ok :: "l1_runtime \<Rightarrow> bool" where
  "transfers_ok rt \<longleftrightarrow>
    (\<forall>L f t a L'. sys_transfer rt L f t a = Some L' \<and> f \<noteq> t \<longrightarrow>
      unat (L' f) + unat a = unat (L f) \<and> unat (L' t) = unat (L t) + unat a)
    \<and> (\<forall>T m f t a T'. token_transfer rt T m f t a = Some T' \<and> f \<noteq> t \<longrightarrow>
      unat (T' (f, m)) + unat a = unat (T (f, m)) \<and> T (t, m) \<le> T' (t, m)
      \<and> (\<forall>k. k \<noteq> (f, m) \<and> k \<noteq> (t, m) \<longrightarrow> T' k = T k))"


text \<open>A runtime with plain transfers, and a history: a deposit, a batch and a claim against it.\<close>

definition plain_move :: "('k \<Rightarrow> u64) \<Rightarrow> 'k \<Rightarrow> 'k \<Rightarrow> u64 \<Rightarrow> ('k \<Rightarrow> u64) option" where
  "plain_move L f t a =
    (if a \<le> L f \<and> unat (L t) + unat a < 2 ^ 64 then Some (L(f := L f - a, t := (L(f := L f - a)) t + a)) else None)"

definition sample_rt :: l1_runtime where
  "sample_rt = \<lparr> rt_b3 = pad_hash, rt_empties = pad_table, rt_vault = [20], sys_transfer = plain_move,
    token_transfer = (\<lambda>T m f t. plain_move T (f, m) (t, m)), mint_extensions = (\<lambda>_. Some []),
    mint_decimals = (\<lambda>_. 9) \<rparr>"

definition sample_leaf :: "pubkey \<times> h256" where
  "sample_leaf = (withdrawal_pubkey pad_hash [22] 4, withdrawal_account_hash pad_hash [22] NATIVE_ASSET_ID 30 4)"

definition sample_tree :: node_source where
  "sample_tree = withdraw_tree pad_hash [sample_leaf]"

definition sample_proof :: smt_proof where
  "sample_proof = withdraw_prove pad_hash sample_tree (fst sample_leaf)"

definition sample_history :: "l1_instruction list" where
  "sample_history = [Initialize [19] 255 254, DepositSol [21] 50 [1],
    PostBatch [19] 0 1 8 ZERO_HASH (withdraw_root pad_hash sample_tree) ZERO_HASH 1,
    ClaimWithdrawal 0 [22] 30 4 (bitmap sample_proof) (siblings sample_proof)]"

definition sample_lams :: lamport_table where
  "sample_lams = (\<lambda>_. 0)([21] := 70)"


section \<open>Lemmas\<close>

lemma l1_withdrawal_hashes [simp]:
  "l1_withdrawal_pubkey b3 r n = withdrawal_pubkey b3 r n"
  "l1_withdrawal_account_hash b3 r x a n = withdrawal_account_hash b3 r x a n"
  by (simp_all add: l1_withdrawal_pubkey_def withdrawal_pubkey_def l1_withdrawal_account_hash_def
      withdrawal_account_hash_def hashv_def blake3_concat_def L1_WITHDRAW_DOMAIN_def WITHDRAW_DOMAIN_def
      L1_WITHDRAW_ADDR_DOMAIN_def WITHDRAW_ADDR_DOMAIN_def)

lemmas l1_defs = initialize_def post_batch_def deposit_sol_def deposit_spl_def claim_withdrawal_def
  claim_withdrawal_spl_def record_claim_def

lemmas l1_splits = option.splits if_splits

lemma claim_withdrawal_cases:
  assumes "claim_withdrawal rt no r a n bm sibs now s = Inr s'"
  obtains l where "open_claim rt no r (replicate 32 0) a n bm sibs s = None"
    and "sys_transfer rt (st_lamports s) (rt_vault rt) r a = Some l"
    and "s' = record_claim r a n now (s\<lparr> st_lamports := l \<rparr>)"
  using assms by (auto simp: claim_withdrawal_def split: option.splits)

lemma claim_withdrawal_spl_cases:
  assumes "claim_withdrawal_spl rt no r m a n bm sibs now s = Inr s'"
  obtains t where "open_claim rt no r m a n bm sibs s = None"
    and "token_transfer rt (st_tokens s) m (rt_vault rt) r a = Some t"
    and "s' = record_claim r a n now (s\<lparr> st_tokens := t \<rparr>)"
  using assms by (auto simp: claim_withdrawal_spl_def split: option.splits)

lemma deposit_sol_cases:
  assumes "deposit_sol rt d a r s = Inr s'"
  obtains c l t where "st_config s = Some c" and "sys_transfer rt (st_lamports s) d (rt_vault rt) a = Some l"
    and "checked_add (total_deposited c) a = Some t"
    and "s' = s\<lparr> st_lamports := l, st_config := Some (c\<lparr> total_deposited := t \<rparr>),
      st_events := st_events s @ [Deposited d a r None 9] \<rparr>"
  using assms by (auto simp: deposit_sol_def split: option.splits if_splits)

lemma deposit_spl_cases:
  assumes "deposit_spl rt d m a r s = Inr s'"
  obtains t received where "token_transfer rt (st_tokens s) m d (rt_vault rt) a = Some t"
    and "checked_sub (t (rt_vault rt, m)) (st_tokens s (rt_vault rt, m)) = Some received"
    and "s' = s\<lparr> st_tokens := t,
      st_events := st_events s @ [Deposited d received r (Some m) (mint_decimals rt m)] \<rparr>"
  using assms by (auto simp: deposit_spl_def Let_def split: option.splits if_splits)

lemma post_batch_cases:
  assumes "post_batch signer no f l sr wr da cc now s = Inr s'"
  obtains c where "st_config s = Some c" and "st_batches s no = None" and "signer = authority c"
    and "no = batch_count c" and "f \<le> l" and "batch_count c < batch_count c + 1"
    and "s' = s\<lparr> st_batches := (st_batches s)(no \<mapsto> \<lparr> bt_batch_no = no, bt_first_slot = f, bt_last_slot = l,
        bt_state_root = sr, bt_withdrawals_root = wr, bt_da_hash = da, bt_chunk_count = cc, posted_at = now \<rparr>),
      st_config := Some (c\<lparr> batch_count := batch_count c + 1 \<rparr>),
      st_events := st_events s @ [BatchPosted no f l sr da] \<rparr>"
  using assms that
  by (auto simp: post_batch_def checked_add_Some word_less_nat_alt split: option.splits if_splits)

lemma post_batch_ok:
  assumes "batches_ok s" and "post_batch signer no f l sr wr da cc now s = Inr s'"
  shows "batches_ok s'"
  using assms(2)
proof (rule post_batch_cases)
  fix c
  assume c: "st_config s = Some c" and no: "no = batch_count c" and le: "f \<le> l" and lt: "batch_count c < batch_count c + 1"
    and s': "s' = s\<lparr> st_batches := (st_batches s)(no \<mapsto> \<lparr> bt_batch_no = no, bt_first_slot = f, bt_last_slot = l,
        bt_state_root = sr, bt_withdrawals_root = wr, bt_da_hash = da, bt_chunk_count = cc, posted_at = now \<rparr>),
      st_config := Some (c\<lparr> batch_count := batch_count c + 1 \<rparr>),
      st_events := st_events s @ [BatchPosted no f l sr da] \<rparr>"
  have "k < batch_count c + 1 \<longleftrightarrow> k = batch_count c \<or> k < batch_count c" for k
    using less_inc_imp_less_eq [of k "batch_count c"] lt by (auto simp: le_less)
  then show ?thesis using assms(1) le by (auto simp: batches_ok_def s' c no split: if_splits)
qed

lemma execute_l1_batches_ok:
  assumes "execute_l1 rt now ins s = Inr s'" and "batches_ok s"
  shows "batches_ok s'"
proof (cases "\<exists>signer no f l sr wr da cc. ins = PostBatch signer no f l sr wr da cc")
  case True
  then show ?thesis using assms by (auto intro: post_batch_ok)
next
  case False
  then show ?thesis
    using assms by (cases ins) (auto elim!: claim_withdrawal_cases claim_withdrawal_spl_cases deposit_sol_cases
        deposit_spl_cases simp: initialize_def batches_ok_def record_claim_def split: option.splits)
qed

lemma execute_l1_batches_kept:
  assumes "execute_l1 rt now ins s = Inr s'" and "st_batches s k = Some b"
  shows "st_batches s' k = Some b"
  using assms
  by (cases ins) (auto elim!: claim_withdrawal_cases claim_withdrawal_spl_cases deposit_sol_cases deposit_spl_cases
      post_batch_cases simp: initialize_def record_claim_def split: option.splits)

lemma l1_run_batches: "l1_run rt (deployed lams toks) tr s \<Longrightarrow> batches_ok s"
proof (induction rule: l1_run.induct)
  case l1_start
  show ?case by (simp add: deployed_def batches_ok_def)
qed (rule execute_l1_batches_ok)

lemma open_claim_fresh: "open_claim rt no r x a n bm sibs s = None \<Longrightarrow> st_claims s (r, n) = None"
  by (auto simp: open_claim_def split: if_splits option.splits)

lemma execute_l1_claims:
  assumes "execute_l1 rt now ins s = Inr s'"
  shows "(case claim_key ins of None \<Rightarrow> dom (st_claims s') = dom (st_claims s)
    | Some k \<Rightarrow> k \<notin> dom (st_claims s) \<and> dom (st_claims s') = insert k (dom (st_claims s)))"
  using assms
  by (cases ins) (auto elim!: claim_withdrawal_cases claim_withdrawal_spl_cases deposit_sol_cases deposit_spl_cases
      post_batch_cases dest: open_claim_fresh simp: initialize_def record_claim_def split: option.splits)

lemma map_filter_snoc:
  "List.map_filter f (xs @ [x]) = List.map_filter f xs @ (case f x of None \<Rightarrow> [] | Some y \<Rightarrow> [y])"
  by (induction xs) (auto simp: List.map_filter_simps split: option.splits)

lemma l1_run_claims:
  assumes "l1_run rt (deployed lams toks) tr s"
  shows "distinct (List.map_filter claim_key tr) \<and> set (List.map_filter claim_key tr) = dom (st_claims s)"
  using assms
proof (induction rule: l1_run.induct)
  case (l1_step tr s now ins s')
  then show ?case using execute_l1_claims [OF l1_step.hyps(2)] by (auto simp: map_filter_snoc split: option.splits)
qed (simp add: deployed_def List.map_filter_simps)

lemma transfers_sys:
  "transfers_ok rt \<Longrightarrow> sys_transfer rt L f t a = Some L' \<Longrightarrow> f \<noteq> t \<Longrightarrow>
    unat (L' f) + unat a = unat (L f) \<and> unat (L' t) = unat (L t) + unat a"
  by (simp add: transfers_ok_def)

lemma transfers_token:
  "transfers_ok rt \<Longrightarrow> token_transfer rt T m f t a = Some T' \<Longrightarrow> f \<noteq> t \<Longrightarrow>
    unat (T' (f, m)) + unat a = unat (T (f, m)) \<and> T (t, m) \<le> T' (t, m) \<and> (\<forall>k. k \<noteq> (f, m) \<and> k \<noteq> (t, m) \<longrightarrow> T' k = T k)"
  by (simp add: transfers_ok_def)

lemma execute_l1_vault:
  assumes "transfers_ok rt" and "not_vault rt ins" and "execute_l1 rt now ins s = Inr s'"
  shows "\<exists>evs. st_events s' = st_events s @ evs
    \<and> vault_balance rt s' x + claimed_in x ins = vault_balance rt s x + sum_list (map (deposited_in x) evs)"
proof (cases ins)
  case (DepositSol d a r)
  then show ?thesis
    using assms transfers_sys [OF assms(1), of "st_lamports s" d "rt_vault rt" a]
    by (auto elim!: deposit_sol_cases simp: vault_balance_def split: option.splits)
next
  case (DepositSpl d m a r)
  from assms(3)[unfolded DepositSpl, simplified] show ?thesis
  proof (rule deposit_spl_cases)
    fix t received
    assume t: "token_transfer rt (st_tokens s) m d (rt_vault rt) a = Some t"
      and rec: "checked_sub (t (rt_vault rt, m)) (st_tokens s (rt_vault rt, m)) = Some received"
      and s': "s' = s\<lparr> st_tokens := t,
        st_events := st_events s @ [Deposited d received r (Some m) (mint_decimals rt m)] \<rparr>"
    have "unat (t (rt_vault rt, m)) = unat (st_tokens s (rt_vault rt, m)) + unat received"
      using rec by (auto simp: checked_sub_def unat_sub word_le_nat_alt split: if_splits)
    moreover have "t (rt_vault rt, m') = st_tokens s (rt_vault rt, m')" if "m' \<noteq> m" for m'
      using transfers_token [OF assms(1) t] assms(2) that by (simp add: DepositSpl)
    ultimately show ?thesis by (auto simp: s' DepositSpl vault_balance_def split: option.splits)
  qed
next
  case (ClaimWithdrawalSpl no r m a n bm sibs)
  then show ?thesis
    using assms transfers_token [OF assms(1), of "st_tokens s" m "rt_vault rt" r a]
    by (auto elim!: claim_withdrawal_spl_cases simp: vault_balance_def record_claim_def split: option.splits)
next
  case (ClaimWithdrawal no r a n bm sibs)
  then show ?thesis
    using assms transfers_sys [OF assms(1), of "st_lamports s" "rt_vault rt" r a]
    by (auto elim!: claim_withdrawal_cases simp: vault_balance_def record_claim_def split: option.splits)
qed (use assms in \<open>auto elim!: post_batch_cases simp: initialize_def vault_balance_def split: option.splits\<close>)

lemma l1_run_vault:
  assumes "l1_run rt (deployed lams toks) tr s" and "transfers_ok rt" and "\<forall>ins\<in>set tr. not_vault rt ins"
  shows "vault_balance rt s x + sum_list (map (claimed_in x) tr)
    = vault_balance rt (deployed lams toks) x + sum_list (map (deposited_in x) (st_events s))"
  using assms(1,3)
proof (induction rule: l1_run.induct)
  case (l1_step tr s now ins s')
  then show ?case using execute_l1_vault [OF assms(2) _ l1_step.hyps(2), of x] by auto
qed (simp add: deployed_def)

lemma l1_run_batches_kept:
  assumes "l1_run rt s tr s'" and "st_batches s k = Some b"
  shows "st_batches s' k = Some b"
  using assms by (induction rule: l1_run.induct) (auto intro: execute_l1_batches_kept)


section \<open>Sample history\<close>

lemma plain_move_Some:
  assumes "plain_move L f t a = Some L'" and "f \<noteq> t"
  shows "unat (L' f) + unat a = unat (L f)" "unat (L' t) = unat (L t) + unat a" "k \<noteq> f \<Longrightarrow> k \<noteq> t \<Longrightarrow> L' k = L k"
  using assms by (auto simp: plain_move_def unat_sub word_le_nat_alt unat_word_ariths split: if_splits)

lemma sample_transfers: "transfers_ok sample_rt"
proof -
  have "unat (L' f) + unat a = unat (L f) \<and> unat (L' t) = unat (L t) + unat a"
    if "plain_move L f t a = Some L'" "f \<noteq> t" for L L' :: lamport_table and f t a
    using plain_move_Some(1,2) [OF that] by simp
  moreover have "unat (T' (f, m)) + unat a = unat (T (f, m)) \<and> T (t, m) \<le> T' (t, m)
      \<and> (\<forall>k. k \<noteq> (f, m) \<and> k \<noteq> (t, m) \<longrightarrow> T' k = T k)"
    if "plain_move T (f, m) (t, m) a = Some T'" "f \<noteq> t" for T T' :: token_table and f t m a
    using plain_move_Some [OF that(1)] that(2) by (simp add: word_le_nat_alt)
  ultimately show ?thesis
    unfolding transfers_ok_def sample_rt_def l1_runtime.simps by blast
qed

lemma sample_verifies:
  "l1_verify pad_hash pad_table (withdraw_root pad_hash sample_tree) (withdrawal_pubkey pad_hash [22] 4)
    (withdrawal_account_hash pad_hash [22] NATIVE_ASSET_ID 30 4)
    \<lparr> l1_bitmap = bitmap sample_proof, l1_siblings = siblings sample_proof \<rparr>"
proof -
  have "withdraw_verify pad_hash (withdraw_root pad_hash sample_tree) (fst sample_leaf) (snd sample_leaf) sample_proof"
    unfolding sample_proof_def sample_tree_def
    using withdraw_leaves_last [of "[]" pad_hash "fst sample_leaf" "[]" "snd sample_leaf"]
    by (intro withdraw_prove_verifies [OF digest32_pad_hash withdraw_tree_rep [OF digest32_pad_hash]]) simp
  then show ?thesis
    using l1_verify_eq [OF pad_table_ok, of _ _ _ sample_proof] by (simp add: to_l1_proof_def sample_leaf_def)
qed

lemma sample_run:
  obtains s where "l1_run sample_rt (deployed sample_lams (\<lambda>_. 0)) sample_history s"
    and "vault_balance sample_rt s None = 20" and "st_batches s 0 \<noteq> None" and "st_claims s ([22], 4) \<noteq> None"
proof -
  let ?s0 = "deployed sample_lams (\<lambda>_. 0)"
  have step: "l1_run rt s0 (tr @ [ins]) s'" if "l1_run rt s0 tr s" "execute_l1 rt 7 ins s = Inr s'" for rt s0 tr s ins s'
    using that by (rule l1_run.l1_step)
  obtain s1 where "execute_l1 sample_rt 7 (sample_history ! 0) ?s0 = Inr s1"
    and s1: "s1 = ?s0\<lparr> st_config := Some \<lparr> authority = [19], batch_count = 0, total_deposited = 0, cfg_bump = 255, vault_bump = 254 \<rparr> \<rparr>"
    by (simp add: sample_history_def initialize_def deployed_def)
  note r1 = step [OF l1_run.l1_start this(1)]
  have "plain_move sample_lams [21] [20] 50 = Some (sample_lams([21] := 20, [20] := 50))"
    by (simp add: plain_move_def sample_lams_def)
  then obtain s2 where "execute_l1 sample_rt 7 (sample_history ! 1) s1 = Inr s2"
    and s2: "s2 = s1\<lparr> st_lamports := sample_lams([21] := 20, [20] := 50),
      st_config := Some \<lparr> authority = [19], batch_count = 0, total_deposited = 50, cfg_bump = 255, vault_bump = 254 \<rparr>,
      st_events := [Deposited [21] 50 [1] None 9] \<rparr>"
    by (simp add: s1 sample_history_def deposit_sol_def deployed_def sample_rt_def checked_add_def)
  note r2 = step [OF r1 this(1)]
  obtain s3 where "execute_l1 sample_rt 7 (sample_history ! 2) s2 = Inr s3" and "st_config s3 \<noteq> None"
    and s3: "st_claims s3 = Map.empty" "st_lamports s3 = sample_lams([21] := 20, [20] := 50)"
      "\<exists>b. st_batches s3 0 = Some b \<and> bt_withdrawals_root b = withdraw_root pad_hash sample_tree"
    by (simp add: s1 s2 sample_history_def post_batch_def deployed_def checked_add_def)
  note r3 = step [OF r2 this(1)] and cfg = this(2)
  have "open_claim sample_rt 0 [22] (replicate 32 0) 30 4 (bitmap sample_proof) (siblings sample_proof) s3 = None"
    using cfg s3(1,3) sample_verifies by (auto simp: open_claim_def sample_rt_def NATIVE_ASSET_ID_def)
  moreover have "plain_move (sample_lams([21] := 20, [20] := 50)) [20] [22] 30
      = Some (sample_lams([21] := 20, [20] := 20, [22] := 30))"
    by (auto simp: plain_move_def sample_lams_def)
  ultimately obtain s4 where "execute_l1 sample_rt 7 (sample_history ! 3) s3 = Inr s4"
    and s4: "st_lamports s4 = sample_lams([21] := 20, [20] := 20, [22] := 30)" "st_batches s4 = st_batches s3"
      "st_claims s4 ([22], 4) \<noteq> None"
    by (simp add: sample_history_def claim_withdrawal_def record_claim_def s3(2) sample_rt_def)
  from step [OF r3 this(1)] have "l1_run sample_rt ?s0 sample_history s4" by (simp add: sample_history_def)
  then show ?thesis
    using s3(3) s4 by (intro that) (auto simp: vault_balance_def sample_rt_def)
qed


section \<open>Properties\<close>

text \<open>
  C27: Batches are settled in sequence and for good: in every history of the program the batches on
  L1 are exactly those numbered below the counter, each under its own number with a slot range
  that is not empty, and no later instruction changes a posted batch.
\<close>

theorem settlement_batches_sequential:
  assumes "l1_run rt (deployed lams toks) tr s" and "l1_run rt s tr' s'"
  shows "(st_batches s k \<noteq> None) = (\<exists>c. st_config s = Some c \<and> k < batch_count c)
    \<and> (st_batches s k = Some b \<longrightarrow> bt_batch_no b = k \<and> bt_first_slot b \<le> bt_last_slot b \<and> st_batches s' k = Some b)"
  using l1_run_batches [OF assms(1)] l1_run_batches_kept [OF assms(2)] by (auto simp: batches_ok_def)

theorem settlement_batches_sequential_witness:
  "\<exists>(s :: settlement) b. st_batches s 0 = Some b \<and> bt_batch_no b = 0 \<and> bt_first_slot b \<le> bt_last_slot b"
proof -
  obtain s where "l1_run sample_rt (deployed sample_lams (\<lambda>_. 0)) sample_history s" and "st_batches s 0 \<noteq> None"
    by (rule sample_run)
  then show ?thesis
    using settlement_batches_sequential [OF _ l1_run.l1_start, of sample_rt sample_lams "\<lambda>_. 0" sample_history s 0] by blast
qed

text \<open>
  C25: No withdrawal is claimed twice: in every history of the program the claims, of SOL and of
  tokens together, are for pairwise distinct pairs of recipient and nonce, and exactly those
  pairs have a claim account.
\<close>

theorem no_double_claim:
  assumes "l1_run rt (deployed lams toks) tr s"
  shows "distinct (List.map_filter claim_key tr) \<and> set (List.map_filter claim_key tr) = dom (st_claims s)"
  by (rule l1_run_claims [OF assms])

theorem no_double_claim_witness:
  "distinct (List.map_filter claim_key sample_history) \<and> List.map_filter claim_key sample_history = [([22], 4)]"
proof -
  obtain s where "l1_run sample_rt (deployed sample_lams (\<lambda>_. 0)) sample_history s" by (rule sample_run)
  from no_double_claim [OF this] show ?thesis by (simp add: sample_history_def List.map_filter_simps)
qed

text \<open>
  C26: The vault is accounted for: when transfers behave as documented and the vault is not a
  party to itself, for SOL and for every mint what the vault holds plus what has been claimed
  is what it held at the start plus what the deposit events say came in, so no more can be
  claimed than is there.
\<close>

theorem vault_accounts_balance:
  assumes "l1_run rt (deployed lams toks) tr s" and "transfers_ok rt" and "\<forall>ins\<in>set tr. not_vault rt ins"
  shows "vault_balance rt s x + sum_list (map (claimed_in x) tr)
    = vault_balance rt (deployed lams toks) x + sum_list (map (deposited_in x) (st_events s))"
  by (rule l1_run_vault [OF assms])

theorem vault_accounts_balance_witness:
  "\<exists>s. vault_balance sample_rt s None + sum_list (map (claimed_in None) sample_history)
    = vault_balance sample_rt (deployed sample_lams (\<lambda>_. 0)) None + sum_list (map (deposited_in None) (st_events s))
    \<and> vault_balance sample_rt s None = 20"
proof -
  obtain s where "l1_run sample_rt (deployed sample_lams (\<lambda>_. 0)) sample_history s" "vault_balance sample_rt s None = 20"
    by (rule sample_run)
  moreover have "\<forall>ins\<in>set sample_history. not_vault sample_rt ins" by (simp add: sample_history_def sample_rt_def)
  ultimately show ?thesis using vault_accounts_balance [OF _ sample_transfers] by blast
qed

end
