(* ===== verification/L1_Client.thy ===== *)
theory L1_Client
  imports Settlement
begin

text \<open>
  The L1 client of the bridge: \<^verbatim>\<open>client.rs\<close> and \<^verbatim>\<open>rpc.rs\<close> of \<^verbatim>\<open>zul-bridge\<close>. Instruction data, account
  layouts and event logs are byte strings, as the code builds and reads them. The JSON-RPC
  endpoint is the record \<open>l1_rpc\<close>: what it answers for an account, a transaction and a page of
  signatures, with the fields the code looks at; hashing for discriminators, address derivation,
  base58 and base64 are parameters in the same record. Signatures are kept as byte strings and
  account keys as the keys they spell; a field of the answer that is not a string is \<open>None\<close>.
  Error messages leave out the numbers the code formats into them. The record stands for what the
  endpoint answers during one call of the client, so \<open>rpc_send\<close> is the answer to a submission and
  not its effect; the effect on the L1 is modelled with the programs. Slot and batch arithmetic
  wraps, as in the release profile of \<^verbatim>\<open>chain/Cargo.toml\<close>, which has no overflow checks.
\<close>

section \<open>client.rs\<close>

record batch_record =
  br_batch_no :: u64
  br_first_slot :: u64
  br_last_slot :: u64
  br_state_root :: h256
  br_withdrawals_root :: h256
  br_da_hash :: h256
  br_chunk_count :: u32

datatype l1_error = RpcError string | TransactionFailed string


section \<open>rpc.rs: the endpoint\<close>

record l1_ix =
  ix_program_index :: "nat option"
  ix_encoded :: string

record l1_tx =
  tx_message :: "(pubkey option list \<times> l1_ix list) option"
  tx_logs :: "string option list"

record sig_entry =
  en_failed :: bool
  en_signature :: "bytes option"

record account_meta =
  am_pubkey :: pubkey
  am_signer :: bool
  am_writable :: bool

record l1_raw_instruction =
  ri_program :: pubkey
  ri_accounts :: "account_meta list"
  ri_data :: bytes

record sig_status =
  ss_failed :: bool
  ss_confirmation :: "string option"

record l1_rpc =
  sha256 :: "bytes \<Rightarrow> bytes"
  find_pda :: "bytes list \<Rightarrow> pubkey \<Rightarrow> pubkey"
  base58_decode :: "string \<Rightarrow> bytes option"
  base64_decode :: "string \<Rightarrow> bytes option"
  rpc_account :: "pubkey \<Rightarrow> l1_error + bytes option"
  rpc_transaction :: "bytes \<Rightarrow> l1_error + l1_tx"
  rpc_signatures :: "pubkey \<Rightarrow> bytes option \<Rightarrow> bytes option \<Rightarrow> nat \<Rightarrow> l1_error + sig_entry list"
  rpc_balance :: "pubkey \<Rightarrow> l1_error + u64 option"
  rpc_blockhash :: "l1_error + h256 option"
  rpc_send :: "l1_raw_instruction list \<Rightarrow> pubkey \<Rightarrow> h256 \<Rightarrow> l1_error + bytes option"
  rpc_status :: "bytes \<Rightarrow> nat \<Rightarrow> l1_error + sig_status option"

record rpc_client =
  rc_authority :: pubkey
  settlement_program :: pubkey
  da_log_program :: pubkey
  config_pda :: pubkey
  vault_pda :: pubkey

definition CONFIG_SEED :: bytes where
  "CONFIG_SEED = ascii ''config''"

definition VAULT_SEED :: bytes where
  "VAULT_SEED = ascii ''vault''"

definition BATCH_SEED :: bytes where
  "BATCH_SEED = ascii ''batch''"

definition client_new :: "l1_rpc \<Rightarrow> pubkey \<Rightarrow> pubkey \<Rightarrow> pubkey \<Rightarrow> rpc_client" where
  "client_new rpc auth settle da =
    \<lparr> rc_authority = auth, settlement_program = settle, da_log_program = da,
      config_pda = find_pda rpc [CONFIG_SEED] settle, vault_pda = find_pda rpc [VAULT_SEED] settle \<rparr>"

definition discriminator :: "l1_rpc \<Rightarrow> string \<Rightarrow> string \<Rightarrow> bytes" where
  "discriminator rpc namespace name = take 8 (sha256 rpc (ascii (namespace @ '':'' @ name)))"


section \<open>rpc.rs: building instructions\<close>

definition COMPUTE_BUDGET_ID :: pubkey where
  "COMPUTE_BUDGET_ID = [3, 6, 70, 111, 229, 33, 23, 50, 255, 236, 173, 186, 114, 195, 155, 231, 188,
    140, 229, 187, 197, 247, 18, 107, 44, 67, 155, 58, 64, 0, 0, 0]"

definition compute_unit_limit :: "u32 \<Rightarrow> l1_raw_instruction" where
  "compute_unit_limit units =
    \<lparr> ri_program = COMPUTE_BUDGET_ID, ri_accounts = [], ri_data = [2] @ u32_le units \<rparr>"

definition derive_ata :: "l1_rpc \<Rightarrow> pubkey \<Rightarrow> pubkey \<Rightarrow> pubkey \<Rightarrow> pubkey" where
  "derive_ata rpc own m token_program = find_pda rpc [own, token_program, m] ATA_PROGRAM_ID"

abbreviation am_rw :: "pubkey \<Rightarrow> bool \<Rightarrow> account_meta" where
  "am_rw pk signer \<equiv> \<lparr> am_pubkey = pk, am_signer = signer, am_writable = True \<rparr>"

abbreviation am_ro :: "pubkey \<Rightarrow> account_meta" where
  "am_ro pk \<equiv> \<lparr> am_pubkey = pk, am_signer = False, am_writable = False \<rparr>"

definition batch_pda :: "l1_rpc \<Rightarrow> rpc_client \<Rightarrow> u64 \<Rightarrow> pubkey" where
  "batch_pda rpc cl batch_no = find_pda rpc [BATCH_SEED, u64_le batch_no] (settlement_program cl)"

definition ix_initialize :: "l1_rpc \<Rightarrow> rpc_client \<Rightarrow> l1_raw_instruction" where
  "ix_initialize rpc cl =
    \<lparr> ri_program = settlement_program cl,
      ri_accounts = [am_rw (config_pda cl) False, am_ro (vault_pda cl), am_rw (rc_authority cl) True, am_ro SYSTEM_PROGRAM_ID],
      ri_data = discriminator rpc ''global'' ''initialize'' \<rparr>"

definition post_batch_data :: "l1_rpc \<Rightarrow> batch_record \<Rightarrow> bytes" where
  "post_batch_data rpc r = discriminator rpc ''global'' ''post_batch'' @ u64_le (br_batch_no r) @ u64_le (br_first_slot r)
    @ u64_le (br_last_slot r) @ br_state_root r @ br_withdrawals_root r @ br_da_hash r @ u32_le (br_chunk_count r)"

definition ix_post_batch :: "l1_rpc \<Rightarrow> rpc_client \<Rightarrow> batch_record \<Rightarrow> l1_raw_instruction" where
  "ix_post_batch rpc cl r =
    \<lparr> ri_program = settlement_program cl,
      ri_accounts = [am_rw (config_pda cl) False, am_rw (batch_pda rpc cl (br_batch_no r)) False,
        am_rw (rc_authority cl) True, am_ro SYSTEM_PROGRAM_ID],
      ri_data = post_batch_data rpc r \<rparr>"

definition post_chunk_data :: "l1_rpc \<Rightarrow> u64 \<Rightarrow> u32 \<Rightarrow> u32 \<Rightarrow> bytes \<Rightarrow> bytes" where
  "post_chunk_data rpc batch_no chunk_index chunk_count chunk =
    discriminator rpc ''global'' ''post_chunk'' @ u64_le batch_no @ u32_le chunk_index @ u32_le chunk_count
      @ u32_le (of_nat (length chunk)) @ chunk"

definition ix_post_chunk :: "l1_rpc \<Rightarrow> rpc_client \<Rightarrow> u64 \<Rightarrow> u32 \<Rightarrow> u32 \<Rightarrow> bytes \<Rightarrow> l1_raw_instruction" where
  "ix_post_chunk rpc cl batch_no chunk_index chunk_count chunk =
    \<lparr> ri_program = da_log_program cl, ri_accounts = [am_rw (rc_authority cl) True],
      ri_data = post_chunk_data rpc batch_no chunk_index chunk_count chunk \<rparr>"

definition ix_deposit_sol :: "l1_rpc \<Rightarrow> rpc_client \<Rightarrow> u64 \<Rightarrow> pubkey \<Rightarrow> l1_raw_instruction" where
  "ix_deposit_sol rpc cl amount recipient =
    \<lparr> ri_program = settlement_program cl,
      ri_accounts = [am_rw (config_pda cl) False, am_rw (vault_pda cl) False, am_rw (rc_authority cl) True, am_ro SYSTEM_PROGRAM_ID],
      ri_data = discriminator rpc ''global'' ''deposit_sol'' @ u64_le amount @ recipient \<rparr>"

definition ix_deposit_spl :: "l1_rpc \<Rightarrow> rpc_client \<Rightarrow> u64 \<Rightarrow> pubkey \<Rightarrow> pubkey \<Rightarrow> pubkey \<Rightarrow> l1_raw_instruction" where
  "ix_deposit_spl rpc cl amount m token_program recipient =
    \<lparr> ri_program = settlement_program cl,
      ri_accounts = [am_ro (config_pda cl), am_ro (vault_pda cl), am_ro m,
        am_rw (derive_ata rpc (rc_authority cl) m token_program) False,
        am_rw (derive_ata rpc (vault_pda cl) m token_program) False, am_rw (rc_authority cl) True,
        am_ro token_program, am_ro ATA_PROGRAM_ID, am_ro SYSTEM_PROGRAM_ID],
      ri_data = discriminator rpc ''global'' ''deposit_spl'' @ u64_le amount @ recipient \<rparr>"

definition claim_pda :: "l1_rpc \<Rightarrow> rpc_client \<Rightarrow> pubkey \<Rightarrow> u64 \<Rightarrow> pubkey" where
  "claim_pda rpc cl recipient nonce = find_pda rpc [ascii ''claim'', recipient, u64_le nonce] (settlement_program cl)"

definition claim_data :: "l1_rpc \<Rightarrow> string \<Rightarrow> u64 \<Rightarrow> u64 \<Rightarrow> u64 \<Rightarrow> bytes \<Rightarrow> h256 list \<Rightarrow> bytes" where
  "claim_data rpc name batch_no amount nonce bm sibs =
    discriminator rpc ''global'' name @ u64_le batch_no @ u64_le amount @ u64_le nonce @ bm
      @ u32_le (of_nat (length sibs)) @ concat sibs"

definition ix_claim_withdrawal ::
  "l1_rpc \<Rightarrow> rpc_client \<Rightarrow> u64 \<Rightarrow> u64 \<Rightarrow> u64 \<Rightarrow> pubkey \<Rightarrow> bytes \<Rightarrow> h256 list \<Rightarrow> l1_raw_instruction" where
  "ix_claim_withdrawal rpc cl batch_no amount nonce recipient bm sibs =
    \<lparr> ri_program = settlement_program cl,
      ri_accounts = [am_ro (config_pda cl), am_ro (batch_pda rpc cl batch_no), am_rw (vault_pda cl) False,
        am_rw recipient False, am_rw (claim_pda rpc cl recipient nonce) False, am_rw (rc_authority cl) True,
        am_ro SYSTEM_PROGRAM_ID],
      ri_data = claim_data rpc ''claim_withdrawal'' batch_no amount nonce bm sibs \<rparr>"

definition ix_claim_withdrawal_spl ::
  "l1_rpc \<Rightarrow> rpc_client \<Rightarrow> u64 \<Rightarrow> u64 \<Rightarrow> u64 \<Rightarrow> pubkey \<Rightarrow> pubkey \<Rightarrow> pubkey \<Rightarrow> bytes \<Rightarrow> h256 list
    \<Rightarrow> l1_raw_instruction" where
  "ix_claim_withdrawal_spl rpc cl batch_no amount nonce recipient m token_program bm sibs =
    \<lparr> ri_program = settlement_program cl,
      ri_accounts = [am_ro (config_pda cl), am_ro (batch_pda rpc cl batch_no), am_ro (vault_pda cl), am_ro m,
        am_rw (derive_ata rpc (vault_pda cl) m token_program) False, am_ro recipient,
        am_rw (derive_ata rpc recipient m token_program) False, am_rw (claim_pda rpc cl recipient nonce) False,
        am_rw (rc_authority cl) True, am_ro token_program, am_ro ATA_PROGRAM_ID, am_ro SYSTEM_PROGRAM_ID],
      ri_data = claim_data rpc ''claim_withdrawal_spl'' batch_no amount nonce bm sibs \<rparr>"


section \<open>rpc.rs: submitting\<close>

text \<open>\<open>confirm_from\<close> is the loop of \<open>confirm\<close> with the attempts that are left; the status may change
  from one attempt to the next, so the endpoint sees the attempt's number.\<close>

fun confirm_from :: "l1_rpc \<Rightarrow> bytes \<Rightarrow> nat \<Rightarrow> l1_error + unit" where
  "confirm_from rpc sig 0 = Inl (TransactionFailed ''not confirmed within timeout'')"
| "confirm_from rpc sig (Suc left) =
    (case rpc_status rpc sig (45 - Suc left) of Inl e \<Rightarrow> Inl e
     | Inr None \<Rightarrow> confirm_from rpc sig left
     | Inr (Some st) \<Rightarrow>
       if ss_failed st then Inl (TransactionFailed ''failed'')
       else if ss_confirmation st = Some ''confirmed'' \<or> ss_confirmation st = Some ''finalized'' then Inr ()
       else confirm_from rpc sig left)"

definition confirm :: "l1_rpc \<Rightarrow> bytes \<Rightarrow> l1_error + unit" where
  "confirm rpc sig = confirm_from rpc sig 45"

definition l1_latest_blockhash :: "l1_rpc \<Rightarrow> l1_error + h256" where
  "l1_latest_blockhash rpc =
    (case rpc_blockhash rpc of Inl e \<Rightarrow> Inl e
     | Inr None \<Rightarrow> Inl (RpcError ''getLatestBlockhash: missing blockhash'') | Inr (Some h) \<Rightarrow> Inr h)"

definition send_and_confirm :: "l1_rpc \<Rightarrow> rpc_client \<Rightarrow> l1_raw_instruction \<Rightarrow> l1_error + bytes" where
  "send_and_confirm rpc cl ix =
    (case l1_latest_blockhash rpc of Inl e \<Rightarrow> Inl e
     | Inr h \<Rightarrow>
       (case rpc_send rpc [compute_unit_limit 1400000, ix] (rc_authority cl) h of Inl e \<Rightarrow> Inl e
        | Inr None \<Rightarrow> Inl (RpcError ''sendTransaction: no signature'')
        | Inr (Some sig) \<Rightarrow> (case confirm rpc sig of Inl e \<Rightarrow> Inl e | Inr _ \<Rightarrow> Inr sig)))"

definition ensure_initialized :: "l1_rpc \<Rightarrow> rpc_client \<Rightarrow> l1_error + unit" where
  "ensure_initialized rpc cl =
    (case rpc_account rpc (config_pda cl) of Inl e \<Rightarrow> Inl e
     | Inr (Some _) \<Rightarrow> Inr ()
     | Inr None \<Rightarrow> (case send_and_confirm rpc cl (ix_initialize rpc cl) of Inl e \<Rightarrow> Inl e | Inr _ \<Rightarrow> Inr ()))"

definition authority_balance :: "l1_rpc \<Rightarrow> rpc_client \<Rightarrow> l1_error + u64" where
  "authority_balance rpc cl =
    (case rpc_balance rpc (rc_authority cl) of Inl e \<Rightarrow> Inl e
     | Inr None \<Rightarrow> Inl (RpcError ''getBalance: missing value'') | Inr (Some b) \<Rightarrow> Inr b)"


section \<open>rpc.rs: reading records\<close>

definition config_batch_count :: "l1_rpc \<Rightarrow> rpc_client \<Rightarrow> l1_error + u64" where
  "config_batch_count rpc cl =
    (case rpc_account rpc (config_pda cl) of Inl e \<Rightarrow> Inl e
     | Inr None \<Rightarrow> Inr 0
     | Inr (Some d) \<Rightarrow>
       if length d < 48 then Inl (RpcError ''config account too small'') else Inr (u64_of_le (take 8 (drop 40 d))))"

definition latest_batch_no :: "l1_rpc \<Rightarrow> rpc_client \<Rightarrow> l1_error + u64 option" where
  "latest_batch_no rpc cl =
    (case config_batch_count rpc cl of Inl e \<Rightarrow> Inl e
     | Inr cnt \<Rightarrow> Inr (if cnt = 0 then None else Some (cnt - 1)))"

definition parse_batch_record :: "bytes \<Rightarrow> batch_record option" where
  "parse_batch_record d =
    (let le8 = (\<lambda>p. u64_of_le (take 8 (drop p d))); h32 = (\<lambda>p. take 32 (drop p d))
     in if length d \<ge> 132
        then Some \<lparr> br_batch_no = le8 8, br_first_slot = le8 16, br_last_slot = le8 24, br_state_root = h32 32,
               br_withdrawals_root = h32 64, br_da_hash = h32 96, br_chunk_count = u32_of_le (take 4 (drop 128 d)) \<rparr>
        else if length d \<ge> 100
        then Some \<lparr> br_batch_no = le8 8, br_first_slot = le8 16, br_last_slot = le8 24, br_state_root = h32 32,
               br_withdrawals_root = replicate 32 0, br_da_hash = h32 64,
               br_chunk_count = u32_of_le (take 4 (drop 96 d)) \<rparr>
        else None)"

definition fetch_batch_record :: "l1_rpc \<Rightarrow> rpc_client \<Rightarrow> u64 \<Rightarrow> l1_error + batch_record" where
  "fetch_batch_record rpc cl batch_no =
    (case rpc_account rpc (batch_pda rpc cl batch_no) of Inl e \<Rightarrow> Inl e
     | Inr None \<Rightarrow> Inl (RpcError ''record missing on L1'')
     | Inr (Some d) \<Rightarrow>
       (case parse_batch_record d of None \<Rightarrow> Inl (RpcError ''record too small'') | Some r \<Rightarrow> Inr r))"

definition resume_cursor_slot :: "l1_rpc \<Rightarrow> rpc_client \<Rightarrow> l1_error + u64" where
  "resume_cursor_slot rpc cl =
    (case config_batch_count rpc cl of Inl e \<Rightarrow> Inl e
     | Inr cnt \<Rightarrow>
       if cnt = 0 then Inr 1
       else (case rpc_account rpc (batch_pda rpc cl (cnt - 1)) of Inl e \<Rightarrow> Inl e
             | Inr None \<Rightarrow> Inl (RpcError ''record missing on L1'')
             | Inr (Some d) \<Rightarrow>
               if length d < 32 then Inl (RpcError ''batch account too small'')
               else Inr (u64_of_le (take 8 (drop 24 d)) + 1)))"

fun find_batch_below :: "l1_rpc \<Rightarrow> rpc_client \<Rightarrow> h256 \<Rightarrow> nat \<Rightarrow> l1_error + u64 option" where
  "find_batch_below rpc cl root 0 = Inr None"
| "find_batch_below rpc cl root (Suc n) =
    (case fetch_batch_record rpc cl (of_nat n) of Inl e \<Rightarrow> Inl e
     | Inr r \<Rightarrow> if br_withdrawals_root r = root then Inr (Some (of_nat n)) else find_batch_below rpc cl root n)"

definition find_batch_for_withdrawals_root :: "l1_rpc \<Rightarrow> rpc_client \<Rightarrow> h256 \<Rightarrow> l1_error + u64 option" where
  "find_batch_for_withdrawals_root rpc cl root =
    (case config_batch_count rpc cl of Inl e \<Rightarrow> Inl e | Inr cnt \<Rightarrow> find_batch_below rpc cl root (unat cnt))"


section \<open>rpc.rs: data chunks\<close>

definition parse_post_chunk :: "bytes \<Rightarrow> bytes \<Rightarrow> (u64 \<times> u32 \<times> bytes) option" where
  "parse_post_chunk disc b =
    (if length b < 28 \<or> take 8 b \<noteq> disc then None
     else (let len = unat (u32_of_le (take 4 (drop 24 b)))
       in if 28 + len > length b then None
          else Some (u64_of_le (take 8 (drop 8 b)), u32_of_le (take 4 (drop 16 b)), take len (drop 28 b))))"

fun chunk_in_ixs :: "l1_rpc \<Rightarrow> rpc_client \<Rightarrow> bytes \<Rightarrow> pubkey option list \<Rightarrow> l1_ix list \<Rightarrow> (u64 \<times> u32 \<times> bytes) option" where
  "chunk_in_ixs rpc cl disc keys [] = None"
| "chunk_in_ixs rpc cl disc keys (ix # ixs) =
    (if (case ix_program_index ix of Some i \<Rightarrow> get_at keys i | None \<Rightarrow> None) \<noteq> Some (Some (da_log_program cl))
     then chunk_in_ixs rpc cl disc keys ixs
     else case base58_decode rpc (ix_encoded ix) of None \<Rightarrow> chunk_in_ixs rpc cl disc keys ixs
       | Some b \<Rightarrow> (case parse_post_chunk disc b of None \<Rightarrow> chunk_in_ixs rpc cl disc keys ixs | Some c \<Rightarrow> Some c))"

definition fetch_post_chunk :: "l1_rpc \<Rightarrow> rpc_client \<Rightarrow> bytes \<Rightarrow> bytes \<Rightarrow> l1_error + (u64 \<times> u32 \<times> bytes) option" where
  "fetch_post_chunk rpc cl sig disc =
    (case rpc_transaction rpc sig of Inl e \<Rightarrow> Inl e
     | Inr tx \<Rightarrow> (case tx_message tx of None \<Rightarrow> Inr None | Some (keys, ixs) \<Rightarrow> Inr (chunk_in_ixs rpc cl disc keys ixs)))"

type_synonym chunk_map = "u64 \<Rightarrow> (u32 \<times> bytes) list"

fun collect_chunks :: "l1_rpc \<Rightarrow> rpc_client \<Rightarrow> bytes \<Rightarrow> sig_entry list \<Rightarrow> chunk_map \<Rightarrow> l1_error + chunk_map" where
  "collect_chunks rpc cl disc [] m = Inr m"
| "collect_chunks rpc cl disc (en # ens) m =
    (if en_failed en then collect_chunks rpc cl disc ens m
     else case en_signature en of None \<Rightarrow> collect_chunks rpc cl disc ens m
       | Some sig \<Rightarrow>
         (case fetch_post_chunk rpc cl sig disc of Inl e \<Rightarrow> Inl e
          | Inr None \<Rightarrow> collect_chunks rpc cl disc ens m
          | Inr (Some (no, i, d)) \<Rightarrow> collect_chunks rpc cl disc ens (m(no := m no @ [(i, d)]))))"

text \<open>The paging loop; the fuel bounds the number of pages, and \<open>None\<close> is running out of it.\<close>

fun chunk_pages ::
  "l1_rpc \<Rightarrow> rpc_client \<Rightarrow> nat \<Rightarrow> bytes option \<Rightarrow> chunk_map \<Rightarrow> (l1_error + chunk_map) option" where
  "chunk_pages rpc cl 0 before m = None"
| "chunk_pages rpc cl (Suc fuel) before m =
    (case rpc_signatures rpc (da_log_program cl) before None 1000 of Inl e \<Rightarrow> Some (Inl e)
     | Inr ens \<Rightarrow>
       if ens = [] then Some (Inr m)
       else (case collect_chunks rpc cl (discriminator rpc ''global'' ''post_chunk'') ens m of Inl e \<Rightarrow> Some (Inl e)
         | Inr m' \<Rightarrow>
           if length ens < 1000 then Some (Inr m') else chunk_pages rpc cl fuel (en_signature (last ens)) m'))"

definition fetch_all_da_chunks :: "l1_rpc \<Rightarrow> rpc_client \<Rightarrow> nat \<Rightarrow> (l1_error + chunk_map) option" where
  "fetch_all_da_chunks rpc cl fuel = chunk_pages rpc cl fuel None (\<lambda>_. [])"


section \<open>rpc.rs: deposits\<close>

definition parse_deposited_event :: "l1_rpc \<Rightarrow> bytes \<Rightarrow> bytes \<Rightarrow> deposit_event option" where
  "parse_deposited_event rpc b sig =
    (if length b < 80 \<or> take 8 b \<noteq> discriminator rpc ''event'' ''Deposited'' then None
     else (let (m, dec) =
             (case get_at b 80 of None \<Rightarrow> (None, 9)
              | Some tag \<Rightarrow>
                if tag = 0 then (None, case get_at b 81 of Some d \<Rightarrow> d | None \<Rightarrow> 9)
                else if tag = 1 \<and> length b \<ge> 114 then (Some (take 32 (drop 81 b)), b ! 113)
                else (None, 9))
       in Some \<lparr> l1_signature = sig, mint = m, dep_decimals = dec, dep_amount = u64_of_le (take 8 (drop 40 b)),
                 l2_recipient = take 32 (drop 48 b) \<rparr>))"

definition strip_prefix :: "string \<Rightarrow> string \<Rightarrow> string option" where
  "strip_prefix pre str = (if take (length pre) str = pre then Some (drop (length pre) str) else None)"

text \<open>\<^verbatim>\<open>str::trim\<close> on the ASCII text of a log line.\<close>

definition is_space :: "char \<Rightarrow> bool" where
  "is_space c \<longleftrightarrow> of_char c = (32 :: nat) \<or> (9 \<le> (of_char c :: nat) \<and> (of_char c :: nat) \<le> 13)"

definition trim :: "string \<Rightarrow> string" where
  "trim str = rev (dropWhile is_space (rev (dropWhile is_space str)))"

fun deposit_in_logs :: "l1_rpc \<Rightarrow> bytes \<Rightarrow> string option list \<Rightarrow> deposit_event option" where
  "deposit_in_logs rpc sig [] = None"
| "deposit_in_logs rpc sig (line # lines) =
    (case Option.bind line (strip_prefix ''Program data: '') of None \<Rightarrow> deposit_in_logs rpc sig lines
     | Some encoded \<Rightarrow>
       (case base64_decode rpc (trim encoded) of None \<Rightarrow> deposit_in_logs rpc sig lines
        | Some b \<Rightarrow> (case parse_deposited_event rpc b sig of Some d \<Rightarrow> Some d | None \<Rightarrow> deposit_in_logs rpc sig lines)))"

definition deposit_in_tx :: "l1_rpc \<Rightarrow> bytes \<Rightarrow> l1_error + deposit_event option" where
  "deposit_in_tx rpc sig =
    (case rpc_transaction rpc sig of Inl e \<Rightarrow> Inl e | Inr tx \<Rightarrow> Inr (deposit_in_logs rpc sig (tx_logs tx)))"

fun deposits_of_entries :: "l1_rpc \<Rightarrow> sig_entry list \<Rightarrow> l1_error + deposit_event list" where
  "deposits_of_entries rpc [] = Inr []"
| "deposits_of_entries rpc (en # ens) =
    (if en_failed en then deposits_of_entries rpc ens
     else case en_signature en of None \<Rightarrow> deposits_of_entries rpc ens
       | Some sig \<Rightarrow>
         (case deposit_in_tx rpc sig of Inl e \<Rightarrow> Inl e
          | Inr d \<Rightarrow>
            (case deposits_of_entries rpc ens of Inl e \<Rightarrow> Inl e
             | Inr ds \<Rightarrow> Inr (case d of Some d \<Rightarrow> d # ds | None \<Rightarrow> ds))))"

definition fetch_deposits :: "l1_rpc \<Rightarrow> rpc_client \<Rightarrow> bytes option \<Rightarrow> l1_error + deposit_event list" where
  "fetch_deposits rpc cl after =
    (case rpc_signatures rpc (config_pda cl) None after 100 of Inl e \<Rightarrow> Inl e
     | Inr ens \<Rightarrow> deposits_of_entries rpc (rev ens))"

end
