(* ===== verification/Batcher.thy ===== *)
theory Batcher
  imports L1_Client
begin

text \<open>
  Settlement batching and recovery: \<^verbatim>\<open>batch.rs\<close>, \<^verbatim>\<open>recover.rs\<close> and \<^verbatim>\<open>deposit.rs\<close> of \<^verbatim>\<open>zul-bridge\<close>, and
  the settlement driver \<^verbatim>\<open>l1.rs\<close> of \<^verbatim>\<open>zul-node\<close>. The trait \<^verbatim>\<open>L1Client\<close> is the record \<open>l1_ops\<close>, whose
  operations act on a world; serialisation with compression is the pair of parameters
  \<open>batch_codec\<close>. Reading the store cannot fail in the model of the store.
\<close>

section \<open>batch.rs\<close>

definition DA_CHUNK_BYTES :: nat where
  "DA_CHUNK_BYTES = 800"

definition DA_DOMAIN :: bytes where
  "DA_DOMAIN = ascii ''PL2:da:batch:v1''"

record batch_payload =
  bp_batch_no :: u64
  bp_first_slot :: u64
  bp_last_slot :: u64
  bp_blocks :: "block list"

record batch_codec =
  compress :: "batch_payload \<Rightarrow> bytes"
  decompress :: "bytes \<Rightarrow> batch_payload option"

datatype batch_error = BatchL1 l1_error | BatchCorrupt

definition da_hash :: "hasher \<Rightarrow> bytes \<Rightarrow> h256" where
  "da_hash b3 compressed = blake3_32 b3 DA_DOMAIN compressed"

function slice_chunks :: "nat \<Rightarrow> 'a list \<Rightarrow> 'a list list" where
  "slice_chunks n xs = (if xs = [] \<or> n = 0 then [] else take n xs # slice_chunks n (drop n xs))"
  by auto
termination by (relation "measure (length \<circ> snd)") auto

declare slice_chunks.simps [simp del]

definition chunk_payload :: "bytes \<Rightarrow> bytes list" where
  "chunk_payload compressed = slice_chunks DA_CHUNK_BYTES compressed"

record 'w l1_ops =
  post_da_chunk :: "u64 \<Rightarrow> u32 \<Rightarrow> u32 \<Rightarrow> bytes \<Rightarrow> 'w \<Rightarrow> 'w \<times> (l1_error + bytes)"
  post_batch_record :: "batch_record \<Rightarrow> 'w \<Rightarrow> 'w \<times> (l1_error + bytes)"
  op_latest_batch_no :: "'w \<Rightarrow> l1_error + u64 option"
  op_fetch_deposits :: "bytes option \<Rightarrow> 'w \<Rightarrow> l1_error + deposit_event list"

record batcher =
  cursor_slot :: u64
  next_batch_no :: u64

definition batcher_new :: "'w l1_ops \<Rightarrow> u64 \<Rightarrow> 'w \<Rightarrow> batch_error + batcher" where
  "batcher_new ops cursor w =
    (case op_latest_batch_no ops w of Inl e \<Rightarrow> Inl (BatchL1 e)
     | Inr posted \<Rightarrow>
       Inr \<lparr> cursor_slot = cursor, next_batch_no = (case posted of Some n \<Rightarrow> n + 1 | None \<Rightarrow> 0) \<rparr>)"

fun scan_blocks :: "'e store \<Rightarrow> u64 list \<Rightarrow> block list \<times> h256 option \<Rightarrow> block list \<times> h256 option" where
  "scan_blocks s [] acc = acc"
| "scan_blocks s (sl # sls) (bs, root) =
    (case get_block s sl of None \<Rightarrow> scan_blocks s sls (bs, root)
     | Some b \<Rightarrow>
       scan_blocks s sls (if transaction_count (header b) > 0 then bs @ [b] else bs, Some (state_root (header b))))"

fun post_chunks ::
  "'w l1_ops \<Rightarrow> u64 \<Rightarrow> u32 \<Rightarrow> nat \<Rightarrow> bytes list \<Rightarrow> 'w \<Rightarrow> 'w \<times> (l1_error + unit)" where
  "post_chunks ops no cnt i [] w = (w, Inr ())"
| "post_chunks ops no cnt i (c # cs) w =
    (case post_da_chunk ops no (of_nat i) cnt c w of
       (w', Inl e) \<Rightarrow> (w', Inl e) | (w', Inr _) \<Rightarrow> post_chunks ops no cnt (Suc i) cs w')"

definition post_payload ::
  "hasher \<Rightarrow> batch_codec \<Rightarrow> 'w l1_ops \<Rightarrow> batch_payload \<Rightarrow> h256 \<Rightarrow> h256 \<Rightarrow> 'w \<Rightarrow> 'w \<times> (batch_error + batch_record)" where
  "post_payload b3 cod ops p sroot wroot w =
    (let compressed = compress cod p; chunks = chunk_payload compressed; cnt = of_nat (length chunks)
     in case post_chunks ops (bp_batch_no p) cnt 0 chunks w of
          (w1, Inl e) \<Rightarrow> (w1, Inl (BatchL1 e))
        | (w1, Inr _) \<Rightarrow>
          (let r = \<lparr> br_batch_no = bp_batch_no p, br_first_slot = bp_first_slot p, br_last_slot = bp_last_slot p,
                 br_state_root = sroot, br_withdrawals_root = wroot, br_da_hash = da_hash b3 compressed,
                 br_chunk_count = cnt \<rparr>
           in case post_batch_record ops r w1 of
                (w2, Inl e) \<Rightarrow> (w2, Inl (BatchL1 e)) | (w2, Inr _) \<Rightarrow> (w2, Inr r)))"

definition run_once ::
  "hasher \<Rightarrow> batch_codec \<Rightarrow> 'w l1_ops \<Rightarrow> batcher \<Rightarrow> 'e store \<Rightarrow> u64 \<Rightarrow> 'w
    \<Rightarrow> 'w \<times> batcher \<times> (batch_error + batch_record option)" where
  "run_once b3 cod ops bt s tip w =
    (if tip < cursor_slot bt then (w, bt, Inr None)
     else case scan_blocks s (block_slots_in_range s (cursor_slot bt) tip 10000) ([], None) of
       (bs, None) \<Rightarrow> (w, bt\<lparr> cursor_slot := tip + 1 \<rparr>, Inr None)
     | (bs, Some root) \<Rightarrow>
       if bs = [] then (w, bt\<lparr> cursor_slot := tip + 1 \<rparr>, Inr None)
       else (case post_payload b3 cod ops
               \<lparr> bp_batch_no = next_batch_no bt, bp_first_slot = cursor_slot bt, bp_last_slot = tip, bp_blocks = bs \<rparr>
               root (withdrawals_root s) w of
           (w', Inl e) \<Rightarrow> (w', bt, Inl e)
         | (w', Inr r) \<Rightarrow>
           (w', \<lparr> cursor_slot = tip + 1, next_batch_no = next_batch_no bt + 1 \<rparr>, Inr (Some r))))"


section \<open>rpc.rs: fetching batches back\<close>

record recovered_batch =
  rb_record :: batch_record
  rb_payload :: batch_payload

definition recover_batch ::
  "hasher \<Rightarrow> batch_codec \<Rightarrow> batch_record \<Rightarrow> (u32 \<times> bytes) list \<Rightarrow> l1_error + recovered_batch" where
  "recover_batch b3 cod r parts =
    (let compressed = concat (map snd (sort_key fst parts))
     in if da_hash b3 compressed \<noteq> br_da_hash r then Inl (RpcError ''DA reassembly hash mismatch'')
        else case decompress cod compressed of None \<Rightarrow> Inl (RpcError ''decompress'')
          | Some p \<Rightarrow> Inr \<lparr> rb_record = r, rb_payload = p \<rparr>)"

fun recover_from ::
  "hasher \<Rightarrow> batch_codec \<Rightarrow> l1_rpc \<Rightarrow> rpc_client \<Rightarrow> chunk_map \<Rightarrow> nat list \<Rightarrow> l1_error + recovered_batch list" where
  "recover_from b3 cod rpc cl m [] = Inr []"
| "recover_from b3 cod rpc cl m (k # ks) =
    (case fetch_batch_record rpc cl (of_nat k) of Inl e \<Rightarrow> Inl e
     | Inr r \<Rightarrow>
       (case recover_batch b3 cod r (m (of_nat k)) of Inl e \<Rightarrow> Inl e
        | Inr rb \<Rightarrow> (case recover_from b3 cod rpc cl m ks of Inl e \<Rightarrow> Inl e | Inr rbs \<Rightarrow> Inr (rb # rbs))))"

definition fetch_settlement_batches ::
  "hasher \<Rightarrow> batch_codec \<Rightarrow> l1_rpc \<Rightarrow> rpc_client \<Rightarrow> nat \<Rightarrow> (l1_error + recovered_batch list) option" where
  "fetch_settlement_batches b3 cod rpc cl fuel =
    (case config_batch_count rpc cl of Inl e \<Rightarrow> Some (Inl e)
     | Inr cnt \<Rightarrow>
       if cnt = 0 then Some (Inr [])
       else (case fetch_all_da_chunks rpc cl fuel of None \<Rightarrow> None
         | Some (Inl e) \<Rightarrow> Some (Inl e)
         | Some (Inr m) \<Rightarrow> Some (recover_from b3 cod rpc cl m [0..<unat cnt])))"


section \<open>recover.rs\<close>

record recovery_summary =
  rs_batches :: u64
  rs_blocks :: u64
  rs_transactions :: u64
  rs_first_slot :: u64
  rs_last_slot :: u64
  rs_final_state_root :: h256

datatype recover_error =
  RecoverEmpty
| SequenceGap u64 u64
| NonContiguous u64 u64 u64
| OutOfRange u64 u64
| EmptyPayload u64

fun first_outside :: "u64 \<Rightarrow> u64 \<Rightarrow> block list \<Rightarrow> u64 option" where
  "first_outside lo hi [] = None"
| "first_outside lo hi (b # bs) =
    (if slot (header b) < lo \<or> slot (header b) > hi then Some (slot (header b)) else first_outside lo hi bs)"

text \<open>The loop of \<open>verify\<close>; \<open>prev\<close> is \<^verbatim>\<open>prev_last_slot\<close>, and the summary holds the running totals.\<close>

fun verify_from ::
  "nat \<Rightarrow> u64 option \<Rightarrow> recovery_summary \<Rightarrow> recovered_batch list \<Rightarrow> recover_error + recovery_summary" where
  "verify_from i prev su [] = Inr su"
| "verify_from i prev su (rb # rbs) =
    (let r = rb_record rb; bs = bp_blocks (rb_payload rb)
     in if br_batch_no r \<noteq> of_nat i then Inl (SequenceGap (of_nat i) (br_batch_no r))
        else if (case prev of Some p \<Rightarrow> br_first_slot r \<le> p | None \<Rightarrow> False)
          then Inl (NonContiguous (br_batch_no r) (br_first_slot r) (the prev))
        else if bs = [] then Inl (EmptyPayload (br_batch_no r))
        else case first_outside (br_first_slot r) (br_last_slot r) bs of
            Some sl \<Rightarrow> Inl (OutOfRange (br_batch_no r) sl)
          | None \<Rightarrow>
            verify_from (Suc i) (Some (br_last_slot r))
              (su\<lparr> rs_blocks := rs_blocks su + of_nat (length bs),
                  rs_transactions := rs_transactions su + sum_list (map (of_nat \<circ> length \<circ> transactions) bs),
                  rs_first_slot := (if prev = None then br_first_slot r else rs_first_slot su),
                  rs_last_slot := br_last_slot r, rs_final_state_root := br_state_root r \<rparr>) rbs)"

definition verify_batches :: "recovered_batch list \<Rightarrow> recover_error + recovery_summary" where
  "verify_batches rbs =
    (if rbs = [] then Inl RecoverEmpty
     else verify_from 0 None \<lparr> rs_batches = of_nat (length rbs), rs_blocks = 0, rs_transactions = 0,
       rs_first_slot = 0, rs_last_slot = 0, rs_final_state_root = replicate 32 0 \<rparr> rbs)"


section \<open>deposit.rs\<close>

datatype credit_action = CreditNative pubkey u64 | MintWrappedSol pubkey u64

record deposit_ledger =
  is_processed :: "bytes \<Rightarrow> bool"
  dl_cursor :: "bytes option"

definition credit_action_for :: "pubkey \<Rightarrow> deposit_event \<Rightarrow> credit_action option" where
  "credit_action_for zul_mint ev =
    (case mint ev of None \<Rightarrow> Some (MintWrappedSol (l2_recipient ev) (dep_amount ev))
     | Some m \<Rightarrow> if m = zul_mint then Some (CreditNative (l2_recipient ev) (dep_amount ev)) else None)"

fun poll_events :: "pubkey \<Rightarrow> deposit_ledger \<Rightarrow> deposit_event list \<Rightarrow> (deposit_event \<times> credit_action) list" where
  "poll_events zul_mint led [] = []"
| "poll_events zul_mint led (ev # evs) =
    (if is_processed led (l1_signature ev) then poll_events zul_mint led evs
     else case credit_action_for zul_mint ev of None \<Rightarrow> poll_events zul_mint led evs
       | Some act \<Rightarrow> (ev, act) # poll_events zul_mint led evs)"

definition deposit_poll ::
  "'w l1_ops \<Rightarrow> pubkey \<Rightarrow> deposit_ledger \<Rightarrow> 'w \<Rightarrow> l1_error + (deposit_event \<times> credit_action) list" where
  "deposit_poll ops zul_mint led w =
    (case op_fetch_deposits ops (dl_cursor led) w of Inl e \<Rightarrow> Inl e | Inr evs \<Rightarrow> Inr (poll_events zul_mint led evs))"


section \<open>l1.rs\<close>

definition MIN_AUTHORITY_LAMPORTS :: u64 where
  "MIN_AUTHORITY_LAMPORTS = 20000000"

datatype driver_next = Idle | CatchUp | Rederive

text \<open>
  One round of the loop: the batcher after it and how the round ends, by sleeping, by starting the
  next round at once, or by building the batcher again from L1. \<open>bal\<close> is \<open>None\<close> when the balance
  could not be read.
\<close>

definition driver_round ::
  "hasher \<Rightarrow> batch_codec \<Rightarrow> 'w l1_ops \<Rightarrow> l1_section \<Rightarrow> u64 option \<Rightarrow> 'e store \<Rightarrow> batcher \<times> 'w \<Rightarrow> (batcher \<times> 'w) \<times> driver_next" where
  "driver_round b3 cod ops l1 bal s bw =
    (let (bt, w) = bw; interval = max (batch_interval_slots l1) 1; latest = (case meta_latest_slot s of Some sl \<Rightarrow> sl | None \<Rightarrow> 0); cursor = cursor_slot bt
     in if latest \<ge> cursor
        then if (case bal of Some b \<Rightarrow> b < MIN_AUTHORITY_LAMPORTS | None \<Rightarrow> False) then ((bt, w), Idle)
          else (let tip = min latest (cursor + interval - 1)
            in case run_once b3 cod ops bt s tip w of
                 (w', bt', Inl e) \<Rightarrow> ((bt', w'), Rederive)
               | (w', bt', Inr _) \<Rightarrow> ((bt', w'), if tip < latest then CatchUp else Idle))
        else ((bt, w), Idle))"
definition build_batcher :: "l1_rpc \<Rightarrow> rpc_client \<Rightarrow> 'w l1_ops \<Rightarrow> 'w \<Rightarrow> batch_error + batcher" where
  "build_batcher rpc cl ops w =
    (case ensure_initialized rpc cl of Inl e \<Rightarrow> Inl (BatchL1 e)
     | Inr _ \<Rightarrow>
       (case resume_cursor_slot rpc cl of Inl e \<Rightarrow> Inl (BatchL1 e) | Inr cursor \<Rightarrow> batcher_new ops cursor w))"


section \<open>The L1 as the client meets it\<close>

text \<open>
  The client on the modelled programs: a submitted chunk goes through the data log and stays in the
  ledger, a batch record goes through the settlement program. A refused transaction leaves the
  ledger as it was. What the endpoint answers about deposits is the parameter \<open>deps\<close>.
\<close>

record l1_ledger =
  lg_settlement :: settlement
  lg_da :: "(u64 \<times> u32 \<times> bytes) list"

definition ledger_post_chunk :: "u64 \<Rightarrow> u32 \<Rightarrow> u32 \<Rightarrow> bytes \<Rightarrow> l1_ledger \<Rightarrow> l1_ledger \<times> (l1_error + bytes)" where
  "ledger_post_chunk no i cnt c w =
    (case post_chunk no i cnt c of Inl _ \<Rightarrow> (w, Inl (TransactionFailed ''post_chunk''))
     | Inr _ \<Rightarrow> (w\<lparr> lg_da := lg_da w @ [(no, i, c)] \<rparr>, Inr []))"

definition ledger_post_record :: "pubkey \<Rightarrow> u64 \<Rightarrow> batch_record \<Rightarrow> l1_ledger \<Rightarrow> l1_ledger \<times> (l1_error + bytes)" where
  "ledger_post_record auth now r w =
    (case post_batch auth (br_batch_no r) (br_first_slot r) (br_last_slot r) (br_state_root r)
        (br_withdrawals_root r) (br_da_hash r) (br_chunk_count r) now (lg_settlement w) of
       Inl _ \<Rightarrow> (w, Inl (TransactionFailed ''post_batch''))
     | Inr s \<Rightarrow> (w\<lparr> lg_settlement := s \<rparr>, Inr []))"

definition ledger_ops ::
  "(bytes option \<Rightarrow> l1_ledger \<Rightarrow> l1_error + deposit_event list) \<Rightarrow> pubkey \<Rightarrow> u64 \<Rightarrow> l1_ledger l1_ops" where
  "ledger_ops deps auth now =
    \<lparr> post_da_chunk = ledger_post_chunk, post_batch_record = ledger_post_record auth now,
      op_latest_batch_no = (\<lambda>w. Inr (case st_config (lg_settlement w) of None \<Rightarrow> None
        | Some c \<Rightarrow> if batch_count c = 0 then None else Some (batch_count c - 1))),
      op_fetch_deposits = deps \<rparr>"

definition record_of :: "l1_batch \<Rightarrow> batch_record" where
  "record_of b = \<lparr> br_batch_no = bt_batch_no b, br_first_slot = bt_first_slot b, br_last_slot = bt_last_slot b,
    br_state_root = bt_state_root b, br_withdrawals_root = bt_withdrawals_root b, br_da_hash = bt_da_hash b,
    br_chunk_count = bt_chunk_count b \<rparr>"

definition ledger_records :: "l1_ledger \<Rightarrow> batch_record list" where
  "ledger_records w =
    (case st_config (lg_settlement w) of None \<Rightarrow> []
     | Some c \<Rightarrow> List.map_filter (\<lambda>k. map_option record_of (st_batches (lg_settlement w) (of_nat k)))
         [0..<unat (batch_count c)])"

definition numbered :: "u64 \<Rightarrow> nat \<Rightarrow> bytes list \<Rightarrow> (u64 \<times> u32 \<times> bytes) list" where
  "numbered no i cs = map (\<lambda>(j, c). (no, of_nat j, c)) (enumerate i cs)"

definition chunk_parts :: "bytes \<Rightarrow> (u32 \<times> bytes) list" where
  "chunk_parts compressed = map snd (numbered 0 0 (chunk_payload compressed))"

text \<open>What a batcher relies on: a call that succeeds has published what it was given.\<close>

locale l1_poster =
  fixes ops :: "'w l1_ops"
    and chunks_of :: "'w \<Rightarrow> (u64 \<times> u32 \<times> bytes) list"
    and records_of :: "'w \<Rightarrow> batch_record list"
  assumes chunk_published:
    "post_da_chunk ops no i cnt c w = (w', Inr sg) \<Longrightarrow>
      chunks_of w' = chunks_of w @ [(no, i, c)] \<and> records_of w' = records_of w"
    and record_published:
    "post_batch_record ops r w = (w', Inr sg) \<Longrightarrow>
      chunks_of w' = chunks_of w \<and> records_of w' = records_of w @ [r]"
begin

lemma chunks_published:
  "post_chunks ops no cnt i cs w = (w', Inr u) \<Longrightarrow>
    chunks_of w' = chunks_of w @ numbered no i cs \<and> records_of w' = records_of w"
proof (induction cs arbitrary: i w)
  case (Cons c cs)
  obtain w1 res where one: "post_da_chunk ops no (of_nat i) cnt c w = (w1, res)" by (rule prod.exhaust)
  show ?case
  proof (cases res)
    case (Inr sg)
    with Cons.prems one have "post_chunks ops no cnt (Suc i) cs w1 = (w', Inr u)" by simp
    from Cons.IH [OF this] chunk_published [OF one [unfolded Inr]] show ?thesis
      by (simp add: numbered_def)
  qed (use Cons.prems one in simp)
qed (simp add: numbered_def)

lemma payload_published:
  assumes "post_payload b3 cod ops p sroot wroot w = (w', Inr r)"
  shows "chunks_of w' = chunks_of w @ numbered (bp_batch_no p) 0 (chunk_payload (compress cod p))
    \<and> records_of w' = records_of w @ [r]
    \<and> r = \<lparr> br_batch_no = bp_batch_no p, br_first_slot = bp_first_slot p, br_last_slot = bp_last_slot p,
        br_state_root = sroot, br_withdrawals_root = wroot, br_da_hash = da_hash b3 (compress cod p),
        br_chunk_count = of_nat (length (chunk_payload (compress cod p))) \<rparr>"
  using assms chunks_published record_published
  by (fastforce simp: post_payload_def Let_def split: prod.splits sum.splits)

end


section \<open>Lemmas\<close>

lemma concat_slice_chunks: "0 < n \<Longrightarrow> concat (slice_chunks n xs) = xs"
  by (induction n xs rule: slice_chunks.induct) (subst slice_chunks.simps, simp)

lemma slice_chunks_bounds:
  "c \<in> set (slice_chunks n xs) \<Longrightarrow> c \<noteq> [] \<and> length c \<le> n"
  by (induction n xs rule: slice_chunks.induct) (subst (asm) (2) slice_chunks.simps, auto split: if_splits)

lemma length_slice_chunks: "length (slice_chunks n xs) \<le> length xs"
proof (induction n xs rule: slice_chunks.induct)
  case (1 n xs)
  then show ?case by (subst slice_chunks.simps) (cases xs; fastforce)
qed

lemma concat_chunk_payload [simp]: "concat (chunk_payload c) = c"
  by (simp add: chunk_payload_def DA_CHUNK_BYTES_def concat_slice_chunks)

lemma chunk_payload_bounds: "c \<in> set (chunk_payload z) \<Longrightarrow> c \<noteq> [] \<and> length c \<le> 800"
  using slice_chunks_bounds by (fastforce simp: chunk_payload_def DA_CHUNK_BYTES_def)

lemma unat_of_nat_below: "k < unat w \<Longrightarrow> unat (of_nat k :: 'a::len word) = k" for w :: "'a::len word"
  using order.strict_trans [OF _ unsigned_less [where ?'a = nat, of w]] by (simp add: unat_of_nat)

lemma ledger_record_published:
  assumes "ledger_post_record auth now r w = (w', Inr sg)"
  shows "lg_da w' = lg_da w \<and> ledger_records w' = ledger_records w @ [r]"
proof -
  from assms obtain c cnt where c: "st_config (lg_settlement w) = Some c"
    and no: "br_batch_no r = batch_count c" and cnt: "checked_add (batch_count c) 1 = Some cnt"
    and w': "w' = w\<lparr> lg_settlement := (lg_settlement w)\<lparr>
        st_batches := (st_batches (lg_settlement w))(br_batch_no r \<mapsto>
          \<lparr> bt_batch_no = br_batch_no r, bt_first_slot = br_first_slot r, bt_last_slot = br_last_slot r,
            bt_state_root = br_state_root r, bt_withdrawals_root = br_withdrawals_root r, bt_da_hash = br_da_hash r,
            bt_chunk_count = br_chunk_count r, posted_at = now \<rparr>),
        st_config := Some (c\<lparr> batch_count := cnt \<rparr>),
        st_events := st_events (lg_settlement w) @ [BatchPosted (br_batch_no r) (br_first_slot r) (br_last_slot r)
          (br_state_root r) (br_da_hash r)] \<rparr> \<rparr>"
    by (auto simp: ledger_post_record_def post_batch_def split: sum.splits option.splits if_splits)
  have old: "of_nat k \<noteq> batch_count c" if "k < unat (batch_count c)" for k
    using that unat_of_nat_below by fastforce
  have "unat cnt = Suc (unat (batch_count c))" using cnt by (auto simp: checked_add_Some)
  then show ?thesis
    using old by (auto simp: w' c no ledger_records_def List.map_filter_def record_of_def intro!: map_cong filter_cong)
qed

interpretation ledger: l1_poster "ledger_ops deps auth now" lg_da ledger_records for deps auth now
proof
  fix no i cnt c w w' sg
  assume "post_da_chunk (ledger_ops deps auth now) no i cnt c w = (w', Inr sg)"
  then show "lg_da w' = lg_da w @ [(no, i, c)] \<and> ledger_records w' = ledger_records w"
    by (auto simp: ledger_ops_def ledger_post_chunk_def ledger_records_def split: sum.splits option.splits)
next
  fix r w w' sg
  assume "post_batch_record (ledger_ops deps auth now) r w = (w', Inr sg)"
  then show "lg_da w' = lg_da w \<and> ledger_records w' = ledger_records w @ [r]"
    by (intro ledger_record_published) (simp add: ledger_ops_def)
qed


text \<open>The blocks of a slot range, in slot order.\<close>

definition blocks_between :: "'e store \<Rightarrow> u64 \<Rightarrow> u64 \<Rightarrow> block list" where
  "blocks_between s lo hi = map snd (List.filter (\<lambda>(sl, b). lo \<le> sl \<and> sl \<le> hi) (RBT.entries (blocks s)))"

lemma scan_blocks_lookup:
  assumes "list_all2 (\<lambda>sl b. get_block s sl = Some b) sls bs"
  shows "scan_blocks s sls (acc, root) =
    (acc @ List.filter (\<lambda>b. transaction_count (header b) > 0) bs,
     if bs = [] then root else Some (state_root (header (last bs))))"
  using assms by (induction sls bs arbitrary: acc root rule: list_all2_induct) auto

lemma range_lookup:
  "list_all2 (\<lambda>sl b. get_block s sl = Some b)
    (List.filter (\<lambda>k. lo \<le> k \<and> k \<le> hi) (map fst (RBT.entries (blocks s)))) (blocks_between s lo hi)"
proof -
  have "list_all2 (\<lambda>sl b. get_block s sl = Some b)
      (map fst (List.filter (\<lambda>(sl, b). lo \<le> sl \<and> sl \<le> hi) es))
      (map snd (List.filter (\<lambda>(sl, b). lo \<le> sl \<and> sl \<le> hi) es))"
    if "set es \<subseteq> set (RBT.entries (blocks s))" for es
    using that by (induction es) (auto simp: get_block_def RBT.lookup_in_tree)
  from this [OF order.refl] show ?thesis
    by (simp add: blocks_between_def filter_map comp_def case_prod_unfold)
qed

lemma scan_range:
  assumes "length (blocks_between s lo hi) \<le> 10000"
  shows "scan_blocks s (block_slots_in_range s lo hi 10000) ([], None) =
    (List.filter (\<lambda>b. transaction_count (header b) > 0) (blocks_between s lo hi),
     if blocks_between s lo hi = [] then None else Some (state_root (header (last (blocks_between s lo hi)))))"
proof -
  note look = range_lookup [of s lo hi]
  have "length (List.filter (\<lambda>k. lo \<le> k \<and> k \<le> hi) (map fst (RBT.entries (blocks s)))) \<le> 10000"
    using list_all2_lengthD [OF look] assms by simp
  then have "block_slots_in_range s lo hi 10000
      = List.filter (\<lambda>k. lo \<le> k \<and> k \<le> hi) (map fst (RBT.entries (blocks s)))"
    by (simp add: block_slots_in_range_def push_until_take)
  with scan_blocks_lookup [OF look, of "[]" None] show ?thesis by simp
qed

lemma numbered_snd: "map (snd \<circ> snd) (numbered no i cs) = cs"
  by (induction cs arbitrary: i) (simp_all add: numbered_def)

lemma chunk_parts_concat: "concat (map snd (chunk_parts z)) = z"
  using numbered_snd [of 0 0 "chunk_payload z"] by (simp add: chunk_parts_def comp_def)

lemma chunk_parts_fst: "map fst (chunk_parts z) = map of_nat [0..<length (chunk_payload z)]"
  by (rule nth_equalityI) (simp_all add: chunk_parts_def numbered_def nth_enumerate_eq)

lemma chunk_parts_sorted:
  assumes "length (chunk_payload z) \<le> 2 ^ 32"
  shows "sorted (map fst (chunk_parts z))" and "distinct (map fst (chunk_parts z))"
proof -
  have u: "unat (of_nat k :: u32) = k" if "k < length (chunk_payload z)" for k
    using that assms by (simp add: unat_of_nat)
  show "sorted (map fst (chunk_parts z))"
    unfolding chunk_parts_fst by (auto simp: sorted_iff_nth_mono word_le_nat_alt u)
  show "distinct (map fst (chunk_parts z))"
    unfolding chunk_parts_fst distinct_map using u by (auto simp: inj_on_def) metis
qed

lemma recover_permuted:
  assumes "mset parts = mset (chunk_parts (compress cod p))" and "length (chunk_payload (compress cod p)) \<le> 2 ^ 32"
    and "br_da_hash r = da_hash b3 (compress cod p)" and "decompress cod (compress cod p) = Some p"
  shows "recover_batch b3 cod r parts = Inr \<lparr> rb_record = r, rb_payload = p \<rparr>"
proof -
  note so = chunk_parts_sorted [OF assms(2)]
  have "inj_on fst (set parts)"
    using so(2) mset_eq_setD [OF assms(1)] by (simp add: distinct_map)
  then have "sort_key fst parts = chunk_parts (compress cod p)"
    by (rule sort_key_inj_key_eq [OF assms(1) _ so(1)])
  then show ?thesis by (simp add: recover_batch_def chunk_parts_concat assms(3,4))
qed

end
