(* ===== verification/Settlement_Flow.thy ===== *)
theory Settlement_Flow
  imports Batcher
begin

text \<open>
  What batching, the L1 programs and recovery achieve together. \<open>settles\<close> are the runs of a batcher
  against the modelled programs; \<open>endpoint_serves\<close> says what an endpoint has to answer about the
  ledger at the end of such a run. The lemmas show that paging through the data log is complete,
  that the ledger holds the numbered chunks of each settled payload, and that the recovered batches
  pass the structural checks.
\<close>

section \<open>Paging\<close>

definition entry_chunk :: "l1_rpc \<Rightarrow> rpc_client \<Rightarrow> sig_entry \<Rightarrow> (u64 \<times> u32 \<times> bytes) option" where
  "entry_chunk rpc cl en =
    (if en_failed en then None
     else case en_signature en of None \<Rightarrow> None
       | Some sg \<Rightarrow> (case fetch_post_chunk rpc cl sg (discriminator rpc ''global'' ''post_chunk'') of Inl _ \<Rightarrow> None | Inr c \<Rightarrow> c))"

definition chunk_rows :: "l1_rpc \<Rightarrow> rpc_client \<Rightarrow> sig_entry list \<Rightarrow> (u64 \<times> u32 \<times> bytes) list" where
  "chunk_rows rpc cl ens = List.map_filter (entry_chunk rpc cl) ens"

definition parts_of :: "u64 \<Rightarrow> (u64 \<times> u32 \<times> bytes) list \<Rightarrow> (u32 \<times> bytes) list" where
  "parts_of no rows = map snd (List.filter (\<lambda>r. fst r = no) rows)"

definition after_sig :: "bytes option \<Rightarrow> sig_entry list \<Rightarrow> sig_entry list" where
  "after_sig before hist =
    (case before of None \<Rightarrow> hist | Some sg \<Rightarrow> tl (dropWhile (\<lambda>en. en_signature en \<noteq> Some sg) hist))"

text \<open>
  The documented behaviour of \<^verbatim>\<open>getSignaturesForAddress\<close> on a history, newest first: a page starts
  right after the given signature and holds at most the limit. Every transaction can be fetched.
\<close>

definition serves_history :: "l1_rpc \<Rightarrow> rpc_client \<Rightarrow> sig_entry list \<Rightarrow> bool" where
  "serves_history rpc cl hist \<longleftrightarrow>
    distinct (map en_signature hist) \<and> None \<notin> en_signature ` set hist
    \<and> (\<forall>before. rpc_signatures rpc (da_log_program cl) before None 1000 = Inr (take 1000 (after_sig before hist)))
    \<and> (\<forall>en\<in>set hist. \<forall>sg. en_signature en = Some sg \<longrightarrow> (\<exists>tx. rpc_transaction rpc sg = Inr tx))"

lemma parts_of_simps [simp]:
  "parts_of no [] = []"
  "parts_of no (r # rows) = (if fst r = no then snd r # parts_of no rows else parts_of no rows)"
  "parts_of no (rows @ rows') = parts_of no rows @ parts_of no rows'"
  by (simp_all add: parts_of_def)

lemma mset_parts_of: "mset rows = mset rows' \<Longrightarrow> mset (parts_of no rows) = mset (parts_of no rows')"
  unfolding parts_of_def mset_map by (metis mset_filter)

lemma chunk_rows_Cons [simp]:
  "chunk_rows rpc cl [] = []"
  "chunk_rows rpc cl (en # ens) =
    (case entry_chunk rpc cl en of None \<Rightarrow> chunk_rows rpc cl ens | Some c \<Rightarrow> c # chunk_rows rpc cl ens)"
  by (simp_all add: chunk_rows_def List.map_filter_simps split: option.split)

lemma chunk_rows_append: "chunk_rows rpc cl (a @ b) = chunk_rows rpc cl a @ chunk_rows rpc cl b"
  by (simp add: chunk_rows_def List.map_filter_def)

lemma collect_chunks_rows:
  assumes "\<forall>en\<in>set ens. \<forall>sg. en_signature en = Some sg \<longrightarrow> (\<exists>tx. rpc_transaction rpc sg = Inr tx)"
  shows "collect_chunks rpc cl (discriminator rpc ''global'' ''post_chunk'') ens m
    = Inr (\<lambda>no. m no @ parts_of no (chunk_rows rpc cl ens))"
  using assms
proof (induction ens arbitrary: m)
  case (Cons en ens)
  then show ?case
  proof (cases "en_failed en \<or> en_signature en = None")
    case False
    then obtain sg tx where "en_signature en = Some sg" "rpc_transaction rpc sg = Inr tx" "\<not> en_failed en"
      using Cons.prems by fastforce
    moreover have "\<exists>c. fetch_post_chunk rpc cl sg (discriminator rpc ''global'' ''post_chunk'') = Inr c"
      using calculation(2) by (auto simp: fetch_post_chunk_def split: option.splits)
    ultimately show ?thesis
      using Cons by (auto simp: entry_chunk_def fun_eq_iff split: option.splits)
  qed (auto simp: entry_chunk_def split: option.splits)
qed simp

lemma after_sig_nth:
  assumes "distinct (map en_signature hist)" and "None \<notin> en_signature ` set hist" and "n < length hist"
  shows "after_sig (en_signature (hist ! n)) hist = drop (Suc n) hist"
proof -
  obtain sg where sg: "en_signature (hist ! n) = Some sg"
    using assms(2,3) by (metis image_eqI nth_mem not_None_eq)
  have ne: "\<forall>en\<in>set (take n hist). en_signature en \<noteq> Some sg"
    using assms(1,3) sg by (auto simp: in_set_conv_nth distinct_conv_nth)
      (metis less_trans nat_neq_iff nth_map)
  have "after_sig (Some sg) (take n hist @ hist ! n # drop (Suc n) hist) = drop (Suc n) hist"
    using ne sg by (simp add: after_sig_def dropWhile_append2)
  moreover have "take n hist @ hist ! n # drop (Suc n) hist = hist"
    by (rule id_take_nth_drop [OF assms(3), symmetric])
  ultimately show ?thesis by (metis sg)
qed

lemma chunk_pages_complete:
  assumes serves: "serves_history rpc cl hist" and "after_sig before hist = drop n hist"
    and "length hist - n < 1000 * fuel"
  shows "chunk_pages rpc cl fuel before m = Some (Inr (\<lambda>no. m no @ parts_of no (chunk_rows rpc cl (drop n hist))))"
  using assms(2,3)
proof (induction fuel arbitrary: before n m)
  case (Suc fuel)
  define page where "page = take 1000 (drop n hist)"
  have sigs: "rpc_signatures rpc (da_log_program cl) before None 1000 = Inr page"
    using serves Suc.prems(1) by (simp add: serves_history_def page_def)
  have "set page \<subseteq> set hist" by (auto simp: page_def dest: in_set_takeD in_set_dropD)
  then have col: "collect_chunks rpc cl (discriminator rpc ''global'' ''post_chunk'') page m
      = Inr (\<lambda>no. m no @ parts_of no (chunk_rows rpc cl page))"
    using serves by (intro collect_chunks_rows) (auto simp: serves_history_def)
  show ?case
  proof (cases "length page < 1000")
    case True
    then have "drop n hist = page" by (simp add: page_def)
    then show ?thesis using sigs col True by auto
  next
    case False
    then have len: "n + 1000 \<le> length hist" by (simp add: page_def)
    then have "last page = hist ! (n + 999)" by (simp add: page_def last_conv_nth)
    then have following: "after_sig (en_signature (last page)) hist = drop (n + 1000) hist"
      using after_sig_nth [of hist "n + 999"] serves len by (simp add: serves_history_def add.commute)
    have "drop n hist = page @ drop (n + 1000) hist"
      unfolding page_def by (metis add.commute append_take_drop_id drop_drop)
    then have rows: "chunk_rows rpc cl (drop n hist) = chunk_rows rpc cl page @ chunk_rows rpc cl (drop (n + 1000) hist)"
      by (simp add: chunk_rows_append)
    have "length hist - (n + 1000) < 1000 * fuel" using Suc.prems(2) len by simp
    from Suc.IH [OF following this] False sigs col rows show ?thesis by auto
  qed
qed simp


section \<open>The structural checks of recovery\<close>

definition batch_fits :: "nat \<Rightarrow> recovered_batch \<Rightarrow> bool" where
  "batch_fits i rb \<longleftrightarrow> br_batch_no (rb_record rb) = of_nat i \<and> bp_blocks (rb_payload rb) \<noteq> []
    \<and> (\<forall>b\<in>set (bp_blocks (rb_payload rb)).
        br_first_slot (rb_record rb) \<le> slot (header b) \<and> slot (header b) \<le> br_last_slot (rb_record rb))"

definition batches_fit :: "nat \<Rightarrow> u64 option \<Rightarrow> recovered_batch list \<Rightarrow> bool" where
  "batches_fit i prev rbs \<longleftrightarrow>
    (\<forall>k<length rbs. batch_fits (i + k) (rbs ! k)
      \<and> (case (if k = 0 then prev else Some (br_last_slot (rb_record (rbs ! (k - 1))))) of None \<Rightarrow> True
         | Some l \<Rightarrow> l < br_first_slot (rb_record (rbs ! k))))"

lemma first_outside_None:
  "first_outside lo hi bs = None \<longleftrightarrow> (\<forall>b\<in>set bs. lo \<le> slot (header b) \<and> slot (header b) \<le> hi)"
  by (induction bs) (auto simp: not_less)

lemma batches_fit_Nil [simp]: "batches_fit i prev []"
  by (simp add: batches_fit_def)

lemma batches_fit_Cons:
  "batches_fit i prev (rb # rbs) \<longleftrightarrow>
    batch_fits i rb \<and> (case prev of None \<Rightarrow> True | Some l \<Rightarrow> l < br_first_slot (rb_record rb))
    \<and> batches_fit (Suc i) (Some (br_last_slot (rb_record rb))) rbs"
proof -
  have split: "(\<forall>k<length (rb # rbs). P k) \<longleftrightarrow> P 0 \<and> (\<forall>k<length rbs. P (Suc k))" for P
    using less_Suc_eq_0_disj by auto
  have "(if k = 0 then Some (br_last_slot (rb_record rb)) else Some (br_last_slot (rb_record (rbs ! (k - 1)))))
      = Some (br_last_slot (rb_record ((rb # rbs) ! k)))" for k
    by (cases k) auto
  then show ?thesis unfolding batches_fit_def split by (simp split: option.split)
qed

lemma verify_from_ok:
  "(\<exists>su'. verify_from i prev su rbs = Inr su') \<longleftrightarrow> batches_fit i prev rbs"
proof (induction rbs arbitrary: i prev su)
  case (Cons rb rbs)
  define fo where "fo = first_outside (br_first_slot (rb_record rb)) (br_last_slot (rb_record rb)) (bp_blocks (rb_payload rb))"
  have fits: "batch_fits i rb \<longleftrightarrow>
      br_batch_no (rb_record rb) = of_nat i \<and> bp_blocks (rb_payload rb) \<noteq> [] \<and> fo = None"
    by (simp add: batch_fits_def fo_def first_outside_None)
  show ?case
    unfolding batches_fit_Cons fits verify_from.simps Let_def fo_def [symmetric]
    using Cons.IH by (cases prev; cases fo) (auto simp: not_le)
qed simp

lemma verify_from_summary:
  "verify_from i prev su rbs = Inr su' \<Longrightarrow>
    rs_batches su' = rs_batches su
    \<and> rs_blocks su' = rs_blocks su + of_nat (sum_list (map (length \<circ> bp_blocks \<circ> rb_payload) rbs))
    \<and> (rbs \<noteq> [] \<longrightarrow> rs_last_slot su' = br_last_slot (rb_record (last rbs))
        \<and> rs_final_state_root su' = br_state_root (rb_record (last rbs))
        \<and> rs_first_slot su' = (if prev = None then br_first_slot (rb_record (hd rbs)) else rs_first_slot su))"
proof (induction rbs arbitrary: i prev su)
  case (Cons rb rbs)
  from Cons.prems obtain su1 where "verify_from (Suc i) (Some (br_last_slot (rb_record rb))) su1 rbs = Inr su'"
    and "rs_batches su1 = rs_batches su"
    and "rs_blocks su1 = rs_blocks su + of_nat (length (bp_blocks (rb_payload rb)))"
    and "rs_last_slot su1 = br_last_slot (rb_record rb)" and "rs_final_state_root su1 = br_state_root (rb_record rb)"
    and "rs_first_slot su1 = (if prev = None then br_first_slot (rb_record rb) else rs_first_slot su)"
    by (simp add: Let_def split: if_splits option.splits)
  with Cons.IH [OF this(1)] show ?case by (cases "rbs = []") (simp_all add: algebra_simps)
qed simp


section \<open>Runs of the batcher\<close>

definition posted_payload :: "batcher \<Rightarrow> 'e store \<Rightarrow> u64 \<Rightarrow> batch_payload" where
  "posted_payload bt s tip =
    \<lparr> bp_batch_no = next_batch_no bt, bp_first_slot = cursor_slot bt, bp_last_slot = tip,
      bp_blocks = List.filter (\<lambda>b. transaction_count (header b) > 0) (blocks_between s (cursor_slot bt) tip) \<rparr>"

definition slots_ok :: "'e store \<Rightarrow> bool" where
  "slots_ok s \<longleftrightarrow> list_all (\<lambda>(sl, b). slot (header b) = sl) (RBT.entries (blocks s))"

text \<open>An endpoint answers for the settlement program's accounts: the count and every record.\<close>

definition records_served :: "l1_rpc \<Rightarrow> rpc_client \<Rightarrow> l1_ledger \<Rightarrow> bool" where
  "records_served rpc cl w \<longleftrightarrow>
    config_batch_count rpc cl = Inr (of_nat (length (ledger_records w)))
    \<and> (\<forall>k<length (ledger_records w). fetch_batch_record rpc cl (of_nat k) = Inr (ledger_records w ! k))"

inductive settles ::
  "hasher \<Rightarrow> batch_codec \<Rightarrow> pubkey \<Rightarrow> 'e itself \<Rightarrow> batcher \<Rightarrow> l1_ledger \<Rightarrow> batch_payload list \<Rightarrow> bool"
  for b3 cod auth ty where
  settles_start: "st_config (lg_settlement w) = Some c \<Longrightarrow> batch_count c = 0 \<Longrightarrow> lg_da w = [] \<Longrightarrow>
    settles b3 cod auth ty \<lparr> cursor_slot = 1, next_batch_no = 0 \<rparr> w []"
| settles_step: "settles b3 cod auth ty bt w ps \<Longrightarrow>
    run_once b3 cod (ledger_ops deps auth now) bt (s :: 'e store) tip w = (w', bt', Inr res) \<Longrightarrow>
    length (blocks_between s (cursor_slot bt) tip) \<le> 10000 \<Longrightarrow> slots_ok s \<Longrightarrow> tip \<noteq> - 1 \<Longrightarrow>
    settles b3 cod auth ty bt' w' (ps @ (case res of None \<Rightarrow> [] | Some r \<Rightarrow> [posted_payload bt s tip]))"
| settles_resumed: "settles b3 cod auth ty bt w ps \<Longrightarrow> records_served rpc cl w \<Longrightarrow>
    build_batcher rpc cl (ledger_ops deps auth now) w = Inr bt' \<Longrightarrow> settles b3 cod auth ty bt' w ps"

lemma run_once_cases:
  assumes "run_once b3 cod (ledger_ops deps auth now) bt s tip w = (w', bt', Inr res)"
    and "length (blocks_between s (cursor_slot bt) tip) \<le> 10000"
  obtains (nothing) "res = None" "w' = w" "next_batch_no bt' = next_batch_no bt"
      "cursor_slot bt' = cursor_slot bt \<or> cursor_slot bt \<le> tip \<and> cursor_slot bt' = tip + 1"
  | (posted) r where "res = Some r" "cursor_slot bt \<le> tip" "bp_blocks (posted_payload bt s tip) \<noteq> []"
      "bt' = \<lparr> cursor_slot = tip + 1, next_batch_no = next_batch_no bt + 1 \<rparr>"
      "post_payload b3 cod (ledger_ops deps auth now) (posted_payload bt s tip)
        (state_root (header (last (blocks_between s (cursor_slot bt) tip)))) (withdrawals_root s) w = (w', Inr r)"
proof (cases "tip < cursor_slot bt")
  case True
  with assms(1) show ?thesis by - (rule nothing, auto simp: run_once_def)
next
  case False
  show ?thesis
  proof (cases "bp_blocks (posted_payload bt s tip) = []")
    case True
    with False assms(1) show ?thesis
      by - (rule nothing, auto simp: run_once_def scan_range [OF assms(2)] posted_payload_def split: if_splits)
  next
    case pay: False
    then have "blocks_between s (cursor_slot bt) tip \<noteq> []" by (auto simp: posted_payload_def)
    with False pay assms(1) posted show ?thesis
      by (auto simp: run_once_def scan_range [OF assms(2)] posted_payload_def split: prod.splits sum.splits)
  qed
qed


text \<open>What a run has established: the ledger holds the chunks and the record of every payload.\<close>

definition payload_settled :: "hasher \<Rightarrow> batch_codec \<Rightarrow> nat \<Rightarrow> batch_payload \<Rightarrow> batch_record \<Rightarrow> bool" where
  "payload_settled b3 cod k p r \<longleftrightarrow>
    bp_batch_no p = of_nat k \<and> br_batch_no r = of_nat k \<and> br_first_slot r = bp_first_slot p
    \<and> br_last_slot r = bp_last_slot p \<and> br_da_hash r = da_hash b3 (compress cod p) \<and> bp_blocks p \<noteq> []
    \<and> (\<forall>b\<in>set (bp_blocks p). bp_first_slot p \<le> slot (header b) \<and> slot (header b) \<le> bp_last_slot p)"

definition flow_ok :: "hasher \<Rightarrow> batch_codec \<Rightarrow> batcher \<Rightarrow> l1_ledger \<Rightarrow> batch_payload list \<Rightarrow> bool" where
  "flow_ok b3 cod bt w ps \<longleftrightarrow>
    (\<exists>c. st_config (lg_settlement w) = Some c \<and> batch_count c = next_batch_no bt)
    \<and> unat (next_batch_no bt) = length ps \<and> length (ledger_records w) = length ps
    \<and> lg_da w = concat (map (\<lambda>p. numbered (bp_batch_no p) 0 (chunk_payload (compress cod p))) ps)
    \<and> (\<forall>k<length ps. payload_settled b3 cod k (ps ! k) (ledger_records w ! k)
        \<and> bp_last_slot (ps ! k) < (if Suc k < length ps then bp_first_slot (ps ! Suc k) else cursor_slot bt))"

lemma ledger_record_count:
  assumes "ledger_post_record auth now r w = (w', Inr sg)"
  obtains c where "st_config (lg_settlement w) = Some c" "br_batch_no r = batch_count c"
    "st_config (lg_settlement w') = Some (c\<lparr> batch_count := batch_count c + 1 \<rparr>)"
    "unat (batch_count c + 1) = Suc (unat (batch_count c))"
  using assms that
  by (auto simp: ledger_post_record_def post_batch_def checked_add_Some split: sum.splits option.splits if_splits)

lemma post_chunks_settlement:
  "post_chunks (ledger_ops deps auth now) no cnt i cs w = (w', res) \<Longrightarrow> lg_settlement w' = lg_settlement w"
  by (induction cs arbitrary: i w)
    (auto simp: ledger_ops_def ledger_post_chunk_def split: prod.splits sum.splits)

lemma post_payload_count:
  assumes "post_payload b3 cod (ledger_ops deps auth now) p sroot wroot w = (w', Inr r)"
  obtains c where "st_config (lg_settlement w) = Some c" "bp_batch_no p = batch_count c"
    "st_config (lg_settlement w') = Some (c\<lparr> batch_count := batch_count c + 1 \<rparr>)"
    "unat (batch_count c + 1) = Suc (unat (batch_count c))"
proof -
  let ?z = "compress cod p"
  obtain w1 res where w1: "post_chunks (ledger_ops deps auth now) (bp_batch_no p)
      (of_nat (length (chunk_payload ?z))) 0 (chunk_payload ?z) w = (w1, res)" by (rule prod.exhaust)
  with assms obtain sg where "ledger_post_record auth now r w1 = (w', Inr sg)"
    by (auto simp: post_payload_def Let_def ledger_ops_def split: prod.splits sum.splits)
  then show ?thesis
  proof (rule ledger_record_count)
    fix c
    assume "st_config (lg_settlement w1) = Some c" "br_batch_no r = batch_count c"
      "st_config (lg_settlement w') = Some (c\<lparr> batch_count := batch_count c + 1 \<rparr>)"
      "unat (batch_count c + 1) = Suc (unat (batch_count c))"
    then show ?thesis
      using that [of c] post_chunks_settlement [OF w1] ledger.payload_published [OF assms] by simp
  qed
qed

lemma blocks_between_slots:
  assumes "slots_ok s" and "b \<in> set (blocks_between s lo hi)"
  shows "lo \<le> slot (header b) \<and> slot (header b) \<le> hi"
  using assms by (auto simp: slots_ok_def blocks_between_def list_all_iff)

lemma unat_next: "t \<noteq> - 1 \<Longrightarrow> unat (t + 1) = Suc (unat t)" for t :: u64
  using unatSuc [of t] max_word_wrap [of t] by (auto simp: add.commute)

lemma below_next: "x \<le> t \<Longrightarrow> t \<noteq> - 1 \<Longrightarrow> x < t + 1" for x t :: u64
  by (simp add: word_less_nat_alt word_le_nat_alt unat_next)

lemma flow_ok_extend:
  assumes "flow_ok b3 cod bt w ps" and "cursor_slot bt \<le> bp_first_slot p" and "bp_last_slot p < cursor_slot bt'"
    and "st_config (lg_settlement w') = Some c" "batch_count c = next_batch_no bt'"
    and "unat (next_batch_no bt') = Suc (length ps)"
    and "lg_da w' = lg_da w @ numbered (bp_batch_no p) 0 (chunk_payload (compress cod p))"
    and "ledger_records w' = ledger_records w @ [r]" and "payload_settled b3 cod (length ps) p r"
  shows "flow_ok b3 cod bt' w' (ps @ [p])"
proof -
  have len: "length (ledger_records w) = length ps" using assms(1) by (simp add: flow_ok_def)
  have "payload_settled b3 cod k ((ps @ [p]) ! k) ((ledger_records w @ [r]) ! k)
      \<and> bp_last_slot ((ps @ [p]) ! k)
        < (if Suc k < length (ps @ [p]) then bp_first_slot ((ps @ [p]) ! Suc k) else cursor_slot bt')"
    if "k < length (ps @ [p])" for k
  proof (cases "k < length ps")
    case True
    then have "payload_settled b3 cod k (ps ! k) (ledger_records w ! k)"
      and "bp_last_slot (ps ! k) < (if Suc k < length ps then bp_first_slot (ps ! Suc k) else cursor_slot bt)"
      using assms(1) by (simp_all add: flow_ok_def)
    with True assms(2) len show ?thesis
      by (cases "Suc k < length ps") (auto simp: nth_append not_less_eq dest: less_le_trans)
  next
    case False
    with that have "k = length ps" by simp
    with assms(3,9) len show ?thesis by (simp add: nth_append)
  qed
  with assms show ?thesis by (simp add: flow_ok_def)
qed

lemma resume_cursor_last:
  assumes "config_batch_count rpc cl = Inr cnt" and "cnt \<noteq> 0" and "fetch_batch_record rpc cl (cnt - 1) = Inr r"
  shows "resume_cursor_slot rpc cl = Inr (br_last_slot r + 1)"
  using assms
  by (auto simp: resume_cursor_slot_def fetch_batch_record_def parse_batch_record_def Let_def
    split: sum.splits option.splits if_splits)

text \<open>The slot after the settled payloads, where a batcher built from L1 starts again.\<close>

definition resume_slot :: "batch_payload list \<Rightarrow> u64" where
  "resume_slot ps = (if ps = [] then 1 else bp_last_slot (last ps) + 1)"

lemma resumed_batcher:
  assumes "flow_ok b3 cod bt w ps" and "records_served rpc cl w" and "ensure_initialized rpc cl = Inr ()"
  shows "build_batcher rpc cl (ledger_ops deps auth now) w
    = Inr \<lparr> cursor_slot = resume_slot ps, next_batch_no = next_batch_no bt \<rparr>"
proof -
  have len: "length (ledger_records w) = length ps" and un: "unat (next_batch_no bt) = length ps"
    using assms(1) by (auto simp: flow_ok_def)
  have no: "next_batch_no bt = of_nat (length ps)" by (simp flip: un)
  obtain c where c: "st_config (lg_settlement w) = Some c" "batch_count c = next_batch_no bt"
    using assms(1) by (auto simp: flow_ok_def)
  have cnt: "config_batch_count rpc cl = Inr (next_batch_no bt)"
    using assms(2) by (simp add: records_served_def len no)
  have "resume_cursor_slot rpc cl = Inr (resume_slot ps)"
  proof (cases "ps = []")
    case True
    then show ?thesis using cnt by (simp add: resume_cursor_slot_def resume_slot_def no)
  next
    case False
    define k where "k = length ps - 1"
    have k: "k < length ps" "length ps = Suc k" using False by (simp_all add: k_def)
    have "fetch_batch_record rpc cl (next_batch_no bt - 1) = Inr (ledger_records w ! k)"
      using assms(2) k len no by (simp add: records_served_def)
    moreover have "next_batch_no bt \<noteq> 0" using assms(1) False by (auto simp: flow_ok_def)
    moreover have "br_last_slot (ledger_records w ! k) = bp_last_slot (last ps)"
      using assms(1) k by (simp add: flow_ok_def payload_settled_def last_conv_nth [OF False])
    ultimately show ?thesis using resume_cursor_last [OF cnt] False by (simp add: resume_slot_def)
  qed
  then show ?thesis
    using assms(3) c by (simp add: build_batcher_def batcher_new_def ledger_ops_def)
qed

lemma resumed_flow:
  assumes "flow_ok b3 cod bt w ps"
  shows "flow_ok b3 cod \<lparr> cursor_slot = resume_slot ps, next_batch_no = next_batch_no bt \<rparr> w ps"
proof -
  have "bp_last_slot (ps ! k) < resume_slot ps" if "k < length ps" "\<not> Suc k < length ps" for k
  proof -
    have k: "k = length ps - 1" using that by simp
    have "bp_last_slot (ps ! k) < cursor_slot bt" using assms that by (auto simp: flow_ok_def)
    then have "bp_last_slot (ps ! k) \<noteq> - 1" by (metis word_order.extremum_strict)
    moreover have "resume_slot ps = bp_last_slot (ps ! k) + 1" using that by (auto simp: resume_slot_def k last_conv_nth)
    ultimately show ?thesis using below_next [of "bp_last_slot (ps ! k)"] by simp
  qed
  with assms show ?thesis unfolding flow_ok_def by (simp split: if_splits)
qed

lemma settles_flow: "settles b3 cod auth ty bt w ps \<Longrightarrow> flow_ok b3 cod bt w ps"
proof (induction rule: settles.induct)
  case (settles_start w c)
  then show ?case by (auto simp: flow_ok_def ledger_records_def)
next
  case (settles_step bt w ps deps now s tip w' bt' res)
  from settles_step.hyps(2,3) show ?case
  proof (cases rule: run_once_cases)
    case nothing
    note idle = this
    then have "cursor_slot bt \<le> cursor_slot bt'"
      using below_next [of "cursor_slot bt" tip] settles_step.hyps(5) by auto
    with idle settles_step.IH show ?thesis
      by (auto simp: flow_ok_def split: if_splits dest: less_le_trans)
  next
    case (posted r)
    let ?p = "posted_payload bt s tip"
    note pub = ledger.payload_published [OF posted(5)]
    from posted(5) obtain c where c: "st_config (lg_settlement w) = Some c" "bp_batch_no ?p = batch_count c"
      "st_config (lg_settlement w') = Some (c\<lparr> batch_count := batch_count c + 1 \<rparr>)"
      "unat (batch_count c + 1) = Suc (unat (batch_count c))" by (rule post_payload_count)
    have next_no: "batch_count c = next_batch_no bt" using settles_step.IH c(1) by (simp add: flow_ok_def)
    moreover have "unat (next_batch_no bt) = length ps" using settles_step.IH by (simp add: flow_ok_def)
    moreover have "\<forall>b\<in>set (bp_blocks ?p). cursor_slot bt \<le> slot (header b) \<and> slot (header b) \<le> tip"
      using blocks_between_slots [OF settles_step.hyps(4)] by (auto simp: posted_payload_def)
    moreover have "next_batch_no bt = of_nat (length ps)" by (simp flip: calculation(2))
    ultimately have "payload_settled b3 cod (length ps) ?p r"
      using pub posted(3) by (simp add: payload_settled_def posted_payload_def)
    then show ?thesis
      using flow_ok_extend [OF settles_step.IH _ _ c(3), of ?p bt' r] pub posted below_next [of tip tip]
        settles_step.hyps(5) c(4) next_no settles_step.IH
      by (simp add: posted_payload_def flow_ok_def)
  qed
next
  case (settles_resumed bt w ps rpc cl deps now bt')
  have "ensure_initialized rpc cl = Inr ()"
    using settles_resumed.hyps(3) by (auto simp: build_batcher_def split: sum.splits)
  from resumed_batcher [OF settles_resumed.IH settles_resumed.hyps(2) this] settles_resumed.hyps(3)
  show ?case using resumed_flow [OF settles_resumed.IH] by simp
qed


section \<open>Recovery\<close>

text \<open>
  What the endpoint has to answer about a ledger: the data log's history holds its chunks, in any
  order and among other transactions, and the settlement accounts hold its records.
\<close>

definition endpoint_serves :: "l1_rpc \<Rightarrow> rpc_client \<Rightarrow> sig_entry list \<Rightarrow> l1_ledger \<Rightarrow> bool" where
  "endpoint_serves rpc cl hist w \<longleftrightarrow>
    serves_history rpc cl hist \<and> mset (chunk_rows rpc cl hist) = mset (lg_da w) \<and> records_served rpc cl w"

lemma parts_of_numbered:
  "parts_of no (numbered no' i cs) = (if no' = no then map snd (numbered no i cs) else [])"
  by (induction cs arbitrary: i) (auto simp: numbered_def)

lemma parts_of_concat: "parts_of no (concat xss) = concat (map (parts_of no) xss)"
  by (induction xss) auto

lemma numbered_parts: "map snd (numbered no 0 (chunk_payload z)) = chunk_parts z"
  by (simp add: chunk_parts_def numbered_def case_prod_unfold)

lemma concat_select:
  assumes "distinct (map f ps)" and "k < length ps"
  shows "concat (map (\<lambda>p. if f p = f (ps ! k) then g p else []) ps) = g (ps ! k)"
proof -
  have "concat (map (\<lambda>p. if f p = x then g p else []) qs) = []" if "x \<notin> f ` set qs" for x qs
    using that by (induction qs) auto
  with assms show ?thesis by (induction ps arbitrary: k) (auto simp: nth_Cons' image_iff)
qed

lemma flow_parts:
  assumes "flow_ok b3 cod bt w ps" and "k < length ps"
  shows "parts_of (of_nat k) (lg_da w) = chunk_parts (compress cod (ps ! k))"
proof -
  have no: "bp_batch_no (ps ! j) = of_nat j" if "j < length ps" for j
    using assms(1) that by (simp add: flow_ok_def payload_settled_def)
  have u: "unat (of_nat j :: u64) = j" if "j < length ps" for j
    using assms(1) that unat_of_nat_below [of j "next_batch_no bt"] by (simp add: flow_ok_def)
  have "distinct (map bp_batch_no ps)"
    unfolding distinct_conv_nth using no u by (metis length_map nth_map)
  from concat_select [OF this assms(2), of "\<lambda>p. chunk_parts (compress cod p)"] no [OF assms(2)] assms(1)
  show ?thesis
    by (simp add: flow_ok_def parts_of_concat comp_def parts_of_numbered numbered_parts cong: if_cong)
qed

lemma recover_from_all:
  assumes "\<forall>k\<in>set ks. fetch_batch_record rpc cl (of_nat k) = Inr (r k)
      \<and> recover_batch b3 cod (r k) (m (of_nat k)) = Inr \<lparr> rb_record = r k, rb_payload = p k \<rparr>"
  shows "recover_from b3 cod rpc cl m ks = Inr (map (\<lambda>k. \<lparr> rb_record = r k, rb_payload = p k \<rparr>) ks)"
  using assms by (induction ks) auto

lemma flow_recovered:
  assumes "flow_ok b3 cod bt w ps" and serves: "endpoint_serves rpc cl hist w"
    and codec: "\<forall>p\<in>set ps. decompress cod (compress cod p) = Some p \<and> length (chunk_payload (compress cod p)) \<le> 2 ^ 32"
    and "length hist < 1000 * fuel"
  shows "fetch_settlement_batches b3 cod rpc cl fuel
    = Some (Inr (map (\<lambda>k. \<lparr> rb_record = ledger_records w ! k, rb_payload = ps ! k \<rparr>) [0..<length ps]))"
proof -
  have count: "unat (next_batch_no bt) = length ps" using assms(1) by (simp add: flow_ok_def)
  have len: "length (ledger_records w) = length ps" "unat (of_nat (length ps) :: u64) = length ps"
    using assms(1) by (simp add: flow_ok_def) (simp flip: count)
  have pages: "fetch_all_da_chunks rpc cl fuel = Some (Inr (\<lambda>no. parts_of no (chunk_rows rpc cl hist)))"
    using chunk_pages_complete [of rpc cl hist None 0 fuel "\<lambda>_. []"] serves assms(4)
    by (simp add: fetch_all_da_chunks_def endpoint_serves_def after_sig_def)
  have "recover_batch b3 cod (ledger_records w ! k) (parts_of (of_nat k) (chunk_rows rpc cl hist))
      = Inr \<lparr> rb_record = ledger_records w ! k, rb_payload = ps ! k \<rparr>" if "k < length ps" for k
  proof (rule recover_permuted)
    show "mset (parts_of (of_nat k) (chunk_rows rpc cl hist)) = mset (chunk_parts (compress cod (ps ! k)))"
      using mset_parts_of [of "chunk_rows rpc cl hist" "lg_da w"] serves flow_parts [OF assms(1) that]
      by (simp add: endpoint_serves_def)
  qed (use assms(1) codec that in \<open>simp_all add: flow_ok_def payload_settled_def\<close>)
  then have "recover_from b3 cod rpc cl (\<lambda>no. parts_of no (chunk_rows rpc cl hist)) [0..<length ps]
      = Inr (map (\<lambda>k. \<lparr> rb_record = ledger_records w ! k, rb_payload = ps ! k \<rparr>) [0..<length ps])"
    using serves len by (intro recover_from_all) (simp add: endpoint_serves_def records_served_def)
  with pages serves len show ?thesis
    by (auto simp: fetch_settlement_batches_def endpoint_serves_def records_served_def)
qed

lemma flow_fits:
  assumes "flow_ok b3 cod bt w ps"
  shows "batches_fit 0 None (map (\<lambda>k. \<lparr> rb_record = ledger_records w ! k, rb_payload = ps ! k \<rparr>) [0..<length ps])"
proof -
  have *: "payload_settled b3 cod k (ps ! k) (ledger_records w ! k)" if "k < length ps" for k
    using assms that by (simp add: flow_ok_def)
  moreover have "bp_last_slot (ps ! (k - 1)) < bp_first_slot (ps ! k)" if "k < length ps" "k \<noteq> 0" for k
    using assms that by (auto simp: flow_ok_def dest: spec [of _ "k - 1"])
  ultimately show ?thesis
    by (auto simp: batches_fit_def batch_fits_def payload_settled_def)
qed


section \<open>Progress\<close>

definition poster_ready :: "pubkey \<Rightarrow> batcher \<Rightarrow> l1_ledger \<Rightarrow> bool" where
  "poster_ready auth bt w \<longleftrightarrow> batches_ok (lg_settlement w)
    \<and> (\<exists>c. st_config (lg_settlement w) = Some c \<and> authority c = auth \<and> batch_count c = next_batch_no bt)"

text \<open>The payloads that can be made of a store fit into the chunk numbers.\<close>

definition codec_fits :: "batch_codec \<Rightarrow> 'e store \<Rightarrow> bool" where
  "codec_fits cod s \<longleftrightarrow> (\<forall>p. length (bp_blocks p) \<le> 10000 \<and> set (bp_blocks p) \<subseteq> ran (get_block s) \<longrightarrow>
    length (chunk_payload (compress cod p)) < 2 ^ 32)"

lemma scan_blocks_bound:
  "scan_blocks s sls (acc, root) = (bs, root') \<Longrightarrow>
    length bs \<le> length acc + length sls \<and> set bs \<subseteq> set acc \<union> ran (get_block s)"
proof (induction sls arbitrary: acc root)
  case (Cons sl sls)
  then show ?case by (fastforce simp: ran_def split: option.splits if_splits)
qed simp

lemma post_chunks_accepted:
  assumes "\<forall>c\<in>set cs. c \<noteq> [] \<and> length c \<le> 800" and "i + length cs \<le> unat cnt"
  shows "\<exists>w'. post_chunks (ledger_ops deps auth now) no cnt i cs w = (w', Inr ())"
  using assms
proof (induction cs arbitrary: i w)
  case (Cons c cs)
  have "(of_nat i :: u32) < cnt"
    using Cons.prems(2) unat_of_nat_below [of i cnt] by (simp add: word_less_nat_alt)
  with Cons show ?case
    by (auto simp: ledger_ops_def ledger_post_chunk_def post_chunk_def MAX_CHUNK_BYTES_def)
qed simp

lemma post_payload_accepted:
  assumes "poster_ready auth bt w" and "bp_batch_no p = next_batch_no bt" and "bp_first_slot p \<le> bp_last_slot p"
    and "length (chunk_payload (compress cod p)) < 2 ^ 32" and "Suc (unat (next_batch_no bt)) < 2 ^ 64"
  shows "\<exists>w' r. post_payload b3 cod (ledger_ops deps auth now) p sroot wroot w = (w', Inr r)
    \<and> poster_ready auth \<lparr> cursor_slot = x, next_batch_no = next_batch_no bt + 1 \<rparr> w'"
proof -
  let ?cs = "chunk_payload (compress cod p)"
  obtain w1 where w1: "post_chunks (ledger_ops deps auth now) (bp_batch_no p) (of_nat (length ?cs)) 0 ?cs w = (w1, Inr ())"
    using post_chunks_accepted [of ?cs 0 "of_nat (length ?cs)"] chunk_payload_bounds assms(4)
    by (fastforce simp: unat_of_nat)
  have st: "lg_settlement w1 = lg_settlement w" by (rule post_chunks_settlement [OF w1])
  obtain c where c: "st_config (lg_settlement w) = Some c" "authority c = auth" "batch_count c = next_batch_no bt"
    and ok: "batches_ok (lg_settlement w)" using assms(1) by (auto simp: poster_ready_def)
  have "st_batches (lg_settlement w) (next_batch_no bt) = None"
    using ok c by (auto simp: batches_ok_def)
  moreover have "checked_add (next_batch_no bt) 1 = Some (next_batch_no bt + 1)"
    using assms(5) by (simp add: checked_add_def)
  ultimately obtain s' where s': "post_batch auth (bp_batch_no p) (bp_first_slot p) (bp_last_slot p) sroot wroot
      (da_hash b3 (compress cod p)) (of_nat (length ?cs)) now (lg_settlement w) = Inr s'"
    and cfg: "st_config s' = Some (c\<lparr> batch_count := next_batch_no bt + 1 \<rparr>)"
    using c assms(2,3) by (simp add: post_batch_def)
  have "poster_ready auth \<lparr> cursor_slot = x, next_batch_no = next_batch_no bt + 1 \<rparr> (w1\<lparr> lg_settlement := s' \<rparr>)"
    using post_batch_ok [OF ok s'] cfg c(2) by (simp add: poster_ready_def)
  moreover have "\<exists>r. post_payload b3 cod (ledger_ops deps auth now) p sroot wroot w = (w1\<lparr> lg_settlement := s' \<rparr>, Inr r)"
    using w1 st s' by (simp add: post_payload_def Let_def ledger_post_record_def ledger_ops_def)
  ultimately show ?thesis by blast
qed


lemma run_once_accepted:
  assumes "poster_ready auth bt w" and "cursor_slot bt \<le> tip"
    and "codec_fits cod s" and "Suc (unat (next_batch_no bt)) < 2 ^ 64"
  shows "\<exists>w' bt' res. run_once b3 cod (ledger_ops deps auth now) bt s tip w = (w', bt', Inr res)
    \<and> poster_ready auth bt' w' \<and> cursor_slot bt' = tip + 1 \<and> unat (next_batch_no bt') \<le> Suc (unat (next_batch_no bt))"
proof -
  obtain bs root where scan: "scan_blocks s (block_slots_in_range s (cursor_slot bt) tip 10000) ([], None) = (bs, root)"
    by (rule prod.exhaust)
  show ?thesis
  proof (cases "root = None \<or> bs = []")
    case True
    then have "run_once b3 cod (ledger_ops deps auth now) bt s tip w = (w, bt\<lparr> cursor_slot := tip + 1 \<rparr>, Inr None)"
      using assms(2) scan by (auto simp: run_once_def split: option.split)
    with assms(1) show ?thesis by (simp add: poster_ready_def)
  next
    case False
    then obtain sroot where sroot: "root = Some sroot" by auto
    have fits: "length (chunk_payload (compress cod
        \<lparr> bp_batch_no = next_batch_no bt, bp_first_slot = cursor_slot bt, bp_last_slot = tip, bp_blocks = bs \<rparr>)) < 2 ^ 32"
      using scan_blocks_bound [OF scan] assms(3) by (auto simp: codec_fits_def block_slots_in_range_def push_until_take)
    have "unat (next_batch_no bt + 1) = Suc (unat (next_batch_no bt))"
      using assms(4) by (simp add: unat_word_ariths)
    moreover from post_payload_accepted [OF assms(1), of
        "\<lparr> bp_batch_no = next_batch_no bt, bp_first_slot = cursor_slot bt, bp_last_slot = tip, bp_blocks = bs \<rparr>"
        cod b3 deps now sroot "withdrawals_root s" "tip + 1"] assms(2,4) fits
    obtain w' r where "post_payload b3 cod (ledger_ops deps auth now)
        \<lparr> bp_batch_no = next_batch_no bt, bp_first_slot = cursor_slot bt, bp_last_slot = tip, bp_blocks = bs \<rparr>
        sroot (withdrawals_root s) w = (w', Inr r)"
      "poster_ready auth \<lparr> cursor_slot = tip + 1, next_batch_no = next_batch_no bt + 1 \<rparr> w'" by auto
    ultimately show ?thesis using False sroot scan assms(2) by (simp add: run_once_def leD)
  qed
qed

lemma driver_round_progress:
  fixes latest :: u64
  assumes "poster_ready auth bt w" and "meta_latest_slot s = Some latest" and "cursor_slot bt \<le> latest" and "latest \<noteq> - 1"
    and "unat latest + unat (batch_interval_slots l1) < 2 ^ 64" and "\<forall>b. bal = Some b \<longrightarrow> MIN_AUTHORITY_LAMPORTS \<le> b"
    and "codec_fits cod s" and "Suc (unat (next_batch_no bt)) < 2 ^ 64"
  obtains bt' w' e where "driver_round b3 cod (ledger_ops deps auth now) l1 bal s (bt, w) = ((bt', w'), e)"
    and "poster_ready auth bt' w'" and "cursor_slot bt < cursor_slot bt'" and "cursor_slot bt' \<le> latest + 1"
    and "unat (next_batch_no bt') \<le> Suc (unat (next_batch_no bt))" and "e \<noteq> Rederive"
proof -
  define iv where "iv = max (batch_interval_slots l1) 1"
  define tip where "tip = min latest (cursor_slot bt + iv - 1)"
  have iv: "0 < unat iv" "unat iv \<le> max (unat (batch_interval_slots l1)) 1"
    by (auto simp: iv_def max_def word_le_nat_alt word_less_nat_alt)
  have "Suc (unat latest) < 2 ^ 64"
    using unat_next [OF assms(4)] unsigned_less [where ?'a = nat, of "latest + 1"] by simp
  then have "unat (cursor_slot bt) + (unat iv - 1) < 2 ^ 64"
    using iv assms(3,5) by (auto simp: word_le_nat_alt max_def split: if_splits)
  then have "cursor_slot bt \<le> cursor_slot bt + (iv - 1)"
    using iv by (simp add: word_le_nat_alt unat_word_ariths unat_sub_if_size)
  then have le: "cursor_slot bt \<le> tip" "tip \<le> latest" using assms(3) by (simp_all add: tip_def algebra_simps)
  have tip: "tip \<noteq> - 1" using le(2) assms(4) by (metis word_order.extremum_unique)
  from run_once_accepted [OF assms(1) le(1) assms(7,8), of b3 deps now] obtain w' bt' res where
    run: "run_once b3 cod (ledger_ops deps auth now) bt s tip w = (w', bt', Inr res)" "poster_ready auth bt' w'"
      "cursor_slot bt' = tip + 1" "unat (next_batch_no bt') \<le> Suc (unat (next_batch_no bt))" by auto
  have "cursor_slot bt < tip + 1" by (rule below_next [OF le(1) tip])
  moreover have "tip + 1 \<le> latest + 1"
    using le(2) assms(4) below_next inc_le by (metis le_less_trans)
  moreover have "\<not> (case bal of Some b \<Rightarrow> b < MIN_AUTHORITY_LAMPORTS | None \<Rightarrow> False)"
    using assms(6) by (auto split: option.split dest: leD)
  then have "driver_round b3 cod (ledger_ops deps auth now) l1 bal s (bt, w)
      = ((bt', w'), if tip < latest then CatchUp else Idle)"
    using run(1) assms(2,3) by (simp add: driver_round_def Let_def iv_def tip_def)
  ultimately show thesis using that run by simp
qed


section \<open>A sample run\<close>

definition flow_block :: block where
  "flow_block = \<lparr> header = \<lparr> slot = 1, parent_hash = [], state_root = replicate 32 4, transactions_root = [],
    timestamp_ms = 0, transaction_count = 1 \<rparr>, transactions = [], sequencer_signature = [] \<rparr>"

definition flow_store :: "unit store" where
  "flow_store = store_open\<lparr> blocks := RBT.insert 1 flow_block RBT.empty, meta_latest_slot := Some 1 \<rparr>"

definition flow_payload :: batch_payload where
  "flow_payload = \<lparr> bp_batch_no = 0, bp_first_slot = 1, bp_last_slot = 1, bp_blocks = [flow_block] \<rparr>"

definition flow_codec :: batch_codec where
  "flow_codec = \<lparr> compress = (\<lambda>_. [1, 2]), decompress = (\<lambda>z. if z = [1, 2] then Some flow_payload else None) \<rparr>"

definition flow_b3 :: hasher where
  "flow_b3 z = replicate 32 5"

definition flow_config :: l1_config where
  "flow_config = \<lparr> authority = [9], batch_count = 0, total_deposited = 0, cfg_bump = 0, vault_bump = 0 \<rparr>"

definition flow_ledger :: l1_ledger where
  "flow_ledger = \<lparr> lg_settlement = (deployed (\<lambda>_. 0) (\<lambda>_. 0))\<lparr> st_config := Some flow_config \<rparr>, lg_da = [] \<rparr>"

definition flow_start :: batcher where
  "flow_start = \<lparr> cursor_slot = 1, next_batch_no = 0 \<rparr>"

definition flow_ops :: "l1_ledger l1_ops" where
  "flow_ops = ledger_ops (\<lambda>_ _. Inr []) [9] 0"

definition flow_record :: batch_record where
  "flow_record = \<lparr> br_batch_no = 0, br_first_slot = 1, br_last_slot = 1, br_state_root = replicate 32 4,
    br_withdrawals_root = replicate 32 0, br_da_hash = replicate 32 5, br_chunk_count = 1 \<rparr>"

definition flow_end :: l1_ledger where
  "flow_end = \<lparr> lg_settlement = (lg_settlement flow_ledger)\<lparr>
      st_batches := [0 \<mapsto> \<lparr> bt_batch_no = 0, bt_first_slot = 1, bt_last_slot = 1, bt_state_root = replicate 32 4,
        bt_withdrawals_root = replicate 32 0, bt_da_hash = replicate 32 5, bt_chunk_count = 1, posted_at = 0 \<rparr>],
      st_config := Some (flow_config\<lparr> batch_count := 1 \<rparr>),
      st_events := [BatchPosted 0 1 1 (replicate 32 4) (replicate 32 5)] \<rparr>, lg_da = [(0, 0, [1, 2])] \<rparr>"

lemma flow_blocks: "blocks_between flow_store 1 1 = [flow_block]" "slots_ok flow_store"
  by code_simp+

lemma flow_chunks: "chunk_payload [1, 2] = [[1, 2]]"
  by code_simp

lemma flow_run:
  "run_once flow_b3 flow_codec flow_ops flow_start flow_store 1 flow_ledger
    = (flow_end, \<lparr> cursor_slot = 2, next_batch_no = 1 \<rparr>, Inr (Some flow_record))"
proof -
  have "post_payload flow_b3 flow_codec flow_ops flow_payload (replicate 32 4) (replicate 32 0) flow_ledger
      = (flow_end, Inr flow_record)"
    by (simp add: post_payload_def flow_codec_def flow_chunks flow_payload_def flow_ops_def ledger_ops_def
        ledger_post_chunk_def post_chunk_def MAX_CHUNK_BYTES_def ledger_post_record_def post_batch_def flow_ledger_def
        flow_config_def deployed_def checked_add_def flow_end_def flow_record_def da_hash_def blake3_32_def flow_b3_def)
  moreover have "withdrawals_root flow_store = replicate 32 0"
    by (simp add: withdrawals_root_def flow_store_def store_open_def)
  ultimately show ?thesis
    using scan_range [of flow_store 1 1]
    by (simp add: run_once_def flow_start_def flow_blocks flow_payload_def flow_block_def)
qed

lemma flow_end_ledger: "lg_da flow_end = [(0, 0, [1, 2])]" "ledger_records flow_end = [flow_record]"
  by (simp_all add: flow_end_def ledger_records_def flow_config_def List.map_filter_simps record_of_def flow_record_def)

lemma flow_settles: "settles flow_b3 flow_codec [9] TYPE(unit) \<lparr> cursor_slot = 2, next_batch_no = 1 \<rparr> flow_end [flow_payload]"
proof -
  have "settles flow_b3 flow_codec [9] TYPE(unit) flow_start flow_ledger []"
    unfolding flow_start_def by (rule settles_start [where c = flow_config]) (simp_all add: flow_ledger_def flow_config_def)
  from settles_step [OF this flow_run [unfolded flow_ops_def]] flow_blocks show ?thesis
    by (simp add: flow_start_def posted_payload_def flow_payload_def flow_block_def)
qed


definition flow_history :: "sig_entry list" where
  "flow_history = [\<lparr> en_failed = False, en_signature = Some [1] \<rparr>]"

definition batch_account :: "bytes \<Rightarrow> l1_batch \<Rightarrow> bytes" where
  "batch_account disc b = disc @ u64_le (bt_batch_no b) @ u64_le (bt_first_slot b) @ u64_le (bt_last_slot b)
    @ bt_state_root b @ bt_withdrawals_root b @ bt_da_hash b @ u32_le (bt_chunk_count b) @ u64_le (posted_at b)"

definition deposited_bytes :: "l1_rpc \<Rightarrow> pubkey \<Rightarrow> u64 \<Rightarrow> pubkey \<Rightarrow> pubkey option \<Rightarrow> u8 \<Rightarrow> bytes" where
  "deposited_bytes rpc depositor amount recipient m dec =
    discriminator rpc ''event'' ''Deposited'' @ depositor @ u64_le amount @ recipient
      @ (case m of None \<Rightarrow> [0] | Some k \<Rightarrow> 1 # k) @ [dec]"

definition flow_rpc :: l1_rpc where
  "flow_rpc = \<lparr> sha256 = (\<lambda>_. replicate 32 7), find_pda = (\<lambda>seeds _. concat seeds),
    base58_decode = (\<lambda>_. Some (replicate 8 7 @ u64_le 0 @ u32_le 0 @ u32_le 1 @ u32_le 2 @ [1, 2])),
    base64_decode = (\<lambda>_. None),
    rpc_account = (\<lambda>pk. Inr (Some (if pk = ascii ''config'' then replicate 40 0 @ u64_le 1
      else batch_account (replicate 8 0) (the (st_batches (lg_settlement flow_end) 0))))),
    rpc_transaction = (\<lambda>_. Inr \<lparr> tx_message = Some ([Some [3]], [\<lparr> ix_program_index = Some 0, ix_encoded = [] \<rparr>]), tx_logs = [] \<rparr>),
    rpc_signatures = (\<lambda>_ before _ n. Inr (take n (after_sig before flow_history))),
    rpc_balance = (\<lambda>_. Inr None), rpc_blockhash = Inr None, rpc_send = (\<lambda>_ _ _. Inr None), rpc_status = (\<lambda>_ _. Inr None) \<rparr>"

definition flow_client :: rpc_client where
  "flow_client = client_new flow_rpc [9] [2] [3]"

definition flow_section :: l1_section where
  "flow_section = \<lparr> l1_enabled = True, rpc_url = [], settlement_program_id = [], da_log_program_id = [],
    bridge_authority_key_path = [], batch_interval_slots = 10, gas_mint_str = [] \<rparr>"

lemma length_u_le [simp]: "length (u64_le x) = 8" "length (u32_le y) = 4"
  by (simp_all add: u64_le_def u32_le_def)

lemma parse_batch_account:
  assumes "length disc = 8" "length (bt_state_root b) = 32" "length (bt_withdrawals_root b) = 32" "length (bt_da_hash b) = 32"
  shows "parse_batch_record (batch_account disc b) = Some (record_of b)"
  using assms by (simp add: parse_batch_record_def batch_account_def record_of_def)

lemma flow_serves: "endpoint_serves flow_rpc flow_client flow_history flow_end"
proof -
  have "chunk_rows flow_rpc flow_client flow_history = [(0, 0, [1, 2])]" by code_simp
  moreover have "fetch_batch_record flow_rpc flow_client 0 = Inr flow_record"
    "config_batch_count flow_rpc flow_client = Inr 1" by code_simp+
  moreover have "serves_history flow_rpc flow_client flow_history"
    by (simp add: serves_history_def flow_history_def flow_rpc_def)
  ultimately show ?thesis by (simp add: endpoint_serves_def records_served_def flow_end_ledger)
qed


section \<open>Properties\<close>

text \<open>
  What is settled can be recovered from L1 alone: after any run of the batcher against the settlement
  and data log programs, an endpoint that serves the ledger lets recovery return exactly the settled
  payloads with their records, in order, whatever the order of the chunks in the history, and the
  structural checks accept the result. Recovery ends within as many pages as the history has.
\<close>

theorem settled_batches_recovered:
  assumes "settles b3 cod auth ty bt w ps" and "endpoint_serves rpc cl hist w"
    and "\<forall>p\<in>set ps. decompress cod (compress cod p) = Some p \<and> length (chunk_payload (compress cod p)) \<le> 2 ^ 32"
    and "length hist < 1000 * fuel" and "ps \<noteq> []"
  shows "\<exists>rbs su. fetch_settlement_batches b3 cod rpc cl fuel = Some (Inr rbs)
    \<and> map rb_payload rbs = ps \<and> map rb_record rbs = ledger_records w \<and> verify_batches rbs = Inr su"
proof -
  note ok = settles_flow [OF assms(1)]
  let ?rbs = "map (\<lambda>k. \<lparr> rb_record = ledger_records w ! k, rb_payload = ps ! k \<rparr>) [0..<length ps]"
  have "length (ledger_records w) = length ps" using ok by (simp add: flow_ok_def)
  then have "map rb_record ?rbs = ledger_records w" "map rb_payload ?rbs = ps"
    by (simp_all add: comp_def map_nth) (metis map_nth)
  moreover have "\<exists>su. verify_batches ?rbs = Inr su"
    using flow_fits [OF ok] assms(5) by (simp add: verify_batches_def verify_from_ok)
  ultimately show ?thesis using flow_recovered [OF ok assms(2-4)] by blast
qed

theorem settled_batches_recovered_witness:
  "\<exists>rbs su. fetch_settlement_batches flow_b3 flow_codec flow_rpc flow_client 1 = Some (Inr rbs)
    \<and> map rb_payload rbs = [flow_payload] \<and> map rb_record rbs = ledger_records flow_end \<and> verify_batches rbs = Inr su"
  by (rule settled_batches_recovered [OF flow_settles flow_serves])
    (simp_all add: flow_codec_def flow_chunks flow_history_def)

text \<open>
  The settlement driver catches up: with a funded authority and a batcher that agrees with the
  settlement program, repeated rounds bring the cursor past the chain's latest slot, in at most as
  many rounds as there are slots to settle, provided that the slot and batch numbers do not come near
  the end of their range and the payloads made of the store fit into 2^32 chunks.
\<close>

theorem driver_catches_up:
  fixes latest :: u64
  assumes "poster_ready auth bt w" and "meta_latest_slot s = Some latest" and "cursor_slot bt \<le> latest + 1" and "latest \<noteq> - 1"
    and "unat latest + unat (batch_interval_slots l1) < 2 ^ 64" and "\<forall>b. bal = Some b \<longrightarrow> MIN_AUTHORITY_LAMPORTS \<le> b"
    and "codec_fits cod s"
    and "unat (next_batch_no bt) + (Suc (unat latest) - unat (cursor_slot bt)) < 2 ^ 64"
  shows "\<exists>n\<le>Suc (unat latest) - unat (cursor_slot bt).
    cursor_slot (fst (((fst \<circ> driver_round b3 cod (ledger_ops deps auth now) l1 bal s) ^^ n) (bt, w))) = latest + 1
    \<and> (\<forall>j<n. snd (driver_round b3 cod (ledger_ops deps auth now) l1 bal s
          (((fst \<circ> driver_round b3 cod (ledger_ops deps auth now) l1 bal s) ^^ j) (bt, w))) \<noteq> Rederive)"
  using assms(1,3,8)
proof (induction "Suc (unat latest) - unat (cursor_slot bt)" arbitrary: bt w rule: less_induct)
  case less
  show ?case
  proof (cases "cursor_slot bt \<le> latest")
    case False
    then have "cursor_slot bt = latest + 1"
      using less.prems(2) unat_next [OF assms(4)] by (auto simp: word_le_nat_alt word_unat_eq_iff)
    then show ?thesis by (intro exI [of _ 0]) simp
  next
    case True
    then have "Suc (unat (next_batch_no bt)) < 2 ^ 64" using less.prems(3) by (simp add: word_le_nat_alt)
    with driver_round_progress [OF less.prems(1) assms(2) True assms(4-7)] obtain bt' w' e where
      rnd: "driver_round b3 cod (ledger_ops deps auth now) l1 bal s (bt, w) = ((bt', w'), e)"
      and st: "poster_ready auth bt' w'" "cursor_slot bt < cursor_slot bt'" "cursor_slot bt' \<le> latest + 1"
        "unat (next_batch_no bt') \<le> Suc (unat (next_batch_no bt))" "e \<noteq> Rederive" by blast
    have lt: "Suc (unat latest) - unat (cursor_slot bt') < Suc (unat latest) - unat (cursor_slot bt)"
      using st(2) True by (simp add: word_less_nat_alt word_le_nat_alt)
    then have "unat (next_batch_no bt') + (Suc (unat latest) - unat (cursor_slot bt')) < 2 ^ 64"
      using st(4) less.prems(3) by linarith
    from less.hyps [OF lt st(1,3) this] obtain n where "n \<le> Suc (unat latest) - unat (cursor_slot bt')"
      and "cursor_slot (fst (((fst \<circ> driver_round b3 cod (ledger_ops deps auth now) l1 bal s) ^^ n) (bt', w'))) = latest + 1"
      and "\<forall>j<n. snd (driver_round b3 cod (ledger_ops deps auth now) l1 bal s
          (((fst \<circ> driver_round b3 cod (ledger_ops deps auth now) l1 bal s) ^^ j) (bt', w'))) \<noteq> Rederive"
      by blast
    with lt rnd st(5) show ?thesis
      by (intro exI [of _ "Suc n"]) (auto simp: funpow_swap1 less_Suc_eq_0_disj)
  qed
qed

theorem driver_catches_up_witness:
  "\<exists>n\<le>1. cursor_slot (fst (((fst \<circ> driver_round flow_b3 flow_codec (ledger_ops (\<lambda>_ _. Inr []) [9] 0) flow_section None flow_store) ^^ n)
    (flow_start, flow_ledger))) = 2"
proof -
  have "\<exists>n\<le>Suc (unat (1 :: u64)) - unat (cursor_slot flow_start).
      cursor_slot (fst (((fst \<circ> driver_round flow_b3 flow_codec (ledger_ops (\<lambda>_ _. Inr []) [9] 0) flow_section None flow_store) ^^ n)
        (flow_start, flow_ledger))) = 1 + 1
      \<and> (\<forall>j<n. snd (driver_round flow_b3 flow_codec (ledger_ops (\<lambda>_ _. Inr []) [9] 0) flow_section None flow_store
          (((fst \<circ> driver_round flow_b3 flow_codec (ledger_ops (\<lambda>_ _. Inr []) [9] 0) flow_section None flow_store) ^^ j)
            (flow_start, flow_ledger))) \<noteq> Rederive)"
    by (rule driver_catches_up)
      (simp_all add: poster_ready_def flow_start_def flow_ledger_def flow_config_def deployed_def batches_ok_def flow_store_def
        flow_section_def codec_fits_def flow_codec_def flow_chunks)
  moreover have "Suc (unat (1 :: u64)) - unat (cursor_slot flow_start) = 1" by (simp add: flow_start_def)
  ultimately show ?thesis by (metis one_add_one)
qed

text \<open>
  Recovery's structural checks accept exactly the chains of batches that are numbered from zero,
  carry blocks, keep their blocks inside their slot range and have increasing, disjoint ranges.
\<close>

theorem verify_accepts_iff:
  "(\<exists>su. verify_batches rbs = Inr su) \<longleftrightarrow> rbs \<noteq> [] \<and> batches_fit 0 None rbs"
  by (simp add: verify_batches_def verify_from_ok)

text \<open>
  C36: A chunk that is on the data log twice makes its batch unrecoverable: reassembly keeps both copies,
  so the data hash does not match unless blake3 collides on the two data. The driver posts chunks again when a batch
  failed half way and it starts over from L1.
\<close>

theorem reposted_chunk_blocks_recovery:
  assumes "mset parts = add_mset x (mset (chunk_parts z))" and "x \<in> set (chunk_parts z)" and "br_da_hash r = da_hash b3 z"
  shows "recover_batch b3 cod r parts = Inl (RpcError ''DA reassembly hash mismatch'') 
    \<or> concat (map snd (sort_key fst parts)) \<noteq> z \<and> da_hash b3 (concat (map snd (sort_key fst parts))) = da_hash b3 z"
proof -
  let ?len = "\<lambda>qs :: (u32 \<times> bytes) list. sum_mset (image_mset (length \<circ> snd) (mset qs))"
  have len: "length (concat (map snd qs)) = ?len qs" for qs by (induction qs) auto
  have "snd x \<in> set (chunk_payload z)"
    using assms(2) by (auto simp: chunk_parts_def numbered_def enumerate_eq_zip dest: set_zip_rightD)
  then have "0 < length (snd x)" using chunk_payload_bounds by auto
  then have "length (concat (map snd (sort_key fst parts))) \<noteq> length z"
    using arg_cong [OF chunk_parts_concat [of z], of length] by (simp only: len mset_sort assms(1)) simp
  then have "concat (map snd (sort_key fst parts)) \<noteq> z" by auto
  then show ?thesis by (simp add: recover_batch_def Let_def assms(3))
qed

theorem reposted_chunk_blocks_recovery_witness:
  "recover_batch (\<lambda>z. z) flow_codec (flow_record\<lparr> br_da_hash := DA_DOMAIN @ [1, 2] \<rparr>) [(0, [1, 2]), (0, [1, 2])]
    = Inl (RpcError ''DA reassembly hash mismatch'')"
proof -
  have "chunk_parts [1, 2] = [(0, [1, 2])]" by (simp add: chunk_parts_def numbered_def flow_chunks)
  then show ?thesis
    using reposted_chunk_blocks_recovery [of "[(0, [1, 2]), (0, [1, 2])]" "(0, [1, 2])" "[1, 2]"
        "flow_record\<lparr> br_da_hash := DA_DOMAIN @ [1, 2] \<rparr>" "\<lambda>z. z" flow_codec]
    by (simp add: da_hash_def blake3_32_def)
qed


text \<open>
  Deposits are read back as the settlement program emitted them: the event bytes of a deposit, of
  SOL or of a token, parse to its mint, decimals, amount and recipient.
\<close>

theorem deposited_event_roundtrip:
  assumes "length (sha256 rpc (ascii ''event:Deposited'')) = 32" and "length depositor = 32" and "length recipient = 32"
    and "\<forall>k. m = Some k \<longrightarrow> length k = 32"
  shows "parse_deposited_event rpc (deposited_bytes rpc depositor amount recipient m dec) sig
    = Some \<lparr> l1_signature = sig, mint = m, dep_decimals = dec, dep_amount = amount, l2_recipient = recipient \<rparr>"
  using assms
  by (cases m) (simp_all add: parse_deposited_event_def deposited_bytes_def discriminator_def get_at_def nth_append)

theorem deposited_event_roundtrip_witness:
  "parse_deposited_event flow_rpc (deposited_bytes flow_rpc (replicate 32 1) 500 (replicate 32 2) (Some (replicate 32 3)) 6) [8]
    = Some \<lparr> l1_signature = [8], mint = Some (replicate 32 3), dep_decimals = 6, dep_amount = 500, l2_recipient = replicate 32 2 \<rparr>"
  by (rule deposited_event_roundtrip) (simp_all add: flow_rpc_def)

end
