(* ===== verification/Verifier.thy ===== *)
theory Verifier
  imports Pool_Service
begin

text \<open>
  The Groth16 verifier of the shielded pool: \<^verbatim>\<open>verifier.rs\<close> and \<^verbatim>\<open>verifying_keys.rs\<close> of \<^verbatim>\<open>zul-privacy\<close>, and how
  \<^verbatim>\<open>main.rs\<close> loads the keys. The pairing library is the record \<open>curve\<close>: the modulus of the base field,
  which affine points are on the curve and in the subgroup, and the pairing check. An element of the
  base field is its canonical representative, a natural number below the modulus.
\<close>

section \<open>verifier.rs\<close>

definition PROOF_BYTES :: nat where
  "PROOF_BYTES = 256"

datatype verifier_error = BadPoint | BadVerifyingKey | BadProof | InputCount nat nat

datatype 'p affine = Identity | Affine 'p 'p

type_synonym g1 = "nat affine"
type_synonym g2 = "(nat \<times> nat) affine"

record groth16_proof =
  pr_a :: g1
  pr_b :: g2
  pr_c :: g1

record verifying_key =
  alpha_g1 :: g1
  beta_g2 :: g2
  gamma_g2 :: g2
  delta_g2 :: g2
  gamma_abc_g1 :: "g1 list"

record 'f curve =
  fq_modulus :: nat
  g1_in_group :: "nat \<Rightarrow> nat \<Rightarrow> bool"
  g2_in_group :: "nat \<times> nat \<Rightarrow> nat \<times> nat \<Rightarrow> bool"
  verify_proof :: "verifying_key \<Rightarrow> groth16_proof \<Rightarrow> 'f list \<Rightarrow> bool option"

definition fq_to_be :: "nat \<Rightarrow> bytes" where
  "fq_to_be fq = rev (le_digits 32 fq)"

definition fq_from_be :: "'f curve \<Rightarrow> bytes \<Rightarrow> verifier_error + nat" where
  "fq_from_be cv bs =
    (if length bs \<noteq> 32 then Inl BadPoint
     else (let fq = le_val (rev bs) mod fq_modulus cv in if fq_to_be fq \<noteq> bs then Inl BadPoint else Inr fq))"

definition g1_from_be :: "'f curve \<Rightarrow> bytes \<Rightarrow> verifier_error + g1" where
  "g1_from_be cv bs =
    (if length bs \<noteq> 64 then Inl BadPoint
     else case fq_from_be cv (take 32 bs) of Inl e \<Rightarrow> Inl e
     | Inr x \<Rightarrow> (case fq_from_be cv (drop 32 bs) of Inl e \<Rightarrow> Inl e
       | Inr y \<Rightarrow> if x = 0 \<and> y = 0 then Inr Identity
           else if \<not> g1_in_group cv x y then Inl BadPoint else Inr (Affine x y)))"

definition g2_from_be :: "'f curve \<Rightarrow> bytes \<Rightarrow> verifier_error + g2" where
  "g2_from_be cv bs =
    (if length bs \<noteq> 128 then Inl BadPoint
     else case fq_from_be cv (take 32 bs) of Inl e \<Rightarrow> Inl e
     | Inr x_c1 \<Rightarrow> (case fq_from_be cv (take 32 (drop 32 bs)) of Inl e \<Rightarrow> Inl e
     | Inr x_c0 \<Rightarrow> (case fq_from_be cv (take 32 (drop 64 bs)) of Inl e \<Rightarrow> Inl e
     | Inr y_c1 \<Rightarrow> (case fq_from_be cv (take 32 (drop 96 bs)) of Inl e \<Rightarrow> Inl e
     | Inr y_c0 \<Rightarrow>
       if (x_c0, x_c1) = (0, 0) \<and> (y_c0, y_c1) = (0, 0) then Inr Identity
       else if \<not> g2_in_group cv (x_c0, x_c1) (y_c0, y_c1) then Inl BadPoint
       else Inr (Affine (x_c0, x_c1) (y_c0, y_c1))))))"

definition parse_proof :: "'f curve \<Rightarrow> bytes \<Rightarrow> verifier_error + groth16_proof" where
  "parse_proof cv bs =
    (if length bs \<noteq> PROOF_BYTES then Inl BadProof
     else case g1_from_be cv (take 64 bs) of Inl _ \<Rightarrow> Inl BadProof
     | Inr a \<Rightarrow> (case g2_from_be cv (take 128 (drop 64 bs)) of Inl _ \<Rightarrow> Inl BadProof
     | Inr b \<Rightarrow> (case g1_from_be cv (take 64 (drop 192 bs)) of Inl _ \<Rightarrow> Inl BadProof
     | Inr c \<Rightarrow> Inr \<lparr> pr_a = a, pr_b = b, pr_c = c \<rparr>)))"

fun parse_points :: "'f curve \<Rightarrow> nat \<Rightarrow> bytes \<Rightarrow> verifier_error + g1 list" where
  "parse_points cv 0 bs = Inr []"
| "parse_points cv (Suc n) bs =
    (case g1_from_be cv (take 64 bs) of Inl e \<Rightarrow> Inl e
     | Inr p \<Rightarrow> (case parse_points cv n (drop 64 bs) of Inl e \<Rightarrow> Inl e | Inr ps \<Rightarrow> Inr (p # ps)))"

definition parse_verifying_key :: "'f curve \<Rightarrow> bytes \<Rightarrow> verifier_error + verifying_key" where
  "parse_verifying_key cv bs =
    (if length bs < 4 + 64 + 128 * 3 + 64 then Inl BadVerifyingKey
     else (let n_public = unat (u32_of_le (take 4 bs))
       in if length bs \<noteq> 4 + 64 + 128 * 3 + (n_public + 1) * 64 then Inl BadVerifyingKey
          else case g1_from_be cv (take 64 (drop 4 bs)) of Inl e \<Rightarrow> Inl e
          | Inr alpha \<Rightarrow> (case g2_from_be cv (take 128 (drop 68 bs)) of Inl e \<Rightarrow> Inl e
          | Inr beta \<Rightarrow> (case g2_from_be cv (take 128 (drop 196 bs)) of Inl e \<Rightarrow> Inl e
          | Inr gamma \<Rightarrow> (case g2_from_be cv (take 128 (drop 324 bs)) of Inl e \<Rightarrow> Inl e
          | Inr delta \<Rightarrow> (case parse_points cv (n_public + 1) (drop 452 bs) of Inl e \<Rightarrow> Inl e
          | Inr ic \<Rightarrow> Inr \<lparr> alpha_g1 = alpha, beta_g2 = beta, gamma_g2 = gamma, delta_g2 = delta, gamma_abc_g1 = ic \<rparr>))))))"

definition verify :: "'f curve \<Rightarrow> verifying_key \<Rightarrow> bytes \<Rightarrow> 'f list \<Rightarrow> verifier_error + bool" where
  "verify cv vk proof_bytes public_inputs =
    (if length public_inputs + 1 \<noteq> length (gamma_abc_g1 vk)
     then Inl (InputCount (length (gamma_abc_g1 vk) - 1) (length public_inputs))
     else case parse_proof cv proof_bytes of Inl e \<Rightarrow> Inl e
     | Inr p \<Rightarrow> (case verify_proof cv vk p public_inputs of None \<Rightarrow> Inl BadProof | Some ok \<Rightarrow> Inr ok))"

fun g1_to_be :: "g1 \<Rightarrow> bytes" where
  "g1_to_be Identity = replicate 64 0"
| "g1_to_be (Affine x y) = fq_to_be x @ fq_to_be y"

fun g2_to_be :: "g2 \<Rightarrow> bytes" where
  "g2_to_be Identity = replicate 128 0"
| "g2_to_be (Affine (x_c0, x_c1) (y_c0, y_c1)) = fq_to_be x_c1 @ fq_to_be x_c0 @ fq_to_be y_c1 @ fq_to_be y_c0"

definition proof_to_bytes :: "groth16_proof \<Rightarrow> bytes" where
  "proof_to_bytes p = g1_to_be (pr_a p) @ g2_to_be (pr_b p) @ g1_to_be (pr_c p)"

definition verifying_key_to_bytes :: "verifying_key \<Rightarrow> bytes option" where
  "verifying_key_to_bytes vk =
    (if length (gamma_abc_g1 vk) < 1 then None
     else Some (u32_le (of_nat (length (gamma_abc_g1 vk) - 1)) @ g1_to_be (alpha_g1 vk) @ g2_to_be (beta_g2 vk)
      @ g2_to_be (gamma_g2 vk) @ g2_to_be (delta_g2 vk) @ concat (map g1_to_be (gamma_abc_g1 vk))))"


section \<open>verifying_keys.rs and main.rs\<close>

record verifying_keys =
  vk_transfer :: "verifying_key option"
  vk_unshield :: "verifying_key option"

definition unconfigured :: verifying_keys where
  "unconfigured = \<lparr> vk_transfer = None, vk_unshield = None \<rparr>"

definition load_keys :: "'f curve \<Rightarrow> bytes \<Rightarrow> bytes \<Rightarrow> verifier_error + verifying_keys" where
  "load_keys cv t u =
    (case parse_verifying_key cv t of Inl e \<Rightarrow> Inl e
     | Inr tk \<Rightarrow> (case parse_verifying_key cv u of Inl e \<Rightarrow> Inl e
       | Inr uk \<Rightarrow> Inr \<lparr> vk_transfer = Some tk, vk_unshield = Some uk \<rparr>))"

definition is_configured :: "verifying_keys \<Rightarrow> bool" where
  "is_configured ks \<longleftrightarrow> vk_transfer ks \<noteq> None \<and> vk_unshield ks \<noteq> None"

definition accepts :: "'f curve \<Rightarrow> verifying_key option \<Rightarrow> bytes \<Rightarrow> 'f list \<Rightarrow> bool" where
  "accepts cv vk pf inputs =
    (case vk of None \<Rightarrow> False | Some k \<Rightarrow> (case verify cv k pf inputs of Inl _ \<Rightarrow> False | Inr ok \<Rightarrow> ok))"

definition groth16_verifier :: "'f curve \<Rightarrow> verifying_keys \<Rightarrow> 'f pool_crypto \<Rightarrow> 'f pool_crypto" where
  "groth16_verifier cv ks c =
    c\<lparr> verify_transfer := accepts cv (vk_transfer ks), verify_unshield := accepts cv (vk_unshield ks) \<rparr>"

text \<open>The two files, \<open>None\<close> when a file cannot be read.\<close>

definition load_pool_keys :: "'f curve \<Rightarrow> bytes option \<Rightarrow> bytes option \<Rightarrow> verifying_keys" where
  "load_pool_keys cv transfer_file unshield_file =
    (case (transfer_file, unshield_file) of
       (Some t, Some u) \<Rightarrow> (case load_keys cv t u of Inr ks \<Rightarrow> ks | Inl _ \<Rightarrow> unconfigured)
     | _ \<Rightarrow> unconfigured)"


section \<open>Well-formed points\<close>

fun g1_ok :: "'f curve \<Rightarrow> g1 \<Rightarrow> bool" where
  "g1_ok cv Identity = True"
| "g1_ok cv (Affine x y) = (x < fq_modulus cv \<and> y < fq_modulus cv \<and> (x, y) \<noteq> (0, 0) \<and> g1_in_group cv x y)"

fun g2_ok :: "'f curve \<Rightarrow> g2 \<Rightarrow> bool" where
  "g2_ok cv Identity = True"
| "g2_ok cv (Affine x y) = (fst x < fq_modulus cv \<and> snd x < fq_modulus cv \<and> fst y < fq_modulus cv
    \<and> snd y < fq_modulus cv \<and> (x, y) \<noteq> ((0, 0), (0, 0)) \<and> g2_in_group cv x y)"

definition proof_ok :: "'f curve \<Rightarrow> groth16_proof \<Rightarrow> bool" where
  "proof_ok cv p \<longleftrightarrow> g1_ok cv (pr_a p) \<and> g2_ok cv (pr_b p) \<and> g1_ok cv (pr_c p)"

definition key_ok :: "'f curve \<Rightarrow> verifying_key \<Rightarrow> bool" where
  "key_ok cv vk \<longleftrightarrow> g1_ok cv (alpha_g1 vk) \<and> g2_ok cv (beta_g2 vk) \<and> g2_ok cv (gamma_g2 vk) \<and> g2_ok cv (delta_g2 vk)
    \<and> list_all (g1_ok cv) (gamma_abc_g1 vk) \<and> gamma_abc_g1 vk \<noteq> [] \<and> length (gamma_abc_g1 vk) \<le> 2 ^ 32"

definition modulus_ok :: "'f curve \<Rightarrow> bool" where
  "modulus_ok cv \<longleftrightarrow> 0 < fq_modulus cv \<and> fq_modulus cv \<le> 2 ^ 256"

text \<open>The proof an instruction carries and the public inputs it is checked for.\<close>

fun proof_of :: "pool_instruction \<Rightarrow> bytes" where
  "proof_of (Shield a amount secret enc) = []"
| "proof_of (Transfer pf root nfs cms charge encs) = pf"
| "proof_of (Unshield pf root nf change a amount recipient enc) = pf"

fun public_inputs_of :: "'f pool_crypto \<Rightarrow> pool_instruction \<Rightarrow> 'f list" where
  "public_inputs_of c (Shield a amount secret enc) = []"
| "public_inputs_of c (Transfer pf root nfs cms charge encs) =
    map (the \<circ> fr_from_bytes c) [root, fst nfs, snd nfs, fst cms, snd cms] @ [fr_from_u64 c charge]"
| "public_inputs_of c (Unshield pf root nf change a amount recipient enc) =
    map (the \<circ> fr_from_bytes c) [root, nf, change]
      @ [asset_id_fr c a, fr_from_u64 c amount, from_le_bytes_mod_order c recipient]"

fun key_file :: "pool_instruction \<Rightarrow> 'a \<Rightarrow> 'a \<Rightarrow> 'a" where
  "key_file (Unshield pf root nf change a amount recipient enc) t u = u"
| "key_file ins t u = t"

definition sample_curve :: "u8 curve" where
  "sample_curve = \<lparr> fq_modulus = 17, g1_in_group = (\<lambda>x y. (y * y) mod 17 = (x * x * x + 3) mod 17),
    g2_in_group = (\<lambda>x y. snd x = 0 \<and> snd y = 0), verify_proof = (\<lambda>_ _ xs. Some (length xs = 6)) \<rparr>"

definition sample_groth16 :: groth16_proof where
  "sample_groth16 = \<lparr> pr_a = Affine 1 2, pr_b = Affine (1, 0) (2, 0), pr_c = Identity \<rparr>"

definition sample_key :: verifying_key where
  "sample_key = \<lparr> alpha_g1 = Affine 1 2, beta_g2 = Affine (1, 0) (2, 0), gamma_g2 = Identity, delta_g2 = Identity,
    gamma_abc_g1 = [Affine 1 2, Identity, Identity, Identity, Identity, Identity, Affine 1 2] \<rparr>"

definition sample_spend :: pool_instruction where
  "sample_spend = Unshield (proof_to_bytes sample_groth16) (fr_to_bytes byte_pool (zero_at byte_pool TREE_DEPTH))
    (fr_to_bytes byte_pool 5) (fr_to_bytes byte_pool 6) Native 7 [8] [9]"


section \<open>Lemmas\<close>

lemma u32_le_of_le: "length bs = 4 \<Longrightarrow> u32_le (u32_of_le bs) = bs"
  using le_val_bound [of bs] le_digits_le_val [of bs] by (simp add: u32_of_le_def u32_le_def unat_of_nat_lt)

lemma length_fq_to_be [simp, layout]: "length (fq_to_be x) = 32"
  by (simp add: fq_to_be_def)

lemma fq_to_be_zero: "fq_to_be 0 = replicate 32 0"
  by (simp add: fq_to_be_def le_digits_zero)

lemma length_g1_to_be [simp, layout]: "length (g1_to_be p) = 64"
  by (cases p) auto

lemma length_g2_to_be [simp, layout]: "length (g2_to_be p) = 128"
  by (cases p rule: g2_to_be.cases) auto

lemma fq_from_be_iff:
  assumes "modulus_ok cv"
  shows "fq_from_be cv bs = Inr x \<longleftrightarrow> x < fq_modulus cv \<and> bs = fq_to_be x"
proof -
  have small: "le_val (rev (fq_to_be x)) = x" if "x < fq_modulus cv" for x
    using that assms by (simp add: fq_to_be_def le_val_le_digits modulus_ok_def)
  have "0 < fq_modulus cv" using assms by (simp add: modulus_ok_def)
  then show ?thesis using small by (auto simp: fq_from_be_def Let_def)
qed

lemma fq_from_be_to [simp]: "modulus_ok cv \<Longrightarrow> x < fq_modulus cv \<Longrightarrow> fq_from_be cv (fq_to_be x) = Inr x"
  by (simp add: fq_from_be_iff)

lemma fq_from_be_zeros [simp]: "modulus_ok cv \<Longrightarrow> fq_from_be cv (replicate 32 0) = Inr 0"
  using fq_from_be_to [of cv 0] by (simp add: modulus_ok_def fq_to_be_zero)

lemma g1_from_be_to: "modulus_ok cv \<Longrightarrow> g1_ok cv p \<Longrightarrow> g1_from_be cv (g1_to_be p) = Inr p"
  by (cases p) (auto simp: g1_from_be_def)

lemma g2_from_be_to: "modulus_ok cv \<Longrightarrow> g2_ok cv p \<Longrightarrow> g2_from_be cv (g2_to_be p) = Inr p"
  by (cases p rule: g2_to_be.cases) (auto simp: g2_from_be_def)

lemma g1_from_be_canonical:
  assumes "modulus_ok cv" and "g1_from_be cv bs = Inr p"
  shows "g1_ok cv p \<and> g1_to_be p = bs"
proof -
  from assms obtain x y where "fq_from_be cv (take 32 bs) = Inr x" "fq_from_be cv (drop 32 bs) = Inr y"
    and p: "p = (if x = 0 \<and> y = 0 then Identity else Affine x y)" "x = 0 \<and> y = 0 \<or> g1_in_group cv x y"
    by (auto simp: g1_from_be_def split: sum.splits if_splits)
  then have xy: "x < fq_modulus cv" "y < fq_modulus cv" "fq_to_be x @ fq_to_be y = bs"
    using assms(1) append_take_drop_id [of 32 bs] by (simp_all add: fq_from_be_iff)
  have "replicate 64 0 = fq_to_be 0 @ fq_to_be 0" by (simp add: fq_to_be_zero flip: replicate_add)
  with p xy show ?thesis by auto
qed

lemma g2_from_be_canonical:
  assumes "modulus_ok cv" and "g2_from_be cv bs = Inr p"
  shows "g2_ok cv p \<and> g2_to_be p = bs"
proof -
  let ?x = "take 32 bs" and ?y = "take 32 (drop 32 bs)" and ?z = "take 32 (drop 64 bs)" and ?w = "take 32 (drop 96 bs)"
  from assms obtain x1 x0 y1 y0 where fq: "fq_from_be cv ?x = Inr x1" "fq_from_be cv ?y = Inr x0"
      "fq_from_be cv ?z = Inr y1" "fq_from_be cv ?w = Inr y0" and len: "length bs = 128"
    and p: "p = (if ((x0, x1), (y0, y1)) = ((0, 0), (0, 0)) then Identity else Affine (x0, x1) (y0, y1))"
      "((x0, x1), (y0, y1)) = ((0, 0), (0, 0)) \<or> g2_in_group cv (x0, x1) (y0, y1)"
    by (auto simp: g2_from_be_def split: sum.splits if_splits)
  have "bs = ?x @ ?y @ ?z @ ?w"
    using append_take_drop_id [of 32 bs] append_take_drop_id [of 32 "drop 32 bs"]
      append_take_drop_id [of 32 "drop 64 bs"] len by simp
  with fq assms(1) have xy: "x1 < fq_modulus cv" "x0 < fq_modulus cv" "y1 < fq_modulus cv" "y0 < fq_modulus cv"
      "fq_to_be x1 @ fq_to_be x0 @ fq_to_be y1 @ fq_to_be y0 = bs" by (simp_all add: fq_from_be_iff)
  have "replicate 128 0 = fq_to_be 0 @ fq_to_be 0 @ fq_to_be 0 @ fq_to_be 0"
    by (simp add: fq_to_be_zero flip: replicate_add)
  with p xy show ?thesis by auto
qed

lemma g1_from_be_iff: "modulus_ok cv \<Longrightarrow> g1_from_be cv bs = Inr p \<longleftrightarrow> g1_ok cv p \<and> bs = g1_to_be p"
  using g1_from_be_canonical g1_from_be_to by metis

lemma g2_from_be_iff: "modulus_ok cv \<Longrightarrow> g2_from_be cv bs = Inr p \<longleftrightarrow> g2_ok cv p \<and> bs = g2_to_be p"
  using g2_from_be_canonical g2_from_be_to by metis

lemma parse_proof_to: "modulus_ok cv \<Longrightarrow> proof_ok cv p \<Longrightarrow> parse_proof cv (proof_to_bytes p) = Inr p"
  by (simp add: parse_proof_def proof_to_bytes_def proof_ok_def PROOF_BYTES_def g1_from_be_to g2_from_be_to)

lemma parse_proof_canonical:
  assumes "modulus_ok cv" and "parse_proof cv bs = Inr p"
  shows "proof_ok cv p \<and> proof_to_bytes p = bs"
proof -
  have "bs = take 64 bs @ take 128 (drop 64 bs) @ drop 192 bs"
    using append_take_drop_id [of 64 bs] append_take_drop_id [of 128 "drop 64 bs"] by simp
  with assms show ?thesis
    by (auto simp: parse_proof_def proof_ok_def proof_to_bytes_def PROOF_BYTES_def g1_from_be_iff g2_from_be_iff
        split: sum.splits if_splits)
qed

lemma parse_points_to:
  "modulus_ok cv \<Longrightarrow> list_all (g1_ok cv) ps \<Longrightarrow> parse_points cv (length ps) (concat (map g1_to_be ps)) = Inr ps"
  by (induction ps) (auto simp: g1_from_be_to)

lemma parse_points_canonical:
  "modulus_ok cv \<Longrightarrow> parse_points cv n bs = Inr ps \<Longrightarrow> length bs = n * 64
    \<Longrightarrow> list_all (g1_ok cv) ps \<and> length ps = n \<and> concat (map g1_to_be ps) = bs"
proof (induction n arbitrary: bs ps)
  case (Suc n)
  then obtain p qs where p: "g1_from_be cv (take 64 bs) = Inr p" and q: "parse_points cv n (drop 64 bs) = Inr qs"
    and ps: "ps = p # qs" by (auto split: sum.splits)
  have "g1_ok cv p" and "g1_to_be p @ drop 64 bs = bs"
    using p Suc.prems(1) append_take_drop_id [of 64 bs] by (simp_all add: g1_from_be_iff)
  then show ?case using Suc.IH [OF Suc.prems(1) q] Suc.prems(3) by (simp add: ps)
qed simp

lemma parse_verifying_key_to:
  assumes "modulus_ok cv" and "key_ok cv vk" and "verifying_key_to_bytes vk = Some bs"
  shows "parse_verifying_key cv bs = Inr vk"
proof -
  define m :: u32 where "m = of_nat (length (gamma_abc_g1 vk) - 1)"
  let ?ic = "concat (map g1_to_be (gamma_abc_g1 vk))"
  have m: "length (gamma_abc_g1 vk) = unat m + 1"
    using assms(2) by (auto simp: key_ok_def m_def unat_of_nat_lt)
  have len: "length ?ic = (unat m + 1) * 64"
    by (simp add: length_concat comp_def sum_list_triv m)
  have ic: "parse_points cv (unat m + 1) ?ic = Inr (gamma_abc_g1 vk)"
    using parse_points_to [of cv "gamma_abc_g1 vk"] assms(1,2) by (simp only: m key_ok_def)
  have bs: "bs = u32_le m @ g1_to_be (alpha_g1 vk) @ g2_to_be (beta_g2 vk)
      @ g2_to_be (gamma_g2 vk) @ g2_to_be (delta_g2 vk) @ ?ic"
    using assms(3) by (simp add: verifying_key_to_bytes_def m_def split: if_splits)
  have slices: "take 4 bs = u32_le m" "take 64 (drop 4 bs) = g1_to_be (alpha_g1 vk)"
    "take 128 (drop 68 bs) = g2_to_be (beta_g2 vk)" "take 128 (drop 196 bs) = g2_to_be (gamma_g2 vk)"
    "take 128 (drop 324 bs) = g2_to_be (delta_g2 vk)" "drop 452 bs = ?ic"
    by (simp_all add: bs)
  have "length bs = 452 + (unat m + 1) * 64" by (simp only: bs length_append length_ints length_g1_to_be
        length_g2_to_be len)
  then have size: "\<not> length bs < 4 + 64 + 128 * 3 + 64" "length bs = 4 + 64 + 128 * 3 + (unat m + 1) * 64" by simp_all
  from assms(2) show ?thesis
    unfolding parse_verifying_key_def Let_def slices u32_le_roundtrip key_ok_def
    using assms(1) size ic by (simp only: g1_from_be_to g2_from_be_to sum.case if_False if_True not_True_eq_False) simp
qed

lemma key_fields:
  assumes "(case a of Inl e \<Rightarrow> Inl e | Inr alpha \<Rightarrow> (case b of Inl e \<Rightarrow> Inl e | Inr beta \<Rightarrow> (case g of Inl e \<Rightarrow> Inl e
    | Inr gamma \<Rightarrow> (case d of Inl e \<Rightarrow> Inl e | Inr delta \<Rightarrow> (case i of Inl e \<Rightarrow> Inl e
    | Inr ic \<Rightarrow> Inr \<lparr> alpha_g1 = alpha, beta_g2 = beta, gamma_g2 = gamma, delta_g2 = delta, gamma_abc_g1 = ic \<rparr>)))))
    = Inr vk"
  shows "a = Inr (alpha_g1 vk) \<and> b = Inr (beta_g2 vk) \<and> g = Inr (gamma_g2 vk) \<and> d = Inr (delta_g2 vk)
    \<and> i = Inr (gamma_abc_g1 vk)"
  using assms by (auto split: sum.splits)

lemma parse_verifying_key_canonical:
  assumes "modulus_ok cv" and "parse_verifying_key cv bs = Inr vk"
  shows "key_ok cv vk \<and> verifying_key_to_bytes vk = Some bs"
proof -
  let ?n = "unat (u32_of_le (take 4 bs))"
  from assms(2) have len: "length bs = 4 + 64 + 128 * 3 + (?n + 1) * 64"
    by (rule contrapos_pp) (simp add: parse_verifying_key_def Let_def)
  from assms(2) have pts: "g1_from_be cv (take 64 (drop 4 bs)) = Inr (alpha_g1 vk)
      \<and> g2_from_be cv (take 128 (drop 68 bs)) = Inr (beta_g2 vk)
      \<and> g2_from_be cv (take 128 (drop 196 bs)) = Inr (gamma_g2 vk)
      \<and> g2_from_be cv (take 128 (drop 324 bs)) = Inr (delta_g2 vk)
      \<and> parse_points cv (?n + 1) (drop 452 bs) = Inr (gamma_abc_g1 vk)"
    by - (rule key_fields, simp only: parse_verifying_key_def Let_def sum.distinct split: if_split_asm)
  have rest: "length (drop 452 bs) = (?n + 1) * 64" unfolding length_drop len by simp
  have abc: "list_all (g1_ok cv) (gamma_abc_g1 vk)" "length (gamma_abc_g1 vk) = ?n + 1"
    "concat (map g1_to_be (gamma_abc_g1 vk)) = drop 452 bs"
    using parse_points_canonical [OF assms(1), of "?n + 1" "drop 452 bs" "gamma_abc_g1 vk", OF _ rest] pts by blast+
  have small: "?n < 2 ^ 32" using unsigned_less [where ?'a = nat, of "u32_of_le (take 4 bs)"] by simp
  have "4 \<le> length bs" unfolding len by simp
  then have "take 4 bs = u32_le (of_nat ?n)" using u32_le_of_le [of "take 4 bs"] by simp
  moreover have "bs = take 4 bs @ take 64 (drop 4 bs) @ take 128 (drop 68 bs) @ take 128 (drop 196 bs)
      @ take 128 (drop 324 bs) @ drop 452 bs"
    using append_take_drop_id [of 4 bs] append_take_drop_id [of 64 "drop 4 bs"]
      append_take_drop_id [of 128 "drop 68 bs"] append_take_drop_id [of 128 "drop 196 bs"]
      append_take_drop_id [of 128 "drop 324 bs"] by simp
  ultimately have "bs = u32_le (of_nat ?n) @ g1_to_be (alpha_g1 vk) @ g2_to_be (beta_g2 vk) @ g2_to_be (gamma_g2 vk)
      @ g2_to_be (delta_g2 vk) @ concat (map g1_to_be (gamma_abc_g1 vk))"
    using pts abc(3) assms(1) by (simp only: g1_from_be_iff g2_from_be_iff)
  moreover have "gamma_abc_g1 vk \<noteq> []" using abc(2) by auto
  ultimately show ?thesis
    using abc(1,2) small pts assms(1)
    by (simp add: key_ok_def verifying_key_to_bytes_def g1_from_be_iff g2_from_be_iff)
qed

lemma verifying_key_unique:
  assumes "modulus_ok cv" and "key_ok cv vk" and "verifying_key_to_bytes vk = Some bs"
    and "key_ok cv vk'" and "verifying_key_to_bytes vk' = Some bs"
  shows "vk' = vk"
  using parse_verifying_key_to [OF assms(1,2,3)] parse_verifying_key_to [OF assms(1,4,5)] by simp

lemma load_pool_keys_cases:
  assumes "modulus_ok cv"
  obtains "load_pool_keys cv tf uf = unconfigured"
  | t u tk uk where "tf = Some t" "uf = Some u" "verifying_key_to_bytes tk = Some t" "verifying_key_to_bytes uk = Some u"
      "key_ok cv tk" "key_ok cv uk"
      "load_pool_keys cv tf uf = \<lparr> vk_transfer = Some tk, vk_unshield = Some uk \<rparr>"
  using assms parse_verifying_key_canonical
  by (fastforce simp: load_pool_keys_def load_keys_def split: option.splits sum.splits)

lemma accepts_canonical:
  assumes "modulus_ok cv" and "accepts cv (Some vk) pf inputs"
  shows "\<exists>p. proof_ok cv p \<and> pf = proof_to_bytes p \<and> verify_proof cv vk p inputs = Some True
    \<and> length (gamma_abc_g1 vk) = length inputs + 1"
  using assms(2) parse_proof_canonical [OF assms(1), of pf]
  by (auto simp: accepts_def verify_def split: sum.splits option.splits if_splits)

text \<open>An accepted spend has passed the verifier for its own public inputs.\<close>

lemma spend_was_verified:
  assumes "pool_process c ops st ns ins = (st', ns', Inr out)" and "nullifiers_of ins \<noteq> []"
  shows "key_file ins (verify_transfer c) (verify_unshield c) (proof_of ins) (public_inputs_of c ins)"
proof -
  have "acceptable c ops st ns ins" using process_rejects [of c ops st ns ins] assms(1) by auto
  with assms(2) show ?thesis by (cases ins) auto
qed

lemma groth16_verifier_sel [simp]:
  "verify_transfer (groth16_verifier cv ks c) = accepts cv (vk_transfer ks)"
  "verify_unshield (groth16_verifier cv ks c) = accepts cv (vk_unshield ks)"
  by (simp_all add: groth16_verifier_def)

lemma groth16_verifier_field [simp]:
  "fr_from_bytes (groth16_verifier cv ks c) = fr_from_bytes c" "fr_from_u64 (groth16_verifier cv ks c) = fr_from_u64 c"
  "from_le_bytes_mod_order (groth16_verifier cv ks c) = from_le_bytes_mod_order c"
  by (simp_all add: groth16_verifier_def fr_from_bytes_def fr_to_bytes_def fun_eq_iff)

lemma groth16_verifier_asset [simp]: "asset_id_fr (groth16_verifier cv ks c) a = asset_id_fr c a"
  by (simp add: asset_id_fr_def native_asset_id_def asset_id_for_mint_def split: asset.splits)

lemma groth16_verifier_tree [simp]:
  "fr_to_bytes (groth16_verifier cv ks c) = fr_to_bytes c" "zero_at (groth16_verifier cv ks c) = zero_at c"
  "pool_new (groth16_verifier cv ks c) = pool_new c" "crypto_ok (groth16_verifier cv ks c) = crypto_ok c"
proof -
  let ?c = "groth16_verifier cv ks c"
  show bytes: "fr_to_bytes ?c = fr_to_bytes c" by (simp add: groth16_verifier_def fr_to_bytes_def fun_eq_iff)
  show zero: "zero_at ?c = zero_at c"
  proof
    show "zero_at ?c l = zero_at c l" for l
      by (induction l) (simp_all add: tree_node_def hash2_def groth16_verifier_def)
  qed
  show "pool_new ?c = pool_new c" by (simp add: pool_new_def zero_hashes_def bytes zero)
  show "crypto_ok ?c = crypto_ok c" by (simp add: crypto_ok_def groth16_verifier_def)
qed

lemma sample_curve_ok: "modulus_ok sample_curve" "proof_ok sample_curve sample_groth16" "key_ok sample_curve sample_key"
  by (simp_all add: modulus_ok_def proof_ok_def key_ok_def sample_curve_def sample_groth16_def sample_key_def)


section \<open>Properties\<close>

text \<open>
  C33: The wire formats of proofs and verifying keys are canonical. A byte string is parsed to a
  proof exactly when it is the encoding of that proof and the proof's three points have
  coordinates below the modulus and lie in their groups, so no two byte strings stand for one
  proof; the same holds of the verifying keys, whose length is fixed by their number of inputs.
\<close>

theorem proof_encoding_canonical:
  assumes "modulus_ok cv"
  shows "(parse_proof cv bs = Inr p \<longleftrightarrow> proof_ok cv p \<and> proof_to_bytes p = bs)
    \<and> (parse_verifying_key cv bs = Inr vk \<longleftrightarrow> key_ok cv vk \<and> verifying_key_to_bytes vk = Some bs)"
  using assms parse_proof_to parse_proof_canonical parse_verifying_key_to parse_verifying_key_canonical by metis

theorem proof_encoding_canonical_witness:
  "parse_proof sample_curve (proof_to_bytes sample_groth16) = Inr sample_groth16
    \<and> parse_verifying_key sample_curve (the (verifying_key_to_bytes sample_key)) = Inr sample_key"
proof -
  obtain bs where "verifying_key_to_bytes sample_key = Some bs"
    by (simp add: verifying_key_to_bytes_def sample_key_def)
  then show ?thesis
    using sample_curve_ok proof_encoding_canonical [of sample_curve bs sample_groth16 sample_key]
      proof_encoding_canonical [of sample_curve "proof_to_bytes sample_groth16" sample_groth16 sample_key] by simp
qed

text \<open>
  C14: Nothing leaves or moves in the pool without a proof. When the pool that \<^verbatim>\<open>main.rs\<close> sets up
  accepts a transfer or an unshield, both key files were there and are the encodings of well-formed
  keys, the instruction's proof bytes are the encoding of a well-formed proof, and the pairing check
  of the key of that kind of instruction accepts the proof for exactly the public inputs the
  instruction carries. With a key file missing or malformed every spend is refused.
\<close>

theorem spends_need_verified_proofs:
  assumes "modulus_ok cv" and "nullifiers_of ins \<noteq> []"
    and "pool_process (groth16_verifier cv (load_pool_keys cv tf uf) c) ops st ns ins = (st', ns', Inr out)"
  shows "\<exists>t u tk uk p. tf = Some t \<and> uf = Some u
    \<and> key_ok cv tk \<and> verifying_key_to_bytes tk = Some t \<and> key_ok cv uk \<and> verifying_key_to_bytes uk = Some u
    \<and> proof_ok cv p \<and> proof_of ins = proof_to_bytes p
    \<and> verify_proof cv (key_file ins tk uk) p (public_inputs_of c ins) = Some True"
  using assms(1)
proof (cases rule: load_pool_keys_cases [of cv tf uf])
  case 1
  then show ?thesis using spend_was_verified [OF assms(3,2)] by (cases ins) (auto simp: unconfigured_def accepts_def)
next
  case (2 t u tk uk)
  then have "accepts cv (Some (key_file ins tk uk)) (proof_of ins) (public_inputs_of c ins)"
    using spend_was_verified [OF assms(3,2)] by (cases ins) auto
  from accepts_canonical [OF assms(1) this] 2 show ?thesis by blast
qed

theorem spends_need_verified_proofs_witness:
  "\<exists>p. proof_ok sample_curve p \<and> proof_of sample_spend = proof_to_bytes p
    \<and> verify_proof sample_curve sample_key p (public_inputs_of byte_pool sample_spend) = Some True"
proof -
  let ?ks = "load_pool_keys sample_curve (verifying_key_to_bytes sample_key) (verifying_key_to_bytes sample_key)"
  let ?c = "groth16_verifier sample_curve ?ks byte_pool"
  obtain bs where bs: "verifying_key_to_bytes sample_key = Some bs"
    by (simp add: verifying_key_to_bytes_def sample_key_def)
  note keys = parse_verifying_key_to [OF sample_curve_ok(1,3) bs]
  have ks: "?ks = \<lparr> vk_transfer = Some sample_key, vk_unshield = Some sample_key \<rparr>"
    by (simp add: load_pool_keys_def load_keys_def bs keys)
  have "accepts sample_curve (Some sample_key) (proof_to_bytes sample_groth16) (public_inputs_of byte_pool sample_spend)"
    using parse_proof_to [OF sample_curve_ok(1,2)]
    by (simp add: accepts_def verify_def sample_key_def sample_curve_def sample_spend_def)
  then have "acceptable ?c list_nullifiers (pool_new ?c) [] sample_spend"
    using sample_root_known
    by (simp add: ks sample_spend_def list_nullifiers_def)
  then obtain st' ns' out where
    "pool_process ?c list_nullifiers (pool_new ?c) [] sample_spend = (st', ns', Inr out)"
    using process_accepts [OF _ pool_new_rep, of ?c list_nullifiers "[]" sample_spend]
    by (auto simp: sample_spend_def TREE_DEPTH_def)
  from spends_need_verified_proofs [OF sample_curve_ok(1) _ this] show ?thesis
    using verifying_key_unique [OF sample_curve_ok(1,3) bs] by (auto simp: bs sample_spend_def)
qed

end
