(* ===== verification/Node_Process.thy ===== *)
theory Node_Process
  imports Rpc_Server Settlement_Flow Verifier
begin

text \<open>
  The process around a node: \<^verbatim>\<open>main.rs\<close> (what the configuration makes of the node, the production loop
  and the shutdown), the deposit watcher's thread of \<^verbatim>\<open>bridge.rs\<close>, the settlement driver's thread of
  \<^verbatim>\<open>l1.rs\<close> with its metrics, and the endpoint of \<^verbatim>\<open>metrics.rs\<close>. Files, sockets and the clock are
  arguments: \<open>load_key\<close> reads a key file, and each round of a loop gets what it reads from outside.
\<close>

section \<open>main.rs: start-up\<close>

fun config_path :: "string list \<Rightarrow> string" where
  "config_path (a # b # rest) = (if a = ''--config'' then b else config_path (b # rest))"
| "config_path _ = ''./config/node.toml''"

record keypair =
  kp_pubkey :: pubkey
  kp_sign :: "bytes \<Rightarrow> sigbytes"

datatype start_error =
  BadConfig config_error | BadGenesis genesis_error | BadKeypair | BadGasMint | NodeFailed node_error | BadL1Section

definition faucet_of :: "(string \<Rightarrow> keypair option) \<Rightarrow> rpc_section \<Rightarrow> start_error + pubkey option" where
  "faucet_of load_key rpc =
    (if faucet_enabled rpc
     then (case load_key (the (faucet_key_path rpc)) of None \<Rightarrow> Inl BadKeypair | Some k \<Rightarrow> Inr (Some (kp_pubkey k)))
     else Inr None)"

definition gas_mint_of :: "rpc_codec \<Rightarrow> l1_section \<Rightarrow> start_error + pubkey option" where
  "gas_mint_of cod l1 =
    (if gas_mint_str l1 = [] then Inr None
     else case pubkey_from_str cod (gas_mint_str l1) of None \<Rightarrow> Inl BadGasMint | Some m \<Rightarrow> Inr (Some m))"

definition run_options :: "node_config \<Rightarrow> pubkey option \<Rightarrow> pubkey option \<Rightarrow> node_options" where
  "run_options cfg faucet gm =
    node_options_default\<lparr> opt_slot_duration := slot_duration_ms (cfg_node cfg), opt_heartbeat := heartbeat_ms (cfg_node cfg),
      opt_mempool_capacity := mempool_capacity (cfg_node cfg), opt_max_per_payer := cfg_max_per_payer (cfg_node cfg),
      opt_faucet := faucet, opt_faucet_max_lamports := faucet_max_lamports (cfg_rpc cfg), opt_gas_mint := gm \<rparr>"

text \<open>The node's environment with the sequencer's key, the options and the pool's verifier of this start.\<close>

definition run_env ::
  "'f curve \<Rightarrow> ('b, 'f) node_env \<Rightarrow> node_config \<Rightarrow> keypair \<Rightarrow> bytes option \<Rightarrow> bytes option
    \<Rightarrow> pubkey option \<Rightarrow> pubkey option \<Rightarrow> ('b, 'f) node_env" where
  "run_env cv env cfg seqk transfer_file unshield_file faucet gm =
    env\<lparr> seq_pubkey := kp_pubkey seqk, seq_sign := kp_sign seqk, options := run_options cfg faucet gm,
      pool_template := (pool_template env)\<lparr> verifier :=
        groth16_verifier cv (load_pool_keys cv transfer_file unshield_file) (verifier (pool_template env)) \<rparr> \<rparr>"


section \<open>bridge.rs and l1.rs: the threads' settings\<close>

definition bridge_spawn :: "rpc_codec \<Rightarrow> l1_section \<Rightarrow> (pubkey \<times> pubkey) option" where
  "bridge_spawn cod l1 =
    (case pubkey_from_str cod (settlement_program_id l1) of None \<Rightarrow> None
     | Some settlement \<Rightarrow>
       Some (settlement, case pubkey_from_str cod (da_log_program_id l1) of Some k \<Rightarrow> k | None \<Rightarrow> settlement))"

record driver_settings =
  ds_settlement :: pubkey
  ds_da_log :: pubkey
  ds_authority :: keypair
  ds_interval :: u64
  ds_idle_ms :: u64

definition l1_spawn :: "rpc_codec \<Rightarrow> (string \<Rightarrow> keypair option) \<Rightarrow> l1_section \<Rightarrow> u64 \<Rightarrow> driver_settings option" where
  "l1_spawn cod load_key l1 slot_duration =
    (case pubkey_from_str cod (settlement_program_id l1) of None \<Rightarrow> None
     | Some settlement \<Rightarrow> (case pubkey_from_str cod (da_log_program_id l1) of None \<Rightarrow> None
     | Some da_log \<Rightarrow> (case load_key (bridge_authority_key_path l1) of None \<Rightarrow> None
     | Some auth \<Rightarrow>
       (let interval = max (batch_interval_slots l1) 1
        in Some \<lparr> ds_settlement = settlement, ds_da_log = da_log, ds_authority = auth, ds_interval = interval,
             ds_idle_ms = max (saturating_mul slot_duration interval) 1000 \<rparr>))))"


section \<open>main.rs: starting the node and its threads\<close>

definition start_node ::
  "rpc_codec \<Rightarrow> 'f curve \<Rightarrow> (string \<Rightarrow> keypair option) \<Rightarrow> ('b, 'f) node_env \<Rightarrow> node_config \<Rightarrow> genesis_config
    \<Rightarrow> bytes option \<Rightarrow> bytes option \<Rightarrow> tx_error store \<Rightarrow> u64 \<Rightarrow> start_error + (('b, 'f) node_env \<times> node)" where
  "start_node cod cv load_key env cfg g transfer_file unshield_file s now =
    (case config_validate cfg of Inl e \<Rightarrow> Inl (BadConfig e)
     | Inr _ \<Rightarrow> (case genesis_validate g of Inl e \<Rightarrow> Inl (BadGenesis e)
     | Inr _ \<Rightarrow> (case load_key (sequencer_key_path (cfg_node cfg)) of None \<Rightarrow> Inl BadKeypair
     | Some seqk \<Rightarrow> (case faucet_of load_key (cfg_rpc cfg) of Inl e \<Rightarrow> Inl e
     | Inr faucet \<Rightarrow> (case gas_mint_of cod (cfg_l1 cfg) of Inl e \<Rightarrow> Inl e
     | Inr gm \<Rightarrow>
       (let env' = run_env cv env cfg seqk transfer_file unshield_file faucet gm
        in case node_new env' s g now of Inl e \<Rightarrow> Inl (NodeFailed e) | Inr n \<Rightarrow>
            if l1_enabled (cfg_l1 cfg)
              \<and> (Option.is_none (l1_spawn cod load_key (cfg_l1 cfg) (slot_duration_ms (cfg_node cfg)))
                \<or> Option.is_none (bridge_spawn cod (cfg_l1 cfg)))
            then Inl BadL1Section else Inr (env', n)))))))"


section \<open>bridge.rs: a round of the deposit watcher\<close>

definition watcher_round :: "hasher \<Rightarrow> l1_error + deposit_event list \<Rightarrow> node \<Rightarrow> node" where
  "watcher_round b3 answer n =
    (case answer of Inl _ \<Rightarrow> n
     | Inr deposits \<Rightarrow>
       (let fresh = watcher_fresh b3 (nd_store n) deposits
        in if fresh \<noteq> [] then enqueue_deposits n fresh else n))"


section \<open>metrics.rs\<close>

record l1_metrics =
  mt_enabled :: bool
  mt_last_batch_no :: int
  mt_cursor_slot :: u64
  mt_authority_lamports :: u64
  mt_post_failures :: u64

definition metrics_new :: l1_metrics where
  "metrics_new = \<lparr> mt_enabled = False, mt_last_batch_no = - 1, mt_cursor_slot = 0, mt_authority_lamports = 0, mt_post_failures = 0 \<rparr>"

definition newline :: string where
  "newline = [CHR 0x0A]"

definition metric :: "string \<Rightarrow> string \<Rightarrow> string \<Rightarrow> string \<Rightarrow> string" where
  "metric name help kind v =
    ''# HELP '' @ name @ '' '' @ help @ newline @ ''# TYPE '' @ name @ '' '' @ kind @ newline @ name @ '' '' @ v @ newline"

definition decimal_int :: "int \<Rightarrow> string" where
  "decimal_int i = (if i < 0 then ''-'' @ decimal (nat (- i)) else decimal (nat i))"

definition decimal_bool :: "bool \<Rightarrow> string" where
  "decimal_bool b = (if b then ''1'' else ''0'')"

definition render :: "('b, 'f) node_env \<Rightarrow> u64 \<Rightarrow> node \<Rightarrow> l1_metrics \<Rightarrow> string" where
  "render env now n m =
    metric ''zul_slot'' ''Current chain tip slot (block height).'' ''gauge'' (decimal (unat (current_slot n)))
    @ metric ''zul_total_txs'' ''Transactions committed since genesis.'' ''counter'' (decimal (unat (total_txs n)))
    @ metric ''zul_mempool_depth'' ''Transactions waiting in the mempool.'' ''gauge'' (decimal (mempool_depth n))
    @ metric ''zul_last_block_age_ms'' ''Milliseconds since the last committed block.'' ''gauge''
        (decimal (unat (last_block_age_ms n now)))
    @ metric ''zul_healthy'' ''1 if the producer is live, else 0.'' ''gauge'' (decimal_bool (is_healthy env now n))
    @ metric ''zul_l1_enabled'' ''1 if L1 settlement batching is on.'' ''gauge'' (decimal_bool (mt_enabled m))
    @ metric ''zul_l1_last_batch_no'' ''Last settlement batch number posted to L1 (-1 = none).'' ''gauge''
        (decimal_int (mt_last_batch_no m))
    @ metric ''zul_l1_cursor_slot'' ''First L2 slot not yet settled to L1.'' ''gauge'' (decimal (unat (mt_cursor_slot m)))
    @ metric ''zul_l1_authority_lamports'' ''Balance of the batch-posting authority on L1.'' ''gauge''
        (decimal (unat (mt_authority_lamports m)))
    @ metric ''zul_l1_post_failures'' ''Batch-post failures (triggers a re-derive from L1).'' ''counter''
        (decimal (unat (mt_post_failures m)))"

definition http_answer :: "('b, 'f) node_env \<Rightarrow> u64 \<Rightarrow> node \<Rightarrow> l1_metrics \<Rightarrow> string \<Rightarrow> nat \<times> string" where
  "http_answer env now n m url =
    (if url = ''/metrics'' then (200, render env now n m)
     else if url = ''/health'' then (if is_healthy env now n then (200, ''ok'' @ newline) else (503, ''unhealthy'' @ newline))
     else (404, ''not found'' @ newline))"


section \<open>l1.rs: the driver's thread\<close>

text \<open>
  An attempt to set the batcher up, which the thread repeats until it succeeds: the batcher and the
  metrics, which take the last batch from L1 when it can be read.
\<close>

definition driver_init ::
  "batch_error + batcher \<Rightarrow> l1_error + u64 option \<Rightarrow> l1_metrics \<Rightarrow> batcher option \<times> l1_metrics" where
  "driver_init built posted m =
    (case built of Inl _ \<Rightarrow> (None, m)
     | Inr bt \<Rightarrow>
       (let m = m\<lparr> mt_enabled := True \<rparr>
        in (Some bt, case posted of Inr (Some k) \<Rightarrow> m\<lparr> mt_last_batch_no := sint k \<rparr> | _ \<Rightarrow> m)))"

text \<open>
  What the thread reads in one round: whether the store answers for its tip, the balance, and the
  batcher built again from L1.
\<close>

record driver_reads =
  rd_tip_ok :: bool
  rd_balance :: "l1_error + u64"
  rd_rebuilt :: "batch_error + batcher"

definition driver_iteration ::
  "hasher \<Rightarrow> batch_codec \<Rightarrow> 'w l1_ops \<Rightarrow> l1_section \<Rightarrow> driver_reads \<Rightarrow> 'e store \<Rightarrow> (batcher \<times> 'w) \<times> l1_metrics
    \<Rightarrow> ((batcher \<times> 'w) \<times> l1_metrics) \<times> driver_next" where
  "driver_iteration b3 cod ops l1 rd s st =
    (case st of ((bt, w), m) \<Rightarrow>
      let m = m\<lparr> mt_cursor_slot := cursor_slot bt \<rparr>
      in if \<not> rd_tip_ok rd then (((bt, w), m), Idle)
         else
           (let latest = (case meta_latest_slot s of Some sl \<Rightarrow> sl | None \<Rightarrow> 0); cursor = cursor_slot bt;
                interval = max (batch_interval_slots l1) 1
            in if latest \<ge> cursor
               then
                 (let m = (case rd_balance rd of Inr b \<Rightarrow> m\<lparr> mt_authority_lamports := b \<rparr> | Inl _ \<Rightarrow> m)
                  in if (case rd_balance rd of Inr b \<Rightarrow> b < MIN_AUTHORITY_LAMPORTS | Inl _ \<Rightarrow> False) then (((bt, w), m), Idle)
                     else
                       (let tip = min latest (cursor + interval - 1); nxt = (if tip < latest then CatchUp else Idle)
                        in case run_once b3 cod ops bt s tip w of
                             (w', bt', Inr (Some r)) \<Rightarrow> (((bt', w'), m\<lparr> mt_last_batch_no := sint (br_batch_no r) \<rparr>), nxt)
                           | (w', bt', Inr None) \<Rightarrow> (((bt', w'), m), nxt)
                           | (w', bt', Inl _) \<Rightarrow>
                               (((case rd_rebuilt rd of Inr fresh \<Rightarrow> fresh | Inl _ \<Rightarrow> bt', w'),
                                 m\<lparr> mt_post_failures := mt_post_failures m + 1 \<rparr>), Rederive)))
               else (((bt, w), m), Idle)))"


section \<open>main.rs: the running process\<close>

text \<open>
  The phases of \<open>run\<close>: after the request to stop the node is draining, the production loop may still
  tick until it sees the request, then the servers are stopped.
\<close>

datatype phase = Running | Draining | LoopStopped | Exited

record process =
  pr_phase :: phase
  pr_node :: node

datatype process_event =
  Tick u64 | Call u64 string "json option" | Watch "l1_error + deposit_event list"
| StopSignal | LoopExit | ServersStopped

text \<open>\<open>None\<close>: the event cannot happen in this phase, or the production panics.\<close>

fun process_step ::
  "('b, 'f) node_env \<Rightarrow> rpc_codec \<Rightarrow> node_config \<Rightarrow> process_event \<Rightarrow> process \<Rightarrow> process option" where
  "process_step env cod cfg (Tick now) p =
    (if pr_phase p = Running \<or> pr_phase p = Draining
     then map_option (\<lambda>(n, _). p\<lparr> pr_node := n \<rparr>) (try_produce_block env now (pr_node p)) else None)"
| "process_step env cod cfg (Call now name raw) p =
    (if pr_phase p \<noteq> Exited
     then Some (p\<lparr> pr_node := (case rpc_call env cod (faucet_enabled (cfg_rpc cfg)) now (pr_node p) name raw of
         None \<Rightarrow> pr_node p | Some (n, _) \<Rightarrow> n) \<rparr>) else None)"
| "process_step env cod cfg (Watch answer) p =
    (if l1_enabled (cfg_l1 cfg) \<and> pr_phase p \<noteq> Exited
     then Some (p\<lparr> pr_node := watcher_round (nd_b3 env) answer (pr_node p) \<rparr>) else None)"
| "process_step env cod cfg StopSignal p =
    (if pr_phase p = Running then Some \<lparr> pr_phase = Draining, pr_node = begin_draining (pr_node p) \<rparr> else None)"
| "process_step env cod cfg LoopExit p = (if pr_phase p = Draining then Some (p\<lparr> pr_phase := LoopStopped \<rparr>) else None)"
| "process_step env cod cfg ServersStopped p = (if pr_phase p = LoopStopped then Some (p\<lparr> pr_phase := Exited \<rparr>) else None)"

fun process_run ::
  "('b, 'f) node_env \<Rightarrow> rpc_codec \<Rightarrow> node_config \<Rightarrow> process_event list \<Rightarrow> process \<Rightarrow> process option" where
  "process_run env cod cfg [] p = Some p"
| "process_run env cod cfg (e # es) p = Option.bind (process_step env cod cfg e p) (process_run env cod cfg es)"


section \<open>Lemmas: deposits\<close>

text \<open>The account writes of a block's execution and pool stages, which come before the deposits.\<close>

definition staged_writes :: "('b, 'f) node_env \<Rightarrow> u64 \<Rightarrow> node \<Rightarrow> transaction list \<Rightarrow> writes option" where
  "staged_writes env now n txs =
    (let (pool_txs, regular_txs) = pool_partition (de_ins env) (snd (partition_withdraws txs))
     in case execute_block (vm env) (nd_collector n) (nd_store n)
          \<lparr> in_slot = tip_slot n + 1, in_timestamp_ms = now, parent_blockhash = tip_blockhash n,
            in_transactions = regular_txs, in_queue = tip_queue n \<rparr> of
       Inl _ \<Rightarrow> None
     | Inr out \<Rightarrow>
       (case pool_stage (pool_service_for env (nd_collector n)) (nd_store n) pool_txs
          (fold (\<lambda>(k, a). RBT.insert k a) (out_writes out) RBT.empty) of
          Some (Inr (w, _)) \<Rightarrow> Some w | _ \<Rightarrow> None))"

lemma burn_wrapped_adds:
  assumes "burn_wrapped_spl env s m own amount w = Some (w', ok)"
  shows "only_adds w w'"
proof (cases "current s w (associated_token_address (br_pda env) own (wrapped_mint_address (br_b3 env) m))")
  case None
  with assms show ?thesis by (auto simp: burn_wrapped_spl_def split: if_splits)
next
  case (Some acc)
  let ?wmint = "wrapped_mint_address (br_b3 env) m"
  let ?w = "\<lambda>d. RBT.insert (associated_token_address (br_pda env) own ?wmint) (Some (acc\<lparr> data := d \<rparr>)) w"
  have adds: "only_adds w (RBT.insert k (Some a) (?w d))" "only_adds w (?w d)" for k a d
    by (intro only_adds_insert only_adds_refl)+
  show ?thesis
  proof (cases "amount = 0 \<or> amount_or_zero (data acc) < amount")
    case True
    with assms Some show ?thesis by (simp add: burn_wrapped_spl_def split: if_split_asm)
  next
    case False
    with assms Some obtain d where "(case current s (?w d) ?wmint of None \<Rightarrow> Some (?w d, True)
      | Some macc \<Rightarrow> Option.bind (set_mint_supply (data macc)
            (saturating_sub (case mint_supply (data macc) of Some x \<Rightarrow> x | None \<Rightarrow> 0) amount))
          (\<lambda>md. Some (RBT.insert ?wmint (Some (macc\<lparr> data := md \<rparr>)) (?w d), True))) = Some (w', ok)"
      by (simp add: burn_wrapped_spl_def [unfolded Let_def] bind_eq_Some_conv [of "set_token_account_amount x y" for x y]) blast
    then show ?thesis using adds by (cases "current s (?w d) ?wmint") (auto simp: bind_eq_Some_conv)
  qed
qed

lemma debit_withdraw_adds: "debit_withdraw env s w ws = Some (ws', r) \<Longrightarrow> only_adds ws ws'"
  by (auto simp: debit_withdraw_def Let_def bind_eq_Some_conv intro!: only_adds_insert
    dest: burn_wrapped_adds split: if_splits option.splits)

lemma apply_withdraws_adds: "apply_withdraws env s wts ws = Some (ws', r) \<Longrightarrow> only_adds ws ws'"
proof (induction wts arbitrary: ws r)
  case (Cons w wts)
  obtain inc leaves where r: "r = (inc, leaves)" by (cases r)
  from Cons.prems [unfolded r] show ?case
  proof (cases rule: apply_withdraws_Cons)
    case (accepted ws1 post inc1 leaves1)
    have "only_adds ws1 (credit_collector env s ws1)" by (auto simp: credit_collector_def Let_def intro: only_adds_insert)
    with Cons.IH [OF accepted(2)] debit_withdraw_adds [OF accepted(1)] show ?thesis by (meson only_adds_trans)
  next
    case (rejected inc1)
    show ?thesis by (rule Cons.IH [OF rejected(2)])
  qed
qed simp

lemma run_block_stages:
  assumes "run_block env now n txs ds = Some (Inr (w, inc, nulls, leaves))"
  obtains w1 w2 c where "staged_writes env now n txs = Some w1"
    and "apply_deposits (bridge_of env n) (nd_store n) ds w1 = Some (w2, c)" and "only_adds w2 w"
  using assms
  by (auto simp: run_block_def staged_writes_def Let_def bind_eq_Some_conv case_prod_unfold
    dest!: apply_withdraws_adds split: sum.splits option.splits prod.splits)

lemma committed_account:
  assumes "commit_content env now n (w, inc, nulls, leaves) = Inr n'"
  shows "get_account (nd_store n') k = (case RBT.lookup w k of Some a \<Rightarrow> a | None \<Rightarrow> get_account (nd_store n) k)"
    and "pending_deposits n' = pending_deposits n" and "draining n' = draining n"
proof -
  obtain s b q where commit: "commit_block (nd_b3 env) (nd_store n) b (map snd inc) (RBT.entries w) (content_update env n w) q nulls = Inr s"
    and n': "n' = (insert_leaves (nd_b3 env) leaves (n\<lparr> nd_store := s, tip_queue := q, tip_slot := tip_slot n + 1,
        tip_blockhash := header_hash (nd_b3 env) (ser_hdr env) (header b), last_block_unix_ms := now \<rparr>))
      \<lparr> total_txs := total_txs n + ucast (transaction_count (header b)) \<rparr>"
    using assms by (rule commit_content_cases)
  have "get_account (nd_store n') k = get_account s k"
    by (simp add: n' insert_leaves_def Let_def get_account_def set_withdrawals_root_def)
  also have "\<dots> = apply_writes (RBT.entries w) (get_account (nd_store n)) k"
    by (simp add: get_account_def [abs_def] commit_block_fields(1) [OF commit] lookup_write_accounts)
  also have "\<dots> = (case RBT.lookup w k of Some a \<Rightarrow> a | None \<Rightarrow> get_account (nd_store n) k)"
    unfolding apply_writes_map_of [OF RBT.distinct_entries] RBT.map_of_entries ..
  finally show "get_account (nd_store n') k = (case RBT.lookup w k of Some a \<Rightarrow> a | None \<Rightarrow> get_account (nd_store n) k)" .
  show "pending_deposits n' = pending_deposits n" "draining n' = draining n" by (simp_all add: n' insert_leaves_def Let_def)
qed

lemma take_work_fields [simp]:
  "pending_deposits (fst (take_work env n)) = []" "snd (snd (take_work env n)) = pending_deposits n"
  "nd_store (fst (take_work env n)) = nd_store n" "draining (fst (take_work env n)) = draining n"
  by (simp_all add: take_work_def case_prod_unfold Let_def)

lemma produce_take_work:
  "try_produce_block env now n = finish_block env now (fst (take_work env n)) (fst (snd (take_work env n))) (pending_deposits n)"
  by (simp add: try_produce_block_def case_prod_unfold Let_def)

lemma produce_draining: "try_produce_block env now n = Some (n', r) \<Longrightarrow> draining n' = draining n"
proof -
  assume "try_produce_block env now n = Some (n', r)"
  then show ?thesis unfolding produce_take_work
    by (cases rule: finish_block_cases) (auto simp: committed_account(3))
qed

lemma deposits_receipted:
  assumes "finish_block env now n txs ds = Some (n', Inr (Some sl))" and "staged_writes env now n txs = Some w"
    and "RBT.lookup w (receipt_of (bridge_of env n) d) \<noteq> Some None"
    and "d \<in> set ds \<or> get_account (nd_store n) (receipt_of (bridge_of env n) d) \<noteq> None"
  shows "get_account (nd_store n') (receipt_of (bridge_of env n) d) \<noteq> None"
proof -
  let ?r = "receipt_of (bridge_of env n) d"
  obtain w3 inc nulls leaves where run: "run_block env now n txs ds = Some (Inr (w3, inc, nulls, leaves))"
    and commit: "commit_content env now n (w3, inc, nulls, leaves) = Inr n'"
    using assms(1) by (rule finish_block_cases) (simp, metis prod_cases4)
  obtain w2 c where dep: "apply_deposits (bridge_of env n) (nd_store n) ds w = Some (w2, c)" and w3: "only_adds w2 w3"
    using run_block_stages [OF run] assms(2) by (metis option.inject)
  have "(\<exists>a. RBT.lookup w2 ?r = Some (Some a)) \<or> RBT.lookup w2 ?r = None \<and> get_account (nd_store n) ?r \<noteq> None"
    using apply_deposits_receipts [OF dep _ assms(3)] apply_deposits_adds [OF dep] assms(3,4)
    unfolding only_adds_def by (metis not_Some_eq)
  then show ?thesis
    using w3 unfolding only_adds_def committed_account(1) [OF commit] by (metis option.distinct(1) option.simps(4,5))
qed


section \<open>Lemmas: the process\<close>

interpretation drained: rpc_backend env "\<lambda>n'. draining n' = draining n" for env :: "('b, 'f) node_env" and n
  by unfold_locales
    (auto simp: submit_transaction_def request_airdrop_def Let_def split: option.split sum.split mempool_error.split prod.split)

lemma start_node_cases:
  assumes "start_node cod cv load_key env cfg g tf uf s now = Inr (env', n)"
  obtains seqk faucet gm where "env' = run_env cv env cfg seqk tf uf faucet gm" and "node_new env' s g now = Inr n"
    and "\<forall>s' now'. start_node cod cv load_key env cfg g tf uf s' now'
      = (case node_new env' s' g now' of Inl e \<Rightarrow> Inl (NodeFailed e) | Inr n' \<Rightarrow> Inr (env', n'))"
proof -
  obtain seqk faucet gm where env': "env' = run_env cv env cfg seqk tf uf faucet gm" and n: "node_new env' s g now = Inr n"
    and checks: "config_validate cfg = Inr ()" "genesis_validate g = Inr ()" "load_key (sequencer_key_path (cfg_node cfg)) = Some seqk"
      "faucet_of load_key (cfg_rpc cfg) = Inr faucet" "gas_mint_of cod (cfg_l1 cfg) = Inr gm"
      "\<not> (l1_enabled (cfg_l1 cfg) \<and> (Option.is_none (l1_spawn cod load_key (cfg_l1 cfg) (slot_duration_ms (cfg_node cfg)))
        \<or> Option.is_none (bridge_spawn cod (cfg_l1 cfg))))"
    using assms by (auto simp: start_node_def Let_def split: sum.split_asm option.split_asm if_split_asm)
  have "\<forall>s' now'. start_node cod cv load_key env cfg g tf uf s' now'
      = (case node_new env' s' g now' of Inl e \<Rightarrow> Inl (NodeFailed e) | Inr n' \<Rightarrow> Inr (env', n'))"
    using checks by (auto simp: start_node_def Let_def env' split: sum.split)
  with env' n show ?thesis by (rule that)
qed

lemma process_step_node:
  assumes "process_step env cod cfg e p = Some p'"
  shows "node_serial env g (pr_node p) \<Longrightarrow> node_serial env g (pr_node p')"
    and "pr_phase p' = Running \<or> draining (pr_node p') \<or> \<not> draining (pr_node p) \<and> pr_phase p \<noteq> Running"
    and "pr_phase p \<in> {LoopStopped, Exited} \<Longrightarrow> pr_phase p' \<in> {LoopStopped, Exited} \<and> core (pr_node p') = core (pr_node p)"
proof -
  let ?call = "\<lambda>now name raw. case rpc_call env cod (faucet_enabled (cfg_rpc cfg)) now (pr_node p) name raw of
    None \<Rightarrow> pr_node p | Some (n, _) \<Rightarrow> n"
  have call: "node_serial env g (pr_node p) \<Longrightarrow> node_serial env g (?call now name raw)"
    "draining (?call now name raw) = draining (pr_node p)" "core (?call now name raw) = core (pr_node p)" for now name raw
    by (cases "rpc_call env cod (faucet_enabled (cfg_rpc cfg)) now (pr_node p) name raw",
      auto dest: serial.call_safe drained.call_safe [OF refl] core.call_safe [OF refl])+
  show "node_serial env g (pr_node p) \<Longrightarrow> node_serial env g (pr_node p')"
    using assms call(1)
    by (cases e) (auto simp: watcher_round_def Let_def split: if_splits sum.splits intro: node_serial.intros)
  show "pr_phase p' = Running \<or> draining (pr_node p') \<or> \<not> draining (pr_node p) \<and> pr_phase p \<noteq> Running"
    using assms call(2)
    by (cases e; cases "pr_phase p") (auto dest: produce_draining simp: watcher_round_def begin_draining_def enqueue_deposits_def Let_def split: if_splits sum.splits)
  show "pr_phase p \<in> {LoopStopped, Exited} \<Longrightarrow> pr_phase p' \<in> {LoopStopped, Exited} \<and> core (pr_node p') = core (pr_node p)"
    using assms call(3)
    by (cases e) (auto simp: watcher_round_def Let_def split: if_splits sum.splits)
qed

lemma process_run_node:
  "process_run env cod cfg es p = Some p' \<Longrightarrow> node_serial env g (pr_node p) \<Longrightarrow> node_serial env g (pr_node p')"
  "process_run env cod cfg es p = Some p' \<Longrightarrow> pr_phase p = Running \<or> draining (pr_node p)
    \<Longrightarrow> pr_phase p' = Running \<or> draining (pr_node p')"
  "process_run env cod cfg es p = Some p' \<Longrightarrow> pr_phase p \<in> {LoopStopped, Exited} \<Longrightarrow> core (pr_node p') = core (pr_node p)"
proof (induction es arbitrary: p)
  case (Cons e es)
  {
    case 1
    then show ?case using Cons.IH(1) process_step_node(1) by (simp add: bind_eq_Some_conv) blast
  next
    case 2
    then show ?case using Cons.IH(2) process_step_node(2) by (simp add: bind_eq_Some_conv) blast
  next
    case 3
    then show ?case using Cons.IH(3) process_step_node(3) unfolding process_run.simps bind_eq_Some_conv by metis
  }
qed simp_all


section \<open>Lemmas: the driver\<close>

definition balance_read :: "driver_reads \<Rightarrow> u64 option" where
  "balance_read rd = (case rd_balance rd of Inr b \<Rightarrow> Some b | Inl _ \<Rightarrow> None)"

text \<open>The thread's round refines the batcher's round, and counts no failure, unless the batch fails.\<close>

lemma iteration_round:
  assumes "rd_tip_ok rd" and "snd (driver_round b3 cod ops l1 (balance_read rd) s bw) \<noteq> Rederive"
  shows "fst (fst (driver_iteration b3 cod ops l1 rd s (bw, m))) = fst (driver_round b3 cod ops l1 (balance_read rd) s bw)
    \<and> mt_post_failures (snd (fst (driver_iteration b3 cod ops l1 rd s (bw, m)))) = mt_post_failures m"
proof -
  obtain bt w where bw: "bw = (bt, w)" by (cases bw)
  let ?latest = "case meta_latest_slot s of Some sl \<Rightarrow> sl | None \<Rightarrow> 0"
  obtain w' bt' r where run: "run_once b3 cod ops bt s (min ?latest (cursor_slot bt + max (batch_interval_slots l1) 1 - 1)) w
      = (w', bt', r)" by (rule prod_cases3)
  show ?thesis
    using assms run
    by (cases "rd_balance rd"; cases r)
      (auto simp: bw driver_iteration_def driver_round_def balance_read_def Let_def split: option.splits)
qed

lemma iterations_refine:
  assumes "rd_tip_ok rd"
    and "\<forall>j<k. snd (driver_round b3 cod ops l1 (balance_read rd) s
      (((fst \<circ> driver_round b3 cod ops l1 (balance_read rd) s) ^^ j) bw)) \<noteq> Rederive"
  shows "fst (((fst \<circ> driver_iteration b3 cod ops l1 rd s) ^^ k) (bw, m)) = ((fst \<circ> driver_round b3 cod ops l1 (balance_read rd) s) ^^ k) bw
    \<and> mt_post_failures (snd (((fst \<circ> driver_iteration b3 cod ops l1 rd s) ^^ k) (bw, m))) = mt_post_failures m"
  using assms(2)
proof (induction k)
  case (Suc k)
  let ?st = "((fst \<circ> driver_iteration b3 cod ops l1 rd s) ^^ k) (bw, m)"
  have "\<forall>j<k. snd (driver_round b3 cod ops l1 (balance_read rd) s
      (((fst \<circ> driver_round b3 cod ops l1 (balance_read rd) s) ^^ j) bw)) \<noteq> Rederive"
    using Suc.prems less_SucI by blast
  note IH = Suc.IH [OF this]
  have "snd (driver_round b3 cod ops l1 (balance_read rd) s (fst ?st)) \<noteq> Rederive"
    using Suc.prems IH by (metis lessI)
  note step = iteration_round [OF assms(1) this, of "snd ?st", unfolded prod.collapse]
  have unfold: "(f ^^ Suc k) x = f ((f ^^ k) x)" for f :: "'z \<Rightarrow> 'z" and x by simp
  show ?case unfolding unfold using step IH by (metis comp_apply)
qed simp


section \<open>Samples\<close>

definition run_config :: node_config where
  "run_config = \<lparr> cfg_node = \<lparr> network = Testnet, data_dir = [], genesis_path = [], sequencer_key_path = [],
      slot_duration_ms = 500, heartbeat_ms = 10000, mempool_capacity = 10, cfg_max_per_payer = 5 \<rparr>,
    cfg_rpc = \<lparr> http_addr = [], ws_addr = [], faucet_enabled = False, faucet_max_lamports = 0, faucet_key_path = None,
      metrics_addr = None \<rparr>,
    cfg_l1 = default_l1_section \<rparr>"

definition run_key :: "string \<Rightarrow> keypair option" where
  "run_key path = Some \<lparr> kp_pubkey = replicate 32 1, kp_sign = (\<lambda>m. m) \<rparr>"

definition run_deposit :: deposit_event where
  "run_deposit = \<lparr> l1_signature = [4], mint = None, dep_decimals = 9, dep_amount = 77, l2_recipient = [6] \<rparr>"

lemma sample_run_starts:
  obtains env' n where "start_node sample_codec sample_curve run_key chain_env run_config chain_genesis None None store_open 0
    = Inr (env', n)"
proof -
  let ?env = "run_env sample_curve chain_env run_config (the (run_key [])) None None None None"
  have "seq_pubkey ?env = sequencer chain_genesis"
    by (simp add: run_env_def run_key_def chain_genesis_def sample_genesis_def)
  then obtain n where "node_new ?env store_open chain_genesis 0 = Inr n" by (rule node_new_fresh)
  moreover have "config_validate run_config = Inr ()"
    by (simp add: config_validate_def run_config_def default_l1_section_def)
  moreover have "genesis_validate chain_genesis = Inr ()"
    by (simp add: genesis_validate_def chain_genesis_def sample_genesis_def total_supply_def checked_add_def)
  ultimately show ?thesis
    using that
    by (simp add: start_node_def run_key_def faucet_of_def gas_mint_of_def run_config_def default_l1_section_def Let_def)
qed

lemma sample_unreceipted:
  assumes "node_new chain_env store_open chain_genesis 0 = Inr n"
  shows "get_account (nd_store n) (deposit_receipt_address pad_hash (l1_signature run_deposit)) = None"
proof -
  define r where "r = deposit_receipt_address pad_hash (l1_signature run_deposit)"
  have "r \<noteq> [1]" "r \<noteq> POOL_STATE_ADDRESS" unfolding r_def by code_simp+
  then show ?thesis
    using assms unfolding r_def [symmetric]
    by (auto simp: node_new_def chain_env_simps initialize_genesis_def store_open_def restore_tip_def
        rebuild_withdrawals_def Let_def set_withdrawals_root_def get_account_def genesis_writes_def write_account_def
        chain_genesis_def sample_genesis_def genesis_pool_account_def pool_service_for_def pool_config_new_def)
qed

lemma sample_deposit_run:
  assumes "chain_ok chain_env chain_genesis n" and "tip_slot n \<noteq> - 1"
  obtains w n' where "staged_writes chain_env now n [] = Some w"
    and "RBT.lookup w (deposit_receipt_address pad_hash (l1_signature run_deposit)) \<noteq> Some None"
    and "finish_block chain_env now n [] [run_deposit] = Some (n', Inr (Some (tip_slot n + 1)))"
proof -
  let ?input = "\<lparr> in_slot = tip_slot n + 1, in_timestamp_ms = now, parent_blockhash = tip_blockhash n,
    in_transactions = [], in_queue = tip_queue n \<rparr>"
  obtain out where out: "execute_block sample_svm (nd_collector n) (nd_store n) ?input = Inr out"
    by (auto simp: execute_block_def Let_def case_prod_unfold)
  let ?w = "fold (\<lambda>(k, a). RBT.insert k a) (out_writes out) RBT.empty"
  have staged: "staged_writes chain_env now n [] = Some ?w"
    using out by (simp add: staged_writes_def pool_stage_def chain_env_simps)
  have "deposit_receipt_address pad_hash (l1_signature run_deposit) \<noteq> clock_id sample_svm" by code_simp
  then have fresh: "RBT.lookup ?w (deposit_receipt_address pad_hash (l1_signature run_deposit)) = None"
    using execute_block_idle(2) [OF out] by blast
  have "credits_native_gas (bridge_of chain_env n) run_deposit"
    by (simp add: credits_native_gas_def run_deposit_def bridge_of_def chain_env_simps node_options_default_def)
  then obtain w2 c where "apply_deposits (bridge_of chain_env n) (nd_store n) [run_deposit] ?w = Some (w2, c)"
    by (cases "already_credited (bridge_of chain_env n) (nd_store n) ?w run_deposit") (auto simp: credit_deposit_def Let_def)
  then have run: "run_block chain_env now n [] [run_deposit] = Some (Inr (w2, [], [], []))"
    using out execute_block_idle(1) [OF out]
    by (simp add: run_block_def pool_stage_def chain_env_simps del: apply_deposits.simps)
  obtain n' where "commit_content chain_env now n (w2, [], [], []) = Inr n'"
    by (rule commit_content_succeeds [OF assms]) auto
  with staged fresh run show ?thesis by (intro that [of ?w n']) (simp_all add: finish_block_def)
qed


section \<open>Properties\<close>



text \<open>
  C6: The process may stop and start at any point: whatever ticks, calls, watcher rounds and steps of the
  shutdown the process goes through after a first start, its node stays one that the serial
  operations reach, from the request to stop on both health endpoints refuse, once the production loop
  has ended nothing changes the chain any more, and a start with the same configuration on the store
  left behind succeeds with the same store, tip and withdrawal tree.
\<close>

theorem process_stops_and_restarts:
  assumes "start_node cod cv load_key env cfg g tf uf store_open now = Inr (env', n0)"
    and "process_run env' cod cfg es \<lparr> pr_phase = Running, pr_node = n0 \<rparr> = Some p"
  shows "node_serial env' g (pr_node p)
    \<and> (pr_phase p \<noteq> Running \<longrightarrow> fst (http_answer env' t (pr_node p) m ''/health'') = 503
        \<and> (\<exists>e. rpc_call env' cod on t (pr_node p) ''getHealth'' None = Some (pr_node p, Inl e)))
    \<and> (pr_phase p \<in> {LoopStopped, Exited} \<longrightarrow> process_run env' cod cfg es' p = Some p'
        \<longrightarrow> nd_store (pr_node p') = nd_store (pr_node p))
    \<and> (\<exists>n'. start_node cod cv load_key env cfg g tf uf (nd_store (pr_node p)) now' = Inr (env', n')
        \<and> nd_store n' = nd_store (pr_node p) \<and> tip_slot n' = tip_slot (pr_node p)
        \<and> tip_blockhash n' = tip_blockhash (pr_node p) \<and> withdrawals n' = withdrawals (pr_node p))"
proof -
  obtain seqk faucet gm where env': "env' = run_env cv env cfg seqk tf uf faucet gm" and n0: "node_new env' store_open g now = Inr n0"
    and start: "\<forall>s' now'. start_node cod cv load_key env cfg g tf uf s' now'
      = (case node_new env' s' g now' of Inl e \<Rightarrow> Inl (NodeFailed e) | Inr n' \<Rightarrow> Inr (env', n'))"
    using assms(1) by (rule start_node_cases)
  have ser: "node_serial env' g (pr_node p)"
    using process_run_node(1) [OF assms(2)] node_serial.serial_started [OF n0] by simp
  have "opt_max_block_transactions (options env') \<le> 2 ^ 32"
    by (simp add: env' run_env_def run_options_def node_options_default_def)
  from restart_recovers [OF ser this, of now'] have "\<exists>n'. start_node cod cv load_key env cfg g tf uf (nd_store (pr_node p)) now' = Inr (env', n')
        \<and> nd_store n' = nd_store (pr_node p) \<and> tip_slot n' = tip_slot (pr_node p)
        \<and> tip_blockhash n' = tip_blockhash (pr_node p) \<and> withdrawals n' = withdrawals (pr_node p)"
    using start by force
  moreover have "draining (pr_node p)" if "pr_phase p \<noteq> Running"
    using process_run_node(2) [OF assms(2)] that by simp
  then have "fst (http_answer env' t (pr_node p) m ''/health'') = 503
      \<and> (\<exists>e. rpc_call env' cod on t (pr_node p) ''getHealth'' None = Some (pr_node p, Inl e))" if "pr_phase p \<noteq> Running"
    using that by (simp add: http_answer_def is_healthy_def rpc_call_def build_module_def reading_def get_health_def)
  moreover have "nd_store (pr_node p') = nd_store (pr_node p)"
    if "pr_phase p \<in> {LoopStopped, Exited}" "process_run env' cod cfg es' p = Some p'"
    using process_run_node(3) [OF that(2,1)] by (simp add: core_def)
  ultimately show ?thesis using ser by blast
qed

theorem process_stops_and_restarts_witness:
  "\<exists>env' n0 p n'. start_node sample_codec sample_curve run_key chain_env run_config chain_genesis None None store_open 0 = Inr (env', n0)
    \<and> process_run env' sample_codec run_config [Call 1 ''getSlot'' None, StopSignal, LoopExit, ServersStopped]
        \<lparr> pr_phase = Running, pr_node = n0 \<rparr> = Some p
    \<and> pr_phase p = Exited \<and> fst (http_answer env' 2 (pr_node p) metrics_new ''/health'') = 503
    \<and> start_node sample_codec sample_curve run_key chain_env run_config chain_genesis None None (nd_store (pr_node p)) 3 = Inr (env', n')"
proof -
  obtain env' n0 where start: "start_node sample_codec sample_curve run_key chain_env run_config chain_genesis None None store_open 0
    = Inr (env', n0)" by (rule sample_run_starts)
  obtain p where p: "process_run env' sample_codec run_config [Call 1 ''getSlot'' None, StopSignal, LoopExit, ServersStopped]
        \<lparr> pr_phase = Running, pr_node = n0 \<rparr> = Some p" "pr_phase p = Exited" by simp
  have "pr_phase p \<noteq> Running" by (simp add: p(2))
  then show ?thesis
    using process_stops_and_restarts [OF start p(1), of 2 metrics_new True "[]" p 3] start p by blast
qed

text \<open>
  C12: The settlement driver resumes where L1 says and catches up: after any run of the batcher, restarts
  included, a driver that starts against an endpoint serving the settlement accounts builds its batcher
  with the next free batch number at the slot after the last settled one, and, with a funded
  authority, its rounds bring the cursor past the chain's latest slot, without counting a failure and in
  at most as many rounds as there are slots to settle.
\<close>

theorem driver_resumes:
  fixes latest :: u64
  assumes "settles b3 cod auth ty bt w ps" and "records_served rpc cl w" and "ensure_initialized rpc cl = Inr ()"
    and "poster_ready auth bt w" and "rd_tip_ok rd" and "meta_latest_slot s = Some latest" and "latest \<noteq> - 1"
    and "resume_slot ps \<le> latest + 1" and "unat latest + unat (batch_interval_slots l1) < 2 ^ 64"
    and "\<forall>b. rd_balance rd = Inr b \<longrightarrow> MIN_AUTHORITY_LAMPORTS \<le> b" and "codec_fits cod s"
    and "unat (next_batch_no bt) + (Suc (unat latest) - unat (resume_slot ps)) < 2 ^ 64"
  shows "\<exists>bt' m'. driver_init (build_batcher rpc cl (ledger_ops deps auth now) w) posted m = (Some bt', m')
    \<and> cursor_slot bt' = resume_slot ps \<and> next_batch_no bt' = next_batch_no bt
    \<and> (\<exists>k\<le>Suc (unat latest) - unat (resume_slot ps). \<exists>bt'' w'' m''.
        ((fst \<circ> driver_iteration b3 cod (ledger_ops deps auth now) l1 rd s) ^^ k) ((bt', w), m') = ((bt'', w''), m'')
        \<and> cursor_slot bt'' = latest + 1 \<and> mt_post_failures m'' = mt_post_failures m)"
proof -
  let ?bt = "\<lparr> cursor_slot = resume_slot ps, next_batch_no = next_batch_no bt \<rparr>"
  obtain m' where init: "driver_init (build_batcher rpc cl (ledger_ops deps auth now) w) posted m = (Some ?bt, m')"
    and m': "mt_post_failures m' = mt_post_failures m"
    using resumed_batcher [OF settles_flow [OF assms(1)] assms(2,3)]
    by (auto simp: driver_init_def Let_def split: sum.split option.split)
  have ready: "poster_ready auth ?bt w" using assms(4) by (simp add: poster_ready_def)
  have "\<forall>b. balance_read rd = Some b \<longrightarrow> MIN_AUTHORITY_LAMPORTS \<le> b"
    using assms(10) by (auto simp: balance_read_def split: sum.splits)
  from driver_catches_up [OF ready assms(6) _ assms(7,9) this assms(11), of b3 deps now] assms(8,12)
  obtain k where k: "k \<le> Suc (unat latest) - unat (resume_slot ps)"
    and reach: "cursor_slot (fst (((fst \<circ> driver_round b3 cod (ledger_ops deps auth now) l1 (balance_read rd) s) ^^ k) (?bt, w))) = latest + 1"
    and good: "\<forall>j<k. snd (driver_round b3 cod (ledger_ops deps auth now) l1 (balance_read rd) s
      (((fst \<circ> driver_round b3 cod (ledger_ops deps auth now) l1 (balance_read rd) s) ^^ j) (?bt, w))) \<noteq> Rederive"
    by auto
  from iterations_refine [OF assms(5) good, of m'] k reach init m' show ?thesis
    by (intro exI [of _ ?bt] exI [of _ m']) (metis batcher.select_convs prod.collapse)
qed

theorem driver_resumes_witness:
  "\<exists>bt' m'. driver_init (build_batcher flow_rpc flow_client (ledger_ops (\<lambda>_ _. Inr []) [9] 0) flow_end) (Inr (Some 0)) metrics_new = (Some bt', m')
    \<and> cursor_slot bt' = 2 \<and> next_batch_no bt' = 1
    \<and> (\<exists>k\<le>4. \<exists>bt'' w'' m''. ((fst \<circ> driver_iteration flow_b3 flow_codec (ledger_ops (\<lambda>_ _. Inr []) [9] 0) flow_section
          \<lparr> rd_tip_ok = True, rd_balance = Inr 30000000, rd_rebuilt = Inl BatchCorrupt \<rparr>
          (flow_store\<lparr> meta_latest_slot := Some 5 \<rparr>)) ^^ k) ((bt', flow_end), m') = ((bt'', w''), m'')
        \<and> cursor_slot bt'' = 6 \<and> mt_post_failures m'' = 0)"
proof -
  have "resume_slot [flow_payload] = 2" by (simp add: resume_slot_def flow_payload_def)
  moreover have "records_served flow_rpc flow_client flow_end" using flow_serves by (simp add: endpoint_serves_def)
  moreover have "ensure_initialized flow_rpc flow_client = Inr ()" by (simp add: ensure_initialized_def flow_rpc_def)
  moreover have "poster_ready [9] \<lparr> cursor_slot = 2, next_batch_no = 1 \<rparr> flow_end"
    by (auto simp: poster_ready_def flow_end_def flow_config_def batches_ok_def)
  moreover have "codec_fits flow_codec (flow_store\<lparr> meta_latest_slot := Some 5 \<rparr>)"
    by (simp add: codec_fits_def flow_codec_def flow_chunks)
  ultimately show ?thesis
    using driver_resumes [OF flow_settles, of flow_rpc flow_client
        "\<lparr> rd_tip_ok = True, rd_balance = Inr 30000000, rd_rebuilt = Inl BatchCorrupt \<rparr>"
        "flow_store\<lparr> meta_latest_slot := Some 5 \<rparr>" 5 flow_section "\<lambda>_ _. Inr []" 0 "Inr (Some 0)" metrics_new]
    by (simp add: flow_section_def MIN_AUTHORITY_LAMPORTS_def metrics_new_def del: funpow.simps comp_apply)
qed

end
