(* ===== verification/Tools.thy ===== *)
theory Tools
  imports Node_Process
begin

text \<open>
  The three command line tools of \<^verbatim>\<open>zul-node/src/bin\<close>: \<^verbatim>\<open>zul-l1-deposit\<close>, \<^verbatim>\<open>zul-l1-claim\<close> and \<^verbatim>\<open>zul-recover\<close>.
  The arguments are the words after the program's name; reading the configuration, reading a key
  file, the L2 endpoint, the L1 endpoint and the serialisation of blocks are parameters. What the
  tools print is modelled only for recovery. A loop that polls has fuel, and \<open>None\<close> is running out of
  it or a panic.
\<close>

section \<open>Arguments and configuration\<close>

fun arg :: "string \<Rightarrow> string list \<Rightarrow> string option" where
  "arg name [] = None"
| "arg name (a # args) = (if a = name then first args else arg name args)"

definition flag :: "string \<Rightarrow> string list \<Rightarrow> bool" where
  "flag name args \<longleftrightarrow> name \<in> set args"

definition TOKEN_PROGRAM :: string where
  "TOKEN_PROGRAM = ''TokenkegQfeZyiNwAJbNbGKPFXCWuBvf9Ss623VQ5DA''"

definition TOKEN_2022_PROGRAM :: string where
  "TOKEN_2022_PROGRAM = ''TokenzQdBNbLqP5VEhdkAS6EPFLC1PHnBqCXEpPxuEb''"

datatype tool_error =
  MissingArg string | BadPubkey | BadNumber | UnreadableConfig | InvalidConfig config_error | NotConfigured
| BadKeyFile | L2Unreachable | L2Error json | NoResult | BadBase58 | BadDigest | NoSiblings
| L1Failed l1_error | RecoveryFailed recover_error

text \<open>The question mark operator.\<close>

definition and_then :: "'e + 'a \<Rightarrow> ('a \<Rightarrow> 'e + 'b) \<Rightarrow> 'e + 'b" where
  "and_then r f = (case r of Inl e \<Rightarrow> Inl e | Inr x \<Rightarrow> f x)"

definition or_else :: "'a option \<Rightarrow> 'e \<Rightarrow> 'e + 'a" where
  "or_else x e = (case x of None \<Rightarrow> Inl e | Some v \<Rightarrow> Inr v)"

definition pubkey_arg :: "rpc_codec \<Rightarrow> string \<Rightarrow> tool_error + pubkey" where
  "pubkey_arg cod s = or_else (pubkey_from_str cod s) BadPubkey"

definition required_arg :: "string \<Rightarrow> string list \<Rightarrow> tool_error + string" where
  "required_arg name args = or_else (arg name args) (MissingArg name)"

definition number_arg :: "string \<Rightarrow> string list \<Rightarrow> tool_error + u64" where
  "number_arg name args = and_then (required_arg name args) (\<lambda>s. or_else (parse_u64 s) BadNumber)"

definition tool_config :: "(string \<Rightarrow> node_config option) \<Rightarrow> string list \<Rightarrow> tool_error + l1_section" where
  "tool_config read_config args =
    (case read_config (case arg ''--config'' args of Some p \<Rightarrow> p | None \<Rightarrow> ''./config/node.toml'') of
       None \<Rightarrow> Inl UnreadableConfig
     | Some cfg \<Rightarrow> (case config_validate cfg of Inl e \<Rightarrow> Inl (InvalidConfig e) | Inr _ \<Rightarrow> Inr (cfg_l1 cfg)))"

text \<open>The programs of the configuration, with the settlement program for a data log that does not parse.\<close>

definition tool_programs :: "rpc_codec \<Rightarrow> l1_section \<Rightarrow> tool_error + (pubkey \<times> pubkey)" where
  "tool_programs cod l1 = or_else (bridge_spawn cod l1) BadPubkey"

definition tool_client ::
  "rpc_codec \<Rightarrow> (string \<Rightarrow> keypair option) \<Rightarrow> l1_rpc \<Rightarrow> l1_section \<Rightarrow> tool_error + rpc_client" where
  "tool_client cod load_key rpc l1 =
    and_then (tool_programs cod l1) (\<lambda>(settlement, da_log).
    and_then (or_else (load_key (bridge_authority_key_path l1)) BadKeyFile) (\<lambda>authority.
    Inr (client_new rpc (kp_pubkey authority) settlement da_log)))"

definition token_program_arg :: "rpc_codec \<Rightarrow> string list \<Rightarrow> tool_error + pubkey" where
  "token_program_arg cod args = pubkey_arg cod (if flag ''--token-2022'' args then TOKEN_2022_PROGRAM else TOKEN_PROGRAM)"

definition submit_l1 :: "l1_rpc \<Rightarrow> rpc_client \<Rightarrow> l1_raw_instruction \<Rightarrow> tool_error + bytes" where
  "submit_l1 rpc cl ix = (case send_and_confirm rpc cl ix of Inl e \<Rightarrow> Inl (L1Failed e) | Inr sig \<Rightarrow> Inr sig)"


section \<open>zul-l1-deposit.rs\<close>

definition deposit_main ::
  "rpc_codec \<Rightarrow> (string \<Rightarrow> keypair option) \<Rightarrow> (string \<Rightarrow> node_config option) \<Rightarrow> l1_rpc \<Rightarrow> string list \<Rightarrow> tool_error + bytes" where
  "deposit_main cod load_key read_config rpc args =
    and_then (number_arg ''--amount'' args) (\<lambda>amount.
    and_then (required_arg ''--recipient'' args) (\<lambda>r.
    and_then (pubkey_arg cod r) (\<lambda>recipient.
    and_then (tool_config read_config args) (\<lambda>l1.
    if rpc_url l1 = [] \<or> settlement_program_id l1 = [] then Inl NotConfigured
    else and_then (tool_client cod load_key rpc l1) (\<lambda>cl.
      case arg ''--asset'' args of
        Some mint_str \<Rightarrow>
          and_then (pubkey_arg cod mint_str) (\<lambda>m.
          and_then (token_program_arg cod args) (\<lambda>token_program.
          submit_l1 rpc cl (ix_deposit_spl rpc cl amount m token_program recipient)))
      | None \<Rightarrow> submit_l1 rpc cl (ix_deposit_sol rpc cl amount recipient))))))"


section \<open>zul-l1-claim.rs\<close>

definition b58_32 :: "rpc_codec \<Rightarrow> string \<Rightarrow> tool_error + bytes" where
  "b58_32 cod s =
    (case b58_decode cod s of None \<Rightarrow> Inl BadBase58 | Some v \<Rightarrow> if length v = 32 then Inr v else Inl BadDigest)"

record claim_args =
  ca_recipient :: pubkey
  ca_amount :: u64
  ca_nonce :: u64
  ca_client :: rpc_client
  ca_asset :: "pubkey option"

definition claim_setup ::
  "rpc_codec \<Rightarrow> (string \<Rightarrow> keypair option) \<Rightarrow> (string \<Rightarrow> node_config option) \<Rightarrow> l1_rpc \<Rightarrow> string list
    \<Rightarrow> tool_error + claim_args" where
  "claim_setup cod load_key read_config rpc args =
    and_then (required_arg ''--recipient'' args) (\<lambda>r.
    and_then (pubkey_arg cod r) (\<lambda>recipient.
    and_then (number_arg ''--amount'' args) (\<lambda>amount.
    and_then (number_arg ''--nonce'' args) (\<lambda>nonce.
    and_then (tool_config read_config args) (\<lambda>l1.
    and_then (tool_client cod load_key rpc l1) (\<lambda>cl.
    and_then (case arg ''--asset'' args of None \<Rightarrow> Inr None
        | Some s \<Rightarrow> and_then (pubkey_arg cod s) (\<lambda>m. Inr (Some m))) (\<lambda>asset.
    Inr \<lparr> ca_recipient = recipient, ca_amount = amount, ca_nonce = nonce, ca_client = cl, ca_asset = asset \<rparr>)))))))"

definition claim_params :: "rpc_codec \<Rightarrow> claim_args \<Rightarrow> json" where
  "claim_params cod ca =
    JArr ([JStr (pubkey_to_string cod (ca_recipient ca)), ju64 (ca_amount ca), ju64 (ca_nonce ca)]
      @ (case ca_asset ca of Some m \<Rightarrow> [JStr (pubkey_to_string cod m)] | None \<Rightarrow> []))"

definition rpc_body :: "string \<Rightarrow> json \<Rightarrow> json" where
  "rpc_body name params =
    JObj [(''jsonrpc'', JStr ''2.0''), (''id'', JNum 1), (''method'', JStr name), (''params'', params)]"

definition field_str :: "string \<Rightarrow> json \<Rightarrow> string" where
  "field_str k v = (case Option.bind (jget k v) as_str of Some s \<Rightarrow> s | None \<Rightarrow> [])"

text \<open>The proof in a response. The progress line takes the first eight characters of the root.\<close>

definition read_proof :: "rpc_codec \<Rightarrow> json \<Rightarrow> (tool_error + (h256 \<times> bytes \<times> h256 list)) option" where
  "read_proof cod resp =
    (case jget ''error'' resp of Some err \<Rightarrow> Some (Inl (L2Error err))
     | None \<Rightarrow> (case jget ''result'' resp of None \<Rightarrow> Some (Inl NoResult)
     | Some r \<Rightarrow>
       (case and_then (b58_32 cod (field_str ''stateRoot'' r)) (\<lambda>root.
             and_then (b58_32 cod (field_str ''bitmap'' r)) (\<lambda>bm.
             and_then (or_else (Option.bind (jget ''siblings'' r) as_array) NoSiblings) (\<lambda>xs.
             and_then (try_map (\<lambda>x. b58_32 cod (case as_str x of Some s \<Rightarrow> s | None \<Rightarrow> [])) xs) (\<lambda>sibs.
             Inr (root, bm, sibs))))) of
          Inl e \<Rightarrow> Some (Inl e)
        | Inr p \<Rightarrow>
          (case Option.bind (jget ''stateRoot'' r) as_str of None \<Rightarrow> None
           | Some s \<Rightarrow> if length s < 8 then None else Some (Inr p)))))"

text \<open>The endpoint of the attempt with number \<open>i\<close> is \<open>rpcs i\<close>.\<close>

fun wait_for_batch :: "(nat \<Rightarrow> l1_rpc) \<Rightarrow> rpc_client \<Rightarrow> h256 \<Rightarrow> nat \<Rightarrow> nat \<Rightarrow> (tool_error + u64) option" where
  "wait_for_batch rpcs cl root i 0 = None"
| "wait_for_batch rpcs cl root i (Suc fuel) =
    (case find_batch_for_withdrawals_root (rpcs i) cl root of Inl e \<Rightarrow> Some (Inl (L1Failed e))
     | Inr (Some no) \<Rightarrow> Some (Inr no)
     | Inr None \<Rightarrow> wait_for_batch rpcs cl root (Suc i) fuel)"

record claim_plan =
  plan_batch_no :: u64
  plan_bitmap :: bytes
  plan_siblings :: "h256 list"

definition plan_claim ::
  "rpc_codec \<Rightarrow> (json \<Rightarrow> json option) \<Rightarrow> (nat \<Rightarrow> l1_rpc) \<Rightarrow> nat \<Rightarrow> claim_args \<Rightarrow> (tool_error + claim_plan) option" where
  "plan_claim cod l2 rpcs fuel ca =
    (case l2 (rpc_body ''getWithdrawalProof'' (claim_params cod ca)) of None \<Rightarrow> Some (Inl L2Unreachable)
     | Some resp \<Rightarrow>
       (case read_proof cod resp of None \<Rightarrow> None
        | Some (Inl e) \<Rightarrow> Some (Inl e)
        | Some (Inr (root, bm, sibs)) \<Rightarrow>
          map_option (\<lambda>r. and_then r (\<lambda>no. Inr \<lparr> plan_batch_no = no, plan_bitmap = bm, plan_siblings = sibs \<rparr>))
            (wait_for_batch rpcs (ca_client ca) root 0 fuel)))"

definition send_claim :: "rpc_codec \<Rightarrow> l1_rpc \<Rightarrow> string list \<Rightarrow> claim_args \<Rightarrow> claim_plan \<Rightarrow> tool_error + bytes" where
  "send_claim cod rpc args ca p =
    (case ca_asset ca of
       Some m \<Rightarrow> and_then (token_program_arg cod args) (\<lambda>token_program.
         submit_l1 rpc (ca_client ca) (ix_claim_withdrawal_spl rpc (ca_client ca) (plan_batch_no p) (ca_amount ca) (ca_nonce ca)
           (ca_recipient ca) m token_program (plan_bitmap p) (plan_siblings p)))
     | None \<Rightarrow>
         submit_l1 rpc (ca_client ca) (ix_claim_withdrawal rpc (ca_client ca) (plan_batch_no p) (ca_amount ca) (ca_nonce ca)
           (ca_recipient ca) (plan_bitmap p) (plan_siblings p)))"

definition claim_main ::
  "rpc_codec \<Rightarrow> (string \<Rightarrow> keypair option) \<Rightarrow> (string \<Rightarrow> node_config option) \<Rightarrow> (json \<Rightarrow> json option)
    \<Rightarrow> (nat \<Rightarrow> l1_rpc) \<Rightarrow> l1_rpc \<Rightarrow> nat \<Rightarrow> string list \<Rightarrow> (tool_error + bytes) option" where
  "claim_main cod load_key read_config l2 rpcs rpc fuel args =
    (case claim_setup cod load_key read_config rpc args of Inl e \<Rightarrow> Some (Inl e)
     | Inr ca \<Rightarrow> map_option (\<lambda>r. and_then r (send_claim cod rpc args ca)) (plan_claim cod l2 rpcs fuel ca))"


section \<open>zul-recover.rs\<close>

definition hex_digit :: "nat \<Rightarrow> char" where
  "hex_digit d = char_of (if d < 10 then 48 + d else 87 + d)"

definition hex32 :: "bytes \<Rightarrow> string" where
  "hex32 b = concat (map (\<lambda>x. [hex_digit (unat x div 16), hex_digit (unat x mod 16)]) b)"

definition recovery_report :: "recovery_summary \<Rightarrow> string list" where
  "recovery_report su =
    [''=== L1 recovery verified ==='',
     ''batches      : '' @ decimal (unat (rs_batches su)),
     ''blocks       : '' @ decimal (unat (rs_blocks su)),
     ''transactions : '' @ decimal (unat (rs_transactions su)),
     ''slot range   : '' @ decimal (unat (rs_first_slot su)) @ ''..='' @ decimal (unat (rs_last_slot su)),
     ''state root   : '' @ hex32 (rs_final_state_root su)]"

text \<open>The report and, with \<^verbatim>\<open>--out\<close>, the file's name and content. \<open>throwaway\<close> is the key made for the client.\<close>

definition recover_main ::
  "rpc_codec \<Rightarrow> (string \<Rightarrow> node_config option) \<Rightarrow> pubkey \<Rightarrow> hasher \<Rightarrow> batch_codec \<Rightarrow> (block list \<Rightarrow> bytes) \<Rightarrow> l1_rpc \<Rightarrow> nat
    \<Rightarrow> string list \<Rightarrow> (tool_error + (string list \<times> (string \<times> bytes) option)) option" where
  "recover_main cod read_config throwaway b3 bcod ser_blocks rpc fuel args =
    (case tool_config read_config args of Inl e \<Rightarrow> Some (Inl e)
     | Inr l1 \<Rightarrow>
       if rpc_url l1 = [] \<or> settlement_program_id l1 = [] \<or> da_log_program_id l1 = [] then Some (Inl NotConfigured)
       else (case and_then (pubkey_arg cod (settlement_program_id l1)) (\<lambda>settlement.
             and_then (pubkey_arg cod (da_log_program_id l1)) (\<lambda>da_log. Inr (client_new rpc throwaway settlement da_log))) of
           Inl e \<Rightarrow> Some (Inl e)
         | Inr cl \<Rightarrow>
           (case fetch_settlement_batches b3 bcod rpc cl fuel of None \<Rightarrow> None
            | Some (Inl e) \<Rightarrow> Some (Inl (L1Failed e))
            | Some (Inr rbs) \<Rightarrow>
              (case verify_batches rbs of Inl e \<Rightarrow> Some (Inl (RecoveryFailed e))
               | Inr su \<Rightarrow>
                 Some (Inr (recovery_report su,
                   map_option (\<lambda>out. (out, ser_blocks (concat (map (bp_blocks \<circ> rb_payload) rbs)))) (arg ''--out'' args)))))))"


section \<open>Lemmas: the proof a node serves\<close>

lemma and_then_Inr [simp]: "and_then (Inr x) f = f x" "and_then (Inl e) f = Inl e"
  by (simp_all add: and_then_def)

lemma or_else_simps [simp]: "or_else (Some x) e = Inr x" "or_else None e = Inl e"
  by (simp_all add: or_else_def)

lemma smt_hash_lengths:
  assumes "digest32 b3"
  shows "length (smt_node_hash b3 l r) = 32" "length (smt_leaf_hash b3 pk ah) = 32"
  using assms by (simp_all add: digest32_def smt_node_hash_def smt_leaf_hash_def blake3_concat_def)

lemma withdraw_apply_lengths:
  assumes "digest32 b3" and "\<forall>h\<in>ran t. length h = 32"
  shows "\<forall>h\<in>ran (withdraw_apply b3 t pk ah). length h = 32"
proof -
  have upd: "\<forall>h\<in>ran (t(k \<mapsto> x)). length h = 32" if "\<forall>h\<in>ran t. length h = 32" "length x = 32" for t k and x :: h256
    using that by (auto simp: ran_def)
  have "\<forall>h\<in>ran (withdraw_apply_loop b3 path i cur t'). length h = 32" if "\<forall>h\<in>ran t'. length h = 32" for path i cur t'
    using that
  proof (induction i arbitrary: cur t')
    case (Suc i)
    show ?case
      unfolding withdraw_apply_loop.simps Let_def
      by (rule Suc.IH, rule upd, rule Suc.prems) (simp add: smt_hash_lengths [OF assms(1)])
  qed simp
  then show ?thesis
    unfolding withdraw_apply_def Let_def using upd [OF assms(2) smt_hash_lengths(2) [OF assms(1)]] by blast
qed

lemma withdraw_tree_lengths:
  assumes "digest32 b3"
  shows "\<forall>h\<in>ran (withdraw_tree b3 ws). length h = 32"
proof -
  have "\<forall>h\<in>ran (fold (\<lambda>(pk, ah) t. withdraw_apply b3 t pk ah) ws t). length h = 32" if "\<forall>h\<in>ran t. length h = 32" for t
    using that
  proof (induction ws arbitrary: t)
    case (Cons x ws)
    obtain pk ah where "x = (pk, ah)" by (cases x)
    with Cons.IH [OF withdraw_apply_lengths [OF assms Cons.prems, of pk ah]] show ?case by simp
  qed simp
  from this [of Map.empty] show ?thesis by (simp add: withdraw_tree_def)
qed

lemma withdraw_empties_lengths:
  assumes "digest32 b3" and "d \<le> WITHDRAW_DEPTH"
  shows "length (withdraw_empties b3 ! d) = 32"
proof -
  have "\<forall>x\<in>set (withdraw_empties b3). length x = 32"
    unfolding withdraw_empties_def using assms(1)
    by (intro fill_empties_lengths) (simp_all add: smt_hash_lengths digest32_def blake3_32_def blake3_concat_def)
  moreover have "length (withdraw_empties b3) = Suc WITHDRAW_DEPTH" by (simp add: withdraw_empties_def length_fill_empties)
  ultimately show ?thesis using assms(2) by simp
qed

lemma withdraw_prove_lengths:
  assumes "digest32 b3" and "\<forall>h\<in>ran t. length h = 32"
  shows "length (bitmap (withdraw_prove b3 t pk)) = 32" and "\<forall>x\<in>set (siblings (withdraw_prove b3 t pk)). length x = 32"
    and "length (withdraw_root b3 t) = 32"
proof -
  have sib: "length (case t k of Some h \<Rightarrow> h | None \<Rightarrow> withdraw_empties b3 ! d) = 32" if "d \<le> WITHDRAW_DEPTH" for k d
    using assms withdraw_empties_lengths [OF assms(1) that] by (auto simp: ran_def split: option.split)
  have "k \<le> WITHDRAW_DEPTH \<Longrightarrow> \<forall>x\<in>set sibs. length x = 32 \<Longrightarrow>
      length (fst (withdraw_prove_loop b3 t path k bm sibs)) = length bm
      \<and> (\<forall>x\<in>set (snd (withdraw_prove_loop b3 t path k bm sibs)). length x = 32)" for path k bm sibs
  proof (induction k arbitrary: bm sibs)
    case (Suc k)
    let ?s = "case t (node_key (Suc k) (withdraw_flip_bit path k)) of Some h \<Rightarrow> h | None \<Rightarrow> withdraw_empties b3 ! Suc k"
    have "\<forall>x\<in>set (sibs @ [?s]). length x = 32" using Suc.prems sib [of "Suc k"] by simp
    with Suc show ?case by (simp add: Let_def del: set_append)
  qed simp
  from this [of WITHDRAW_DEPTH "[]" "key_path b3 pk" "replicate 32 0"]
  show "length (bitmap (withdraw_prove b3 t pk)) = 32" "\<forall>x\<in>set (siblings (withdraw_prove b3 t pk)). length x = 32"
    by (simp_all add: withdraw_prove_def Let_def)
  show "length (withdraw_root b3 t) = 32" using sib [of 0] by (simp add: withdraw_root_def)
qed

text \<open>An L2 endpoint that answers in the form of JSON-RPC 2.0 what the given call returns.\<close>

definition l2_serves :: "(json \<Rightarrow> json option) \<Rightarrow> (string \<Rightarrow> json \<Rightarrow> response option) \<Rightarrow> bool" where
  "l2_serves l2 call \<longleftrightarrow> (\<forall>name ps v. call name ps = Some (Inr v) \<longrightarrow>
    l2 (rpc_body name ps) = Some (JObj [(''jsonrpc'', JStr ''2.0''), (''id'', JNum 1), (''result'', v)]))"

text \<open>Base58 text of a digest has at least eight characters.\<close>

definition digest_text_ok :: "rpc_codec \<Rightarrow> bool" where
  "digest_text_ok cod \<longleftrightarrow> (\<forall>bs. length bs = 32 \<longrightarrow> 8 \<le> length (b58_encode cod bs))"

lemma b58_32_encode: "codec_ok cod \<Longrightarrow> length bs = 32 \<Longrightarrow> b58_32 cod (b58_encode cod bs) = Inr bs"
  by (simp add: b58_32_def codec_ok_def)

lemma read_siblings:
  assumes "codec_ok cod" and "\<forall>x\<in>set sibs. length x = 32"
  shows "try_map (\<lambda>x. b58_32 cod (case as_str x of Some s \<Rightarrow> s | None \<Rightarrow> [])) (map (JStr \<circ> b58_encode cod) sibs) = Inr sibs"
  using assms(2) by (induction sibs) (simp_all add: b58_32_encode [OF assms(1)])

lemma read_served_proof:
  assumes "codec_ok cod" and "digest_text_ok cod" and "length root = 32" and "length (bitmap pf) = 32"
    and "\<forall>x\<in>set (siblings pf). length x = 32"
  shows "read_proof cod (JObj [(''jsonrpc'', JStr ''2.0''), (''id'', JNum 1), (''result'', proof_response cod (root, pf))])
    = Some (Inr (root, bitmap pf, siblings pf))"
proof -
  have "\<not> length (b58_encode cod root) < 8" using assms(2,3) by (simp add: digest_text_ok_def not_less)
  then show ?thesis
    using read_siblings [OF assms(1,5)] b58_32_encode [OF assms(1)] assms(3,4)
    by (simp add: read_proof_def proof_response_def field_str_def)
qed

text \<open>The tool's request is understood by the server as the arguments it was made of.\<close>

lemma served_withdrawal_proof:
  assumes "codec_ok cod" and "length (ca_recipient ca) = 32" and "ca_asset ca = None"
    and "compute_withdrawal_proof env n (ca_recipient ca) NATIVE_ASSET_ID (ca_amount ca) (ca_nonce ca) = Inr (root, pf)"
  shows "rpc_call env cod on now n ''getWithdrawalProof'' (Some (claim_params cod ca)) = Some (n, Inr (proof_response cod (root, pf)))"
proof -
  have "as_u64 (ju64 v) = Some v" for v using uint_lt2p [of v] by (simp add: ju64_def)
  then show ?thesis
    using assms
    by (simp add: rpc_call_def build_module_def reading_def get_withdrawal_proof_def with_params_def claim_params_def
        parse_pubkey_def first_def get_at_def json_number_def codec_ok_def rpc_withdrawal_proof_def
        NATIVE_ASSET_ID_def)
qed

lemma withdraw_recipient_length:
  assumes "w \<in> set (fst (partition_withdraws txs))"
  shows "length (w_recipient w) = 32"
proof -
  obtain tx where "withdraw_of tx = Some w"
    using assms by (auto simp: partition_withdraws_eq List.map_filter_def)
  then show ?thesis
    by (auto simp: withdraw_of_def parse_withdraw_def bind_eq_Some_conv get_range_def split: list.splits if_splits)
qed

lemma served_proof_lengths:
  assumes "node_serial env g n" and "opt_max_block_transactions (options env) \<le> 2 ^ 32" and "digest32 (nd_b3 env)"
    and "compute_withdrawal_proof env n recipient asset_id amount nonce = Inr (root, pf)"
  shows "length root = 32" "length (bitmap pf) = 32" "\<forall>x\<in>set (siblings pf). length x = 32"
proof -
  have "withdrawals n = withdraw_tree (nd_b3 env) (committed_leaves (nd_b3 env) (nd_store n))"
    using node_serial_ok [OF assms(1,2)] by (simp add: serial_ok_def tree_ok_def)
  then have "\<forall>h\<in>ran (withdrawals n). length h = 32" using withdraw_tree_lengths [OF assms(3)] by simp
  from withdraw_prove_lengths [OF assms(3) this] assms(4)
  show "length root = 32" "length (bitmap pf) = 32" "\<forall>x\<in>set (siblings pf). length x = 32"
    by (auto simp: compute_withdrawal_proof_def Let_def split: if_splits)
qed


section \<open>Lemmas: waiting for a batch\<close>

lemma find_batch_below_found:
  assumes "\<forall>k<n. fetch_batch_record rpc cl (of_nat k) = Inr (rs ! k)"
  shows "if \<exists>k<n. br_withdrawals_root (rs ! k) = root
    then \<exists>k<n. find_batch_below rpc cl root n = Inr (Some (of_nat k)) \<and> br_withdrawals_root (rs ! k) = root
    else find_batch_below rpc cl root n = Inr None"
  using assms
proof (induction n)
  case (Suc n)
  then show ?case by (auto simp: less_Suc_eq split: if_splits)
qed simp

lemma ledger_records_map:
  assumes "batches_ok (lg_settlement w)" and "st_config (lg_settlement w) = Some c"
  shows "ledger_records w = map (\<lambda>j. record_of (the (st_batches (lg_settlement w) (of_nat j)))) [0..<unat (batch_count c)]"
proof -
  have "\<exists>b. st_batches (lg_settlement w) (of_nat j) = Some b" if "j < unat (batch_count c)" for j
    using assms that unat_of_nat_below [OF that] by (auto simp: batches_ok_def word_less_nat_alt)
  then have "\<forall>j\<in>set [0..<unat (batch_count c)]. map_option record_of (st_batches (lg_settlement w) (of_nat j))
      = Some (record_of (the (st_batches (lg_settlement w) (of_nat j))))" by fastforce
  moreover have "List.map_filter f xs = map g xs" if "\<forall>x\<in>set xs. f x = Some (g x)" for f :: "nat \<Rightarrow> batch_record option" and g xs
    using that by (induction xs) (simp_all add: List.map_filter_simps)
  ultimately show ?thesis using assms(2) by (simp add: ledger_records_def)
qed

lemma served_batch_found:
  assumes "records_served rpc cl w" and "batches_ok (lg_settlement w)"
  shows "if \<exists>k b. st_batches (lg_settlement w) k = Some b \<and> bt_withdrawals_root b = root
    then \<exists>no b. find_batch_for_withdrawals_root rpc cl root = Inr (Some no)
      \<and> st_batches (lg_settlement w) no = Some b \<and> bt_withdrawals_root b = root
    else find_batch_for_withdrawals_root rpc cl root = Inr None"
proof (cases "st_config (lg_settlement w)")
  case None
  then show ?thesis
    using assms
    by (auto simp: batches_ok_def records_served_def ledger_records_def find_batch_for_withdrawals_root_def)
next
  case (Some c)
  let ?s = "lg_settlement w" and ?n = "unat (batch_count c)"
  note recs = ledger_records_map [OF assms(2) Some]
  have find: "find_batch_for_withdrawals_root rpc cl root = find_batch_below rpc cl root ?n"
    using assms(1) by (simp add: records_served_def recs find_batch_for_withdrawals_root_def)
  have at: "\<exists>b. st_batches ?s (of_nat k) = Some b \<and> br_withdrawals_root (ledger_records w ! k) = bt_withdrawals_root b" if "k < ?n" for k
    using assms(2) that unat_of_nat_below [OF that]
    by (auto simp: recs record_of_def batches_ok_def Some word_less_nat_alt) (metis option.exhaust_sel option.sel)
  have ex: "(\<exists>k b. st_batches ?s k = Some b \<and> bt_withdrawals_root b = root)
      = (\<exists>k<?n. br_withdrawals_root (ledger_records w ! k) = root)"
  proof
    assume "\<exists>k b. st_batches ?s k = Some b \<and> bt_withdrawals_root b = root"
    then obtain k b where kb: "st_batches ?s k = Some b" "bt_withdrawals_root b = root" by blast
    then have "unat k < ?n" using assms(2) Some by (auto simp: batches_ok_def word_less_nat_alt)
    with at [OF this] kb show "\<exists>k<?n. br_withdrawals_root (ledger_records w ! k) = root" by auto
  qed (use at in metis)
  have "\<forall>k<?n. fetch_batch_record rpc cl (of_nat k) = Inr (ledger_records w ! k)"
    using assms(1) by (simp add: records_served_def recs)
  from find_batch_below_found [OF this, of root] show ?thesis
    unfolding find ex using at by (metis (full_types))
qed

lemma wait_for_batch_ends:
  assumes "\<forall>j<k. find_batch_for_withdrawals_root (rpcs (i + j)) cl root = Inr None"
    and "find_batch_for_withdrawals_root (rpcs (i + k)) cl root = Inr (Some no)" and "k < fuel"
  shows "wait_for_batch rpcs cl root i fuel = Some (Inr no)"
  using assms
proof (induction k arbitrary: i fuel)
  case 0
  then show ?case by (cases fuel) simp_all
next
  case (Suc k)
  then obtain f where f: "fuel = Suc f" "k < f" by (cases fuel) auto
  have "\<forall>j<k. find_batch_for_withdrawals_root (rpcs (Suc i + j)) cl root = Inr None"
    using Suc.prems(1) by (metis Suc_less_eq add_Suc_shift)
  from Suc.IH [OF this _ f(2)] Suc.prems show ?case by (auto simp: f(1))
qed

lemma settled_batch_awaited:
  assumes "\<forall>j\<le>k. records_served (rpcs j) cl (ws j) \<and> batches_ok (lg_settlement (ws j))"
    and "\<exists>no bat. st_batches (lg_settlement (ws k)) no = Some bat \<and> bt_withdrawals_root bat = root" and "k < fuel"
  shows "\<exists>j\<le>k. \<exists>no bat. wait_for_batch rpcs cl root 0 fuel = Some (Inr no)
    \<and> st_batches (lg_settlement (ws j)) no = Some bat \<and> bt_withdrawals_root bat = root"
proof -
  let ?settled = "\<lambda>j. \<exists>no bat. st_batches (lg_settlement (ws j)) no = Some bat \<and> bt_withdrawals_root bat = root"
  define j where "j = (LEAST j. ?settled j)"
  have j: "?settled j" "j \<le> k" "\<And>i. i < j \<Longrightarrow> \<not> ?settled i"
    unfolding j_def using LeastI [of ?settled, OF assms(2)] Least_le [of ?settled, OF assms(2)] not_less_Least [of _ ?settled] by blast+
  have find: "if ?settled i
    then \<exists>no b. find_batch_for_withdrawals_root (rpcs i) cl root = Inr (Some no)
      \<and> st_batches (lg_settlement (ws i)) no = Some b \<and> bt_withdrawals_root b = root
    else find_batch_for_withdrawals_root (rpcs i) cl root = Inr None" if "i \<le> k" for i
    using assms(1) that by (intro served_batch_found) simp_all
  obtain no bat where "find_batch_for_withdrawals_root (rpcs j) cl root = Inr (Some no)"
    "st_batches (lg_settlement (ws j)) no = Some bat" "bt_withdrawals_root bat = root"
    using find [OF j(2)] j(1) by (metis (full_types))
  moreover have "\<forall>i<j. find_batch_for_withdrawals_root (rpcs i) cl root = Inr None"
    using find j(2,3) by (metis (full_types) le_trans less_imp_le)
  ultimately show ?thesis
    using wait_for_batch_ends [of j rpcs 0 cl root no fuel] j(2) assms(3) by auto
qed

text \<open>A root that no batch carries is waited for without end.\<close>

lemma wait_for_batch_forever:
  "\<forall>j. find_batch_for_withdrawals_root (rpcs j) cl root = Inr None \<Longrightarrow> wait_for_batch rpcs cl root i fuel = None"
  by (induction fuel arbitrary: i) simp_all


section \<open>Lemmas: recovery\<close>

lemma fetch_batches_ends:
  assumes "serves_history rpc cl hist" and "length hist < 1000 * fuel"
  shows "fetch_settlement_batches b3 bcod rpc cl fuel \<noteq> None"
  using chunk_pages_complete [OF assms(1), of None 0 fuel "\<lambda>_. []"] assms(2)
  by (auto simp: fetch_settlement_batches_def fetch_all_da_chunks_def after_sig_def split: sum.splits)

text \<open>A configuration for the tools, with the programs of the sample ledger.\<close>

definition tool_cfg :: "string \<Rightarrow> node_config option" where
  "tool_cfg path = Some (run_config\<lparr> cfg_l1 := default_l1_section\<lparr> rpc_url := ''l1'', settlement_program_id := sample_text [2],
    da_log_program_id := sample_text [3] \<rparr> \<rparr>)"

lemma tool_cfg_l1:
  "tool_config tool_cfg args = Inr (default_l1_section\<lparr> rpc_url := ''l1'', settlement_program_id := sample_text [2],
    da_log_program_id := sample_text [3] \<rparr>)"
  by (simp add: tool_config_def tool_cfg_def config_validate_def run_config_def default_l1_section_def)


section \<open>Properties\<close>

text \<open>
  C21: Recovery ends: against an endpoint that serves a finite history of the data log and its transactions,
  whatever else it answers, the recovery tool returns, with a result or an error, within as many
  pages as the history has, whatever its arguments and configuration.
\<close>

theorem recover_tool_ends:
  assumes "\<forall>st da. serves_history rpc (client_new rpc throwaway st da) (hist da)" and "\<forall>da. length (hist da) < 1000 * fuel"
  shows "\<exists>r. recover_main cod read_config throwaway b3 bcod ser_blocks rpc fuel args = Some r"
proof -
  have ends: "fetch_settlement_batches b3 bcod rpc (client_new rpc throwaway st da) fuel \<noteq> None" for st da
    using assms by (intro fetch_batches_ends [where hist = "hist da"]) simp_all
  have "recover_main cod read_config throwaway b3 bcod ser_blocks rpc fuel args \<noteq> None"
    unfolding recover_main_def and_then_def or_else_def pubkey_arg_def using ends
    by (simp del: not_None_eq split: sum.split option.split)
  then show ?thesis by simp
qed

theorem recover_tool_ends_witness:
  "\<exists>r. recover_main sample_codec tool_cfg [9] flow_b3 flow_codec (\<lambda>bs. [of_nat (length bs)]) flow_rpc 1 [''--out'', ''f''] = Some r"
  by (rule recover_tool_ends [where hist = "\<lambda>_. flow_history"])
    (simp_all add: serves_history_def flow_history_def flow_rpc_def client_new_def)



end
