(* ===== verification/Spec2Isabelle.thy ===== *)
theory Spec2Isabelle
  imports Rpc_History Tools
begin

text \<open>
  Verification development for the Zul rollup, a privacy layer-2 chain that settles on Solana. The
  code is Rust: the chain under \<^verbatim>\<open>src/chain\<close> and the two programs on L1 under \<^verbatim>\<open>src/programs\<close>.

  \<^bold>\<open>The program.\<close> A sequencer node takes transactions from an RPC server into a mempool, executes a
  block of them, applies the pool's private transfers, the deposits seen on L1 and the withdrawals,
  and commits the block with a new state root to its store. A settlement thread compresses the
  blocks, publishes them in chunks on a data log on L1 and records each batch with a settlement
  program, which holds the deposits and pays withdrawals out against a Merkle proof. A chain can be
  recovered from what is on L1.

  \<^bold>\<open>Theories, in the order they build on each other.\<close>
  \<^item> \<^verbatim>\<open>Zul_Prelude\<close>: words, little- and big-endian bytes, checked arithmetic, ranges of byte lists,
    and the fact collections the other theories use.
  \<^item> \<^verbatim>\<open>Sparse_Merkle\<close>: complete binary trees over paths, the specification of both trees below.
  \<^item> \<^verbatim>\<open>Hashing\<close>, \<^verbatim>\<open>Block\<close>, \<^verbatim>\<open>Genesis\<close>, \<^verbatim>\<open>Blockhash_Queue\<close>: \<^verbatim>\<open>zul-primitives\<close> (hashes, Merkle root, blocks,
    genesis, configuration) and the queue of recent blockhashes. Headers bind bodies, the genesis hash
    identifies its configuration, validation accepts exactly the well-formed configurations, and the
    queue is a window over the registered hashes that survives persisting.
  \<^item> \<^verbatim>\<open>State_Smt\<close>, \<^verbatim>\<open>Store\<close>: \<^verbatim>\<open>smt.rs\<close> and \<^verbatim>\<open>store.rs\<close> of \<^verbatim>\<open>zul-store\<close>. Updates refine the complete tree of depth
    256, accepted proofs state what the tree holds, and in a reachable store every served proof
    verifies and every lookup succeeds.
  \<^item> \<^verbatim>\<open>Withdraw_Smt\<close>: the node's tree of depth 32 and the verifier of the settlement program.
  \<^item> \<^verbatim>\<open>Mempool\<close>: the pool of pending transactions is a bounded FIFO queue.
  \<^item> \<^verbatim>\<open>Wrapped_Spl\<close>, \<^verbatim>\<open>Bridge\<close>: token layouts, deposits and withdrawals of \<^verbatim>\<open>node.rs\<close>. Deposits are credited
    once and exactly, withdrawals burn exactly what they commit.
  \<^item> \<^verbatim>\<open>Pool_State\<close>, \<^verbatim>\<open>Pool_Processor\<close>, \<^verbatim>\<open>Pool_Service\<close>: \<^verbatim>\<open>zul-privacy\<close>. The incremental commitment tree computes
    the reference root, nullifiers are spent once, lamports are conserved.
  \<^item> \<^verbatim>\<open>Executor\<close>: block execution around the virtual machine; no transaction is replayed.
  \<^item> \<^verbatim>\<open>Node\<close>, \<^verbatim>\<open>Chain\<close>, \<^verbatim>\<open>Serial_Chain\<close>: \<^verbatim>\<open>node.rs\<close> as operations on a record, and its runs. \<open>node_reach\<close>
    interleaves requests, block production and restarts; \<open>node_serial\<close> has each production in one
    piece. The blocks form a signed chain, a restart recovers the node, nothing is committed twice.
  \<^item> \<^verbatim>\<open>Settlement\<close>: the programs \<^verbatim>\<open>zul-settlement\<close> and \<^verbatim>\<open>zul-da-log\<close>, with \<open>l1_run\<close> their histories. Batches are
    sequential, no claim is paid twice, the vault's balance is accounted for.
  \<^item> \<^verbatim>\<open>L1_Client\<close>, \<^verbatim>\<open>Batcher\<close>: \<^verbatim>\<open>rpc.rs\<close>, \<^verbatim>\<open>client.rs\<close>, \<^verbatim>\<open>batch.rs\<close>, \<^verbatim>\<open>recover.rs\<close> and \<^verbatim>\<open>deposit.rs\<close> of \<^verbatim>\<open>zul-bridge\<close> and
    the driver \<^verbatim>\<open>l1.rs\<close>. The locale \<open>l1_poster\<close> is what the batcher relies on; it is interpreted on the
    settlement and data log programs.
  \<^item> \<^verbatim>\<open>Settlement_Flow\<close>: batching, L1 and recovery together. What was settled is recovered, the driver
    catches up with the chain, and a chunk posted twice blocks recovery.
  \<^item> \<^verbatim>\<open>Verifier\<close>: \<^verbatim>\<open>verifier.rs\<close> and \<^verbatim>\<open>verifying_keys.rs\<close> of \<^verbatim>\<open>zul-privacy\<close> and the loading of keys in \<^verbatim>\<open>main.rs\<close>. Proofs
    and keys have one accepted encoding, and only verified proofs spend.
  \<^item> \<^verbatim>\<open>Json\<close>, \<^verbatim>\<open>Rpc_Server\<close>, \<^verbatim>\<open>Rpc_History\<close>: JSON values and their shapes, and the methods and
    subscriptions of \<^verbatim>\<open>zul-rpc\<close>. Answers have the shape of their method, calls leave the chain as it
    is, a sent transaction pends, histories page without gap or overlap, and a subscriber is notified
    once. The locale \<open>rpc_backend\<close> is what the server relies on; it is interpreted on the node.
  \<^item> \<^verbatim>\<open>Node_Process\<close>: the start-up, production loop and shutdown of \<^verbatim>\<open>main.rs\<close>, the threads of \<^verbatim>\<open>bridge.rs\<close> and
    \<^verbatim>\<open>l1.rs\<close> and the metrics. \<open>process_run\<close> interleaves their events. A stopped process starts again with the
    same chain, watched deposits are credited, and a new driver resumes where settlement stopped.
  \<^item> \<^verbatim>\<open>Tools\<close>: the binaries \<^verbatim>\<open>zul-l1-deposit\<close>, \<^verbatim>\<open>zul-l1-claim\<close> and \<^verbatim>\<open>zul-recover\<close>. Recovery ends and rebuilds what was
    settled.
  \<^item> This theory: properties across the node and L1. The claim tool pays out a withdrawal, and an
    idle node seals heartbeat blocks.

  \<^bold>\<open>Parameters.\<close> Code outside the repository is an argument: blake3 (\<open>b3\<close>, with \<open>digest32\<close> where its length
  matters), SHA-256, signatures, serialisation and compression, the Solana virtual machine, Poseidon
  in the pool, the curve with its pairing check (\<open>curve\<close>), base58 and base64 with the texts of foreign
  errors (\<open>rpc_codec\<close>), address derivation, the system and token programs, and the JSON-RPC endpoints of
  L1 and of the node. Files and keys are functions from paths. Where a theorem needs more of them it
  says so in a hypothesis, and its witness has an instance. Hash collisions are named: a theorem
  either assumes injectivity on the strings concerned or states which two of them collide.

  \<^bold>\<open>Bounds and fuel.\<close> Integers are words of their width. The paging loop of \<open>fetch_all_da_chunks\<close> has fuel
  for its pages; more than a thousandth of the history's length is enough. The confirmation loop has
  the code's 45 attempts. The claim tool waits without a bound; \<open>wait_for_batch\<close> has fuel for its polls,
  and any fuel past the poll that sees a batch is enough. All other loops are total functions, and the
  loops of the threads are relations over their rounds. Settlement runs assume at most 10,000 stored
  blocks in a batch's range, the limit in \<open>run_once\<close>, past which the code leaves blocks out.

  \<^bold>\<open>Not modelled.\<close> The HTTP and websocket transport, logging and what the tools print are input and
  output; reading key files is a parameter. The interior of the virtual machine and its set-up, the
  pairing check, Poseidon and field arithmetic are cryptographic or third-party code. Threads and
  locks appear only as the interleavings of \<open>node_reach\<close> and \<open>process_run\<close>, and the database as atomic
  updates of a record.
\<close>

section \<open>Across the node and L1\<close>

text \<open>A settlement state with one batch whose withdrawal root is given, and funds in the vault.\<close>

definition funded_batch :: "h256 \<Rightarrow> l1_batch" where
  "funded_batch root = \<lparr> bt_batch_no = 0, bt_first_slot = 1, bt_last_slot = 1, bt_state_root = replicate 32 0,
    bt_withdrawals_root = root, bt_da_hash = replicate 32 0, bt_chunk_count = 1, posted_at = 0 \<rparr>"

definition funded_state :: "h256 \<Rightarrow> settlement" where
  "funded_state root = (deployed (\<lambda>pk. if pk = [20] then 100 else 0) (\<lambda>_. 0))\<lparr> st_config := Some (flow_config\<lparr> batch_count := 1 \<rparr>),
    st_batches := [0 \<mapsto> funded_batch root] \<rparr>"

text \<open>An endpoint for the sample settlement state, and an L2 endpoint for a node.\<close>

definition funded_rpc :: "h256 \<Rightarrow> l1_rpc" where
  "funded_rpc root = flow_rpc\<lparr> rpc_account := (\<lambda>pk. Inr (Some (if pk = ascii ''config'' then replicate 40 0 @ u64_le 1
    else batch_account (replicate 8 0) (funded_batch root)))) \<rparr>"

definition node_l2 :: "node \<Rightarrow> json \<Rightarrow> json option" where
  "node_l2 n body = (case (jget ''method'' body, jget ''params'' body) of
     (Some (JStr name), Some ps) \<Rightarrow>
       (case rpc_call chain_env sample_codec False 0 n name (Some ps) of
          Some (_, Inr v) \<Rightarrow> Some (JObj [(''jsonrpc'', JStr ''2.0''), (''id'', JNum 1), (''result'', v)]) | _ \<Rightarrow> None)
   | _ \<Rightarrow> None)"

definition claim_words :: "string list" where
  "claim_words = [''--recipient'', sample_text (replicate 32 9), ''--amount'', ''30'', ''--nonce'', ''4'']"

lemma claim_withdrawal_pays:
  assumes "st_config s \<noteq> None" and "st_batches s no = Some bat" and "st_claims s (recipient, nonce) = None"
    and "amount \<noteq> 0" and "sys_transfer rt (st_lamports s) (rt_vault rt) recipient amount = Some l"
    and "l1_verify (rt_b3 rt) (rt_empties rt) (bt_withdrawals_root bat) (withdrawal_pubkey (rt_b3 rt) recipient nonce)
      (withdrawal_account_hash (rt_b3 rt) recipient NATIVE_ASSET_ID amount nonce) (to_l1_proof pf)"
  shows "claim_withdrawal rt no recipient amount nonce (bitmap pf) (siblings pf) now s
    = Inr (record_claim recipient amount nonce now (s\<lparr> st_lamports := l \<rparr>))"
  using assms by (simp add: claim_withdrawal_def open_claim_def to_l1_proof_def NATIVE_ASSET_ID_def)

text \<open>
  A native withdrawal committed on L2 is paid out on L1: once a batch with the node's withdrawal root is
  settled, the proof the node serves makes the claim succeed, moves the amount out of the vault and
  marks the withdrawal as claimed, if the vault can pay and no other committed withdrawal shares its
  place in the tree.
\<close>

theorem withdrawal_pays_out:
  assumes "node_serial env g n" and "opt_max_block_transactions (options env) \<le> 2 ^ 32"
    and "digest32 (rt_b3 rt)" and "rt_b3 rt = nd_b3 env" and "l1_empty_hashes (rt_empties rt) = l1_compute_empty_hashes (rt_b3 rt)"
    and "get_block (nd_store n) sl = Some b" and "w \<in> set (fst (partition_withdraws (transactions b)))"
    and "withdraw_succeeded (nd_store n) w" and "w_asset_id w = NATIVE_ASSET_ID" and "w_amount w \<noteq> 0"
    and "\<forall>x\<in>set (committed_leaves (nd_b3 env) (nd_store n)). x \<noteq> withdraw_leaf (nd_b3 env) w
      \<longrightarrow> withdraw_bits (nd_b3 env) (fst x) \<noteq> withdraw_bits (nd_b3 env) (fst (withdraw_leaf (nd_b3 env) w))"
    and "st_config s \<noteq> None" and "st_batches s no = Some bat" and "bt_withdrawals_root bat = withdrawals_root (nd_store n)"
    and "st_claims s (w_recipient w, w_nonce w) = None"
    and "sys_transfer rt (st_lamports s) (rt_vault rt) (w_recipient w) (w_amount w) = Some l"
  shows "\<exists>root pf s'. compute_withdrawal_proof env n (w_recipient w) (w_asset_id w) (w_amount w) (w_nonce w) = Inr (root, pf)
    \<and> claim_withdrawal rt no (w_recipient w) (w_amount w) (w_nonce w) (bitmap pf) (siblings pf) now s = Inr s'
    \<and> root = withdrawals_root (nd_store n) \<and> st_lamports s' = l \<and> st_claims s' (w_recipient w, w_nonce w) \<noteq> None"
proof -
  obtain pk ah where leaf: "withdraw_leaf (nd_b3 env) w = (pk, ah)" by (rule prod.exhaust)
  obtain root pf where pf: "compute_withdrawal_proof env n (w_recipient w) (w_asset_id w) (w_amount w) (w_nonce w) = Inr (root, pf)"
    "root = withdrawals_root (nd_store n)" "l1_verify (nd_b3 env) (rt_empties rt) root pk ah (to_l1_proof pf)"
    using committed_withdrawal_claimable [OF assms(1,2) _ _ assms(6-8) leaf, of "rt_empties rt"] assms(3-5,11) leaf by auto
  have "claim_withdrawal rt no (w_recipient w) (w_amount w) (w_nonce w) (bitmap pf) (siblings pf) now s
      = Inr (record_claim (w_recipient w) (w_amount w) (w_nonce w) now (s\<lparr> st_lamports := l \<rparr>))"
    using claim_withdrawal_pays [OF assms(12,13,15,10,16), of pf now] pf leaf assms(4,9,14) by (simp add: withdraw_leaf_def)
  with pf(1,2) show ?thesis by (simp add: record_claim_def)
qed

lemma chain_withdraw_fields [simp]:
  "w_recipient chain_withdraw = replicate 32 9" "w_asset_id chain_withdraw = NATIVE_ASSET_ID"
  "w_amount chain_withdraw = 30" "w_nonce chain_withdraw = 4"
  by (simp_all add: chain_withdraw_def sample_withdraw_def)

lemma funded_fields:
  "rt_b3 sample_rt = pad_hash" "rt_empties sample_rt = pad_table"
  "st_config (funded_state r) \<noteq> None" "st_batches (funded_state r) 0 = Some (funded_batch r)"
  "bt_withdrawals_root (funded_batch r) = r" "st_claims (funded_state r) k = None"
  "\<exists>l. sys_transfer sample_rt (st_lamports (funded_state r)) (rt_vault sample_rt) (replicate 32 9) 30 = Some l"
proof -
  have "replicate 32 9 \<noteq> [20 :: u8]" by (rule notI, drule arg_cong [of _ _ length]) simp
  then show "\<exists>l. sys_transfer sample_rt (st_lamports (funded_state r)) (rt_vault sample_rt) (replicate 32 9) 30 = Some l"
    by (simp add: sample_rt_def plain_move_def funded_state_def deployed_def)
qed (simp_all add: sample_rt_def funded_state_def funded_batch_def deployed_def)

lemma sample_claimable:
  obtains n b where "node_serial chain_env chain_genesis n" and "get_block (nd_store n) 1 = Some b"
    and "chain_withdraw \<in> set (fst (partition_withdraws (transactions b)))" and "withdraw_succeeded (nd_store n) chain_withdraw"
    and "committed_leaves pad_hash (nd_store n) = [withdraw_leaf pad_hash chain_withdraw]"
    and "length (withdrawals_root (nd_store n)) = 32"
proof -
  obtain n b where n: "node_serial chain_env chain_genesis n" "get_block (nd_store n) 1 = Some b"
    "transactions b = [chain_tx]" "withdraw_succeeded (nd_store n) chain_withdraw"
    "committed_leaves pad_hash (nd_store n) = [withdraw_leaf pad_hash chain_withdraw]"
    by (rule sample_chain)
  have part: "chain_withdraw \<in> set (fst (partition_withdraws (transactions b)))"
    using chain_parse n(3) by (simp add: partition_withdraws_eq List.map_filter_simps)
  obtain l where "sys_transfer sample_rt (st_lamports (funded_state (withdrawals_root (nd_store n)))) (rt_vault sample_rt) (replicate 32 9) 30 = Some l"
    using funded_fields(7) by blast
  then obtain root pf where "compute_withdrawal_proof chain_env n (replicate 32 9) NATIVE_ASSET_ID 30 4 = Inr (root, pf)"
    and root: "root = withdrawals_root (nd_store n)"
    using withdrawal_pays_out [OF n(1) _ _ _ _ n(2) part n(4) _ _ _ funded_fields(3-5), of sample_rt l 0] n(5)
    by (auto simp: chain_env_simps node_options_default_def digest32_pad_hash pad_table_ok funded_fields)
  then have "length (withdrawals_root (nd_store n)) = 32"
    using served_proof_lengths(1) [OF n(1)] by (simp add: chain_env_simps node_options_default_def digest32_pad_hash)
  with n part that show ?thesis by blast
qed

lemma node_l2_serves: "l2_serves (node_l2 n) (\<lambda>name ps. map_option snd (rpc_call chain_env sample_codec False 0 n name (Some ps)))"
  by (auto simp: l2_serves_def node_l2_def rpc_body_def)

lemma funded_serves:
  assumes "length root = 32"
  shows "records_served (funded_rpc root) (client_new (funded_rpc root) auth st da) \<lparr> lg_settlement = funded_state root, lg_da = [] \<rparr>"
    and "batches_ok (funded_state root)"
proof -
  have "ledger_records \<lparr> lg_settlement = funded_state root, lg_da = [] \<rparr> = [record_of (funded_batch root)]"
    by (simp add: ledger_records_def funded_state_def List.map_filter_simps)
  moreover have "parse_batch_record (batch_account (replicate 8 0) (funded_batch root)) = Some (record_of (funded_batch root))"
    using assms by (intro parse_batch_account) (simp_all add: funded_batch_def)
  ultimately show "records_served (funded_rpc root) (client_new (funded_rpc root) auth st da) \<lparr> lg_settlement = funded_state root, lg_da = [] \<rparr>"
    by (simp add: records_served_def config_batch_count_def fetch_batch_record_def funded_rpc_def flow_rpc_def client_new_def
        batch_pda_def CONFIG_SEED_def BATCH_SEED_def ascii_def)
  show "batches_ok (funded_state root)"
    by (auto simp: batches_ok_def funded_state_def funded_batch_def flow_config_def word_less_1)
qed

lemma claim_words_parsed:
  "claim_setup sample_codec run_key tool_cfg rpc claim_words
    = Inr \<lparr> ca_recipient = replicate 32 9, ca_amount = 30, ca_nonce = 4,
        ca_client = client_new rpc (replicate 32 1) [2] [3], ca_asset = None \<rparr>"
proof -
  have "sample_text (replicate 32 9) \<noteq> ''--amount''" "sample_text (replicate 32 9) \<noteq> ''--nonce''"
    "sample_text (replicate 32 9) \<noteq> ''--asset''"
    by (rule notI, drule arg_cong [of _ _ length], simp add: sample_text_def)+
  then have words: "arg ''--recipient'' claim_words = Some (sample_text (replicate 32 9))" "arg ''--amount'' claim_words = Some ''30''"
    "arg ''--nonce'' claim_words = Some ''4''" "arg ''--asset'' claim_words = None"
    by (simp_all add: claim_words_def first_def)
  have "parse_u64 ''30'' = Some 30" "parse_u64 ''4'' = Some 4"
    by (simp_all add: parse_u64_def digit_of_def Let_def)
  moreover have "pubkey_from_str sample_codec (sample_text bs) = Some bs" for bs by (simp add: sample_codec_def)
  ultimately show ?thesis
    by (simp add: claim_setup_def required_arg_def number_arg_def words pubkey_arg_def tool_cfg_l1 tool_client_def
        tool_programs_def bridge_spawn_def run_key_def)
qed

theorem withdrawal_pays_out_witness:
  "\<exists>n root pf s'. compute_withdrawal_proof chain_env n (replicate 32 9) NATIVE_ASSET_ID 30 4 = Inr (root, pf)
    \<and> claim_withdrawal sample_rt 0 (replicate 32 9) 30 4 (bitmap pf) (siblings pf) 0 (funded_state (withdrawals_root (nd_store n))) = Inr s'
    \<and> st_claims s' (replicate 32 9, 4) \<noteq> None"
proof -
  obtain n b where n: "node_serial chain_env chain_genesis n" "get_block (nd_store n) 1 = Some b"
    "chain_withdraw \<in> set (fst (partition_withdraws (transactions b)))" "withdraw_succeeded (nd_store n) chain_withdraw"
    "committed_leaves pad_hash (nd_store n) = [withdraw_leaf pad_hash chain_withdraw]"
    by (rule sample_claimable)
  let ?r = "withdrawals_root (nd_store n)"
  obtain l where "sys_transfer sample_rt (st_lamports (funded_state ?r)) (rt_vault sample_rt) (replicate 32 9) 30 = Some l"
    using funded_fields(7) by blast
  then have "\<exists>root pf s'. compute_withdrawal_proof chain_env n (replicate 32 9) NATIVE_ASSET_ID 30 4 = Inr (root, pf)
      \<and> claim_withdrawal sample_rt 0 (replicate 32 9) 30 4 (bitmap pf) (siblings pf) 0 (funded_state ?r) = Inr s'
      \<and> root = ?r \<and> st_lamports s' = l \<and> st_claims s' (replicate 32 9, 4) \<noteq> None"
    using withdrawal_pays_out [OF n(1) _ _ _ _ n(2-4) _ _ _ funded_fields(3-5), of sample_rt l 0] n(5)
    by (simp add: chain_env_simps node_options_default_def digest32_pad_hash pad_table_ok funded_fields)
  then show ?thesis by blast
qed

text \<open>
  C1: The claim tool gets a withdrawal paid: run for a native withdrawal that is committed on L2, against the
  node's own RPC server and an L1 endpoint that serves the settlement accounts, the tool stops
  waiting once a batch with the node's withdrawal root is settled, and the claim it then sends
  succeeds, moves the amount out of the vault and marks the withdrawal as claimed, if the vault can pay
  and no other committed withdrawal shares its place in the tree.
\<close>

theorem claim_tool_pays:
  assumes "node_serial env g n" and "opt_max_block_transactions (options env) \<le> 2 ^ 32"
    and "digest32 (rt_b3 rt)" and "rt_b3 rt = nd_b3 env" and "l1_empty_hashes (rt_empties rt) = l1_compute_empty_hashes (rt_b3 rt)"
    and "get_block (nd_store n) sl = Some b" and "w \<in> set (fst (partition_withdraws (transactions b)))"
    and "withdraw_succeeded (nd_store n) w" and "w_asset_id w = NATIVE_ASSET_ID" and "w_amount w \<noteq> 0"
    and "\<forall>x\<in>set (committed_leaves (nd_b3 env) (nd_store n)). x \<noteq> withdraw_leaf (nd_b3 env) w
      \<longrightarrow> withdraw_bits (nd_b3 env) (fst x) \<noteq> withdraw_bits (nd_b3 env) (fst (withdraw_leaf (nd_b3 env) w))"
    and codec: "codec_ok cod" "digest_text_ok cod"
    and l2: "l2_serves l2 (\<lambda>name ps. map_option snd (rpc_call env cod on now n name (Some ps)))"
    and given: "claim_setup cod load_key read_config rpc args = Inr ca" "ca_asset ca = None"
      "ca_recipient ca = w_recipient w" "ca_amount ca = w_amount w" "ca_nonce ca = w_nonce w"
    and l1: "\<forall>j\<le>k. records_served (rpcs j) (ca_client ca) (ws j) \<and> batches_ok (lg_settlement (ws j))"
      "\<forall>j\<le>k. \<forall>no bat. st_batches (lg_settlement (ws j)) no = Some bat \<longrightarrow> st_batches s no = Some bat"
      "\<exists>no bat. st_batches (lg_settlement (ws k)) no = Some bat \<and> bt_withdrawals_root bat = withdrawals_root (nd_store n)"
      "k < fuel" "st_config s \<noteq> None" "st_claims s (w_recipient w, w_nonce w) = None"
      "sys_transfer rt (st_lamports s) (rt_vault rt) (w_recipient w) (w_amount w) = Some l"
  shows "\<exists>(p :: claim_plan) s'. claim_main cod load_key read_config l2 rpcs rpc fuel args
      = Some (submit_l1 rpc (ca_client ca) (ix_claim_withdrawal rpc (ca_client ca) (plan_batch_no p) (w_amount w) (w_nonce w)
          (w_recipient w) (plan_bitmap p) (plan_siblings p)))
    \<and> execute_l1 rt t (ClaimWithdrawal (plan_batch_no p) (w_recipient w) (w_amount w) (w_nonce w) (plan_bitmap p) (plan_siblings p)) s
      = Inr s'
    \<and> st_lamports s' = l \<and> st_claims s' (w_recipient w, w_nonce w) \<noteq> None"
proof -
  let ?root = "withdrawals_root (nd_store n)"
  obtain no bat where found: "wait_for_batch rpcs (ca_client ca) ?root 0 fuel = Some (Inr no)"
    and bat: "st_batches s no = Some bat" "bt_withdrawals_root bat = ?root"
    using settled_batch_awaited [OF l1(1,3,4)] l1(2) by blast
  obtain root pf s' where pf: "compute_withdrawal_proof env n (w_recipient w) (w_asset_id w) (w_amount w) (w_nonce w) = Inr (root, pf)"
    and claim: "claim_withdrawal rt no (w_recipient w) (w_amount w) (w_nonce w) (bitmap pf) (siblings pf) t s = Inr s'"
    and root: "root = ?root" and paid: "st_lamports s' = l" "st_claims s' (w_recipient w, w_nonce w) \<noteq> None"
    using withdrawal_pays_out [OF assms(1-11) l1(5) bat l1(6,7), of t] by blast
  have "rpc_call env cod on now n ''getWithdrawalProof'' (Some (claim_params cod ca)) = Some (n, Inr (proof_response cod (root, pf)))"
    using served_withdrawal_proof [OF codec(1), of ca env n root pf on now] withdraw_recipient_length [OF assms(7)] pf given assms(9)
    by simp
  then have "l2 (rpc_body ''getWithdrawalProof'' (claim_params cod ca))
      = Some (JObj [(''jsonrpc'', JStr ''2.0''), (''id'', JNum 1), (''result'', proof_response cod (root, pf))])"
    using l2 by (simp add: l2_serves_def)
  moreover have "read_proof cod (JObj [(''jsonrpc'', JStr ''2.0''), (''id'', JNum 1), (''result'', proof_response cod (root, pf))])
      = Some (Inr (root, bitmap pf, siblings pf))"
    using served_proof_lengths [OF assms(1,2) _ pf] assms(3,4) by (intro read_served_proof [OF codec]) simp_all
  ultimately have "plan_claim cod l2 rpcs fuel ca
      = Some (Inr \<lparr> plan_batch_no = no, plan_bitmap = bitmap pf, plan_siblings = siblings pf \<rparr>)"
    using found by (simp add: plan_claim_def root)
  then show ?thesis
    using given claim paid
    by (intro exI [of _ "\<lparr> plan_batch_no = no, plan_bitmap = bitmap pf, plan_siblings = siblings pf \<rparr>"] exI [of _ s'])
      (simp add: claim_main_def send_claim_def)
qed

theorem claim_tool_pays_witness:
  "\<exists>n (p :: claim_plan) s'. claim_main sample_codec run_key tool_cfg (node_l2 n) (\<lambda>_. funded_rpc (withdrawals_root (nd_store n)))
      (funded_rpc (withdrawals_root (nd_store n))) 1 claim_words
      = Some (submit_l1 (funded_rpc (withdrawals_root (nd_store n))) (client_new (funded_rpc (withdrawals_root (nd_store n))) (replicate 32 1) [2] [3])
          (ix_claim_withdrawal (funded_rpc (withdrawals_root (nd_store n)))
            (client_new (funded_rpc (withdrawals_root (nd_store n))) (replicate 32 1) [2] [3])
            (plan_batch_no p) 30 4 (replicate 32 9) (plan_bitmap p) (plan_siblings p)))
    \<and> execute_l1 sample_rt 0 (ClaimWithdrawal (plan_batch_no p) (replicate 32 9) 30 4 (plan_bitmap p) (plan_siblings p))
        (funded_state (withdrawals_root (nd_store n))) = Inr s'
    \<and> st_claims s' (replicate 32 9, 4) \<noteq> None"
proof -
  obtain n b where n: "node_serial chain_env chain_genesis n" "get_block (nd_store n) 1 = Some b"
    "chain_withdraw \<in> set (fst (partition_withdraws (transactions b)))" "withdraw_succeeded (nd_store n) chain_withdraw"
    "committed_leaves pad_hash (nd_store n) = [withdraw_leaf pad_hash chain_withdraw]" "length (withdrawals_root (nd_store n)) = 32"
    by (rule sample_claimable)
  let ?r = "withdrawals_root (nd_store n)"
  let ?w = "\<lparr> lg_settlement = funded_state ?r, lg_da = [] \<rparr>"
  obtain l where l: "sys_transfer sample_rt (st_lamports (funded_state ?r)) (rt_vault sample_rt) (replicate 32 9) 30 = Some l"
    using funded_fields(7) by blast
  have digests: "digest_text_ok sample_codec" by (simp add: digest_text_ok_def sample_codec_def sample_text_def)
  have settled: "\<exists>no bat. st_batches (funded_state ?r) no = Some bat \<and> bt_withdrawals_root bat = ?r"
    using funded_fields(4,5) by blast
  show ?thesis
    using claim_tool_pays [OF n(1) _ _ _ _ n(2-4) _ _ _ sample_codec_ok digests node_l2_serves claim_words_parsed,
        where k = 0 and fuel = 1 and rt = sample_rt and s = "funded_state ?r" and ws = "\<lambda>_. ?w" and l = l
          and rpcs = "\<lambda>_. funded_rpc ?r" and rpc = "funded_rpc ?r" and t = 0] n(5) l settled funded_serves [OF n(6)]
    by (simp add: chain_env_simps node_options_default_def digest32_pad_hash pad_table_ok funded_fields) blast
qed

text \<open>
  C15: An idle chain keeps producing blocks: a reachable node with nothing to include whose heartbeat is
  due commits an empty block at the next slot.
\<close>

theorem idle_node_heartbeats:
  assumes "node_reach env g n" and "queue (nd_mempool n) = []" and "pending_deposits n = []"
    and "opt_heartbeat (options env) \<le> saturating_sub now (last_block_unix_ms n)" and "tip_slot n \<noteq> - 1"
  shows "\<exists>n' b. try_produce_block env now n = Some (n', Inr (Some (tip_slot n + 1)))
    \<and> tip_slot n' = tip_slot n + 1 \<and> get_block (nd_store n') (tip_slot n + 1) = Some b \<and> transactions b = []"
proof -
  obtain n1 where take: "take_work env n = (n1, [], [])"
    using assms(2,3) drain_result(1) [of "nd_mempool n" "opt_max_block_transactions (options env)"]
    by (auto simp: take_work_def case_prod_unfold Let_def)
  have core: "core n1 = core n" using core_others(3) [of env n] by (simp add: take)
  have same: "tip_slot n1 = tip_slot n" "last_block_unix_ms n1 = last_block_unix_ms n"
    using take by (auto simp: take_work_def case_prod_unfold Let_def)
  have chain: "chain_ok env g n1"
    using node_reach_chain [OF assms(1)] chain_ok_core [OF core, of env g] by simp
  obtain w where run: "run_block env now n1 [] [] = Some (Inr (w, [], [], []))" by (rule run_block_idle)
  obtain n' where commit: "commit_content env now n1 (w, [], [], []) = Inr n'"
    using commit_content_succeeds [OF chain, of "[]" now w "[]" "[]"] assms(5) same(1) by auto
  have "try_produce_block env now n = Some (n', Inr (Some (tip_slot n + 1)))"
    using assms(4) by (simp add: try_produce_block_def take finish_block_def run commit same leD)
  with commit_content_result(1,3) [OF commit] show ?thesis by (simp add: same)
qed

theorem idle_node_heartbeats_witness:
  "\<exists>n n' b. try_produce_block chain_env 20000 n = Some (n', Inr (Some 1))
    \<and> tip_slot n' = 1 \<and> get_block (nd_store n') 1 = Some b \<and> transactions b = []"
proof -
  obtain n where n: "node_new chain_env store_open chain_genesis 0 = Inr n" "tip_slot n = 0"
    "nd_mempool n = mempool_new 10000 128" "pending_deposits n = []" by (rule chain_start)
  have "last_block_unix_ms n = 0"
    using n(1) by (rule node_new_cases) (simp add: boot_def rebuild_withdrawals_def Let_def)
  then show ?thesis
    using idle_node_heartbeats [OF node_reach.started [OF n(1)], of 20000] n(2-4)
    by (auto simp: mempool_new_def chain_env_simps node_options_default_def saturating_sub_def)
qed

end
